(* ===== verification/XER_Prelude.thy ===== *)
theory XER_Prelude
  imports Main "HOL-Library.Word"
begin

text \<open>
  Shared vocabulary of the XER development: machine-word and byte-string types, the C-locale
  character classification of \<^verbatim>\<open><cctype>\<close>, decimal printing and reading of integers, the
  outcome type of a C++ routine (normal return, exception or error return, undefined behaviour,
  exhausted fuel), and the generic lemmas on lists and outcomes that the component theories use.
\<close>

unbundle bit_operations_syntax

named_theorems xer_defs \<open>unfolding equations of small non-recursive operations\<close>
named_theorems lex_less \<open>length decrease facts of scanners\<close>

type_synonym byte = "8 word"
type_synonym u16 = "16 word"
type_synonym u32 = "32 word"
type_synonym u64 = "64 word"
type_synonym bytes = "byte list"

section \<open>Outcomes of a C++ routine\<close>

text \<open>
  \<open>Ok\<close> is a normal return, \<open>Fail\<close> a thrown exception or a reported error, \<open>Undef\<close> an access
  the C++ standard leaves undefined (an index outside an array or a vector), \<open>OutOfFuel\<close> a
  recursion that was cut off by the fuel of the model.
\<close>

datatype ('e, 'a) exec = Ok 'a | Fail 'e | Undef | OutOfFuel

fun ebind :: "('e, 'a) exec \<Rightarrow> ('a \<Rightarrow> ('e, 'b) exec) \<Rightarrow> ('e, 'b) exec" where
  "ebind (Ok x) f = f x"
| "ebind (Fail e) f = Fail e"
| "ebind Undef f = Undef"
| "ebind OutOfFuel f = OutOfFuel"

lemma ebind_eq_Ok [simp]: "ebind m f = Ok y \<longleftrightarrow> (\<exists>x. m = Ok x \<and> f x = Ok y)"
  by (cases m) auto

lemma ebind_eq_Undef: "ebind m f = Undef \<longleftrightarrow> m = Undef \<or> (\<exists>x. m = Ok x \<and> f x = Undef)"
  by (cases m) auto

lemma ebind_eq_OutOfFuel:
  "ebind m f = OutOfFuel \<longleftrightarrow> m = OutOfFuel \<or> (\<exists>x. m = Ok x \<and> f x = OutOfFuel)"
  by (cases m) auto

lemma ebind_eq_Fail: "ebind m f = Fail e \<longleftrightarrow> m = Fail e \<or> (\<exists>x. m = Ok x \<and> f x = Fail e)"
  by (cases m) auto

lemma ebind_assoc: "ebind (ebind m f) g = ebind m (\<lambda>x. ebind (f x) g)"
  by (cases m) auto

lemma ebind_cong [fundef_cong]:
  "m = m' \<Longrightarrow> (\<And>x. m' = Ok x \<Longrightarrow> f x = f' x) \<Longrightarrow> ebind m f = ebind m' f'"
  by (cases m') auto

fun map_exec :: "('a \<Rightarrow> 'b) \<Rightarrow> ('e, 'a) exec \<Rightarrow> ('e, 'b) exec" where
  "map_exec f (Ok x) = Ok (f x)"
| "map_exec f (Fail e) = Fail e"
| "map_exec f Undef = Undef"
| "map_exec f OutOfFuel = OutOfFuel"

text \<open>The routine comes back: with a value or with an error, but not by undefined behaviour.\<close>

definition returns :: "('e, 'a) exec \<Rightarrow> bool" where
  "returns m \<longleftrightarrow> m \<noteq> Undef \<and> m \<noteq> OutOfFuel"

lemma returns_simps [simp]:
  "returns (Ok x)" "returns (Fail e)" "\<not> returns Undef" "\<not> returns OutOfFuel"
  by (simp_all add: returns_def)

lemma returns_ebind [intro]:
  "returns m \<Longrightarrow> (\<And>x. m = Ok x \<Longrightarrow> returns (f x)) \<Longrightarrow> returns (ebind m f)"
  by (cases m) auto

lemma returns_cases:
  assumes "returns m" obtains x where "m = Ok x" | e where "m = Fail e"
  using assms by (cases m) auto

text \<open>A read of an array or vector element: outside the bounds it is undefined behaviour.\<close>

definition rd :: "'a list \<Rightarrow> nat \<Rightarrow> ('e, 'a) exec" where
  "rd xs i = (if i < length xs then Ok (xs ! i) else Undef)"

lemma rd_in [simp]: "i < length xs \<Longrightarrow> rd xs i = Ok (xs ! i)"
  by (simp add: rd_def)

lemma rd_eq_Ok: "rd xs i = Ok y \<longleftrightarrow> i < length xs \<and> y = xs ! i"
  by (auto simp: rd_def)

text \<open>
  \<open>std::vector::data()\<close>: the null pointer (\<open>None\<close>) for a vector that holds nothing and never
  allocated, as in libstdc++, libc++ and the MSVC library.
\<close>

definition vec_data :: "'a list \<Rightarrow> 'a list option" where
  "vec_data xs = (if xs = [] then None else Some xs)"

lemma vec_data_Cons [simp]: "xs \<noteq> [] \<Longrightarrow> vec_data xs = Some xs"
  by (simp add: vec_data_def)

lemma vec_data_Nil [simp]: "vec_data [] = None"
  by (simp add: vec_data_def)

section \<open>Characters\<close>

abbreviation code :: "char \<Rightarrow> nat" where
  "code c \<equiv> of_char c"

definition c_isspace :: "char \<Rightarrow> bool" where
  "c_isspace c \<longleftrightarrow> code c = 32 \<or> (9 \<le> code c \<and> code c \<le> 13)"

definition c_isdigit :: "char \<Rightarrow> bool" where
  "c_isdigit c \<longleftrightarrow> 48 \<le> code c \<and> code c \<le> 57"

definition c_isupper :: "char \<Rightarrow> bool" where
  "c_isupper c \<longleftrightarrow> 65 \<le> code c \<and> code c \<le> 90"

definition c_islower :: "char \<Rightarrow> bool" where
  "c_islower c \<longleftrightarrow> 97 \<le> code c \<and> code c \<le> 122"

definition c_isalpha :: "char \<Rightarrow> bool" where
  "c_isalpha c \<longleftrightarrow> c_isupper c \<or> c_islower c"

definition c_isalnum :: "char \<Rightarrow> bool" where
  "c_isalnum c \<longleftrightarrow> c_isalpha c \<or> c_isdigit c"

definition c_tolower :: "char \<Rightarrow> char" where
  "c_tolower c = (if c_isupper c then char_of (code c + 32) else c)"

lemmas cctype_defs = c_isspace_def c_isdigit_def c_isupper_def c_islower_def c_isalpha_def
  c_isalnum_def c_tolower_def

definition ch_newline :: char where "ch_newline = CHR 0x0A"
definition ch_return :: char where "ch_return = CHR 0x0D"
definition ch_tab :: char where "ch_tab = CHR 0x09"
definition ch_quote :: char where "ch_quote = CHR 0x22"
definition ch_backslash :: char where "ch_backslash = CHR 0x5C"
definition ch_nul :: char where "ch_nul = CHR 0x00"
definition ch_squote :: char where "ch_squote = CHR 0x27"

lemmas ch_defs = ch_newline_def ch_return_def ch_tab_def ch_quote_def ch_backslash_def ch_nul_def
  ch_squote_def

lemma code_less: "code c < 256"
  by (metis of_char_mod_256 mod_less_divisor zero_less_numeral)

lemma code_inject: "code c = code d \<longleftrightarrow> c = d"
  by (metis char_of_char)

lemma code_char_of: "n < 256 \<Longrightarrow> code (char_of n) = n"
  by simp

lemma tolower_idem: "c_tolower (c_tolower c) = c_tolower c"
  by (auto simp: cctype_defs)

section \<open>Bytes and characters\<close>

definition byte_of_char :: "char \<Rightarrow> byte" where
  "byte_of_char c = of_nat (code c)"

definition char_of_byte :: "byte \<Rightarrow> char" where
  "char_of_byte b = char_of (unat b)"

lemma char_of_byte_of_char [simp]: "char_of_byte (byte_of_char c) = c"
  using code_less [of c] by (simp add: byte_of_char_def char_of_byte_def unat_of_nat)

lemma unat_byte_less: "unat (b::byte) < 256"
proof -
  have "unat b < 2 ^ LENGTH(8)" by (rule unsigned_less)
  then show ?thesis by simp
qed

lemma byte_of_char_of_byte [simp]: "byte_of_char (char_of_byte b) = b"
  using unat_byte_less [of b] by (simp add: byte_of_char_def char_of_byte_def)

definition bytes_of_string :: "string \<Rightarrow> bytes" where
  "bytes_of_string s = map byte_of_char s"

definition string_of_bytes :: "bytes \<Rightarrow> string" where
  "string_of_bytes bs = map char_of_byte bs"

lemma string_of_bytes_of_string [simp]: "string_of_bytes (bytes_of_string s) = s"
  by (simp add: string_of_bytes_def bytes_of_string_def comp_def)

lemma bytes_of_string_of_bytes [simp]: "bytes_of_string (string_of_bytes bs) = bs"
  by (simp add: string_of_bytes_def bytes_of_string_def comp_def)

lemma length_bytes_of_string [simp]: "length (bytes_of_string s) = length s"
  by (simp add: bytes_of_string_def)

lemma bytes_of_string_Nil [simp]: "bytes_of_string s = [] \<longleftrightarrow> s = []"
  by (simp add: bytes_of_string_def)

section \<open>Decimal numerals\<close>

definition digit_char :: "nat \<Rightarrow> char" where
  "digit_char d = char_of (48 + d)"

definition digit_val :: "char \<Rightarrow> nat" where
  "digit_val c = code c - 48"

fun show_nat :: "nat \<Rightarrow> string" where
  "show_nat n = (if n < 10 then [digit_char n] else show_nat (n div 10) @ [digit_char (n mod 10)])"

declare show_nat.simps [simp del]

definition show_int :: "int \<Rightarrow> string" where
  "show_int i = (if i < 0 then ''-'' @ show_nat (nat (- i)) else show_nat (nat i))"

definition digits_value :: "string \<Rightarrow> nat" where
  "digits_value s = foldl (\<lambda>n c. 10 * n + digit_val c) 0 s"

lemma isdigit_digit_char [simp]: "d < 10 \<Longrightarrow> c_isdigit (digit_char d)"
  by (simp add: c_isdigit_def digit_char_def)

lemma digit_val_char [simp]: "d < 10 \<Longrightarrow> digit_val (digit_char d) = d"
  by (simp add: digit_val_def digit_char_def)

lemma digits_value_snoc [simp]: "digits_value (s @ [c]) = 10 * digits_value s + digit_val c"
  by (simp add: digits_value_def)

lemma digits_value_Nil [simp]: "digits_value [] = 0"
  by (simp add: digits_value_def)

lemma show_nat_digits: "list_all c_isdigit (show_nat n)"
proof (induction n rule: show_nat.induct)
  case (1 n)
  then show ?case by (subst show_nat.simps) auto
qed

lemma show_nat_nonempty [simp]: "show_nat n \<noteq> []"
  by (subst show_nat.simps) auto

lemma digits_value_show_nat [simp]: "digits_value (show_nat n) = n"
proof (induction n rule: show_nat.induct)
  case (1 n)
  show ?case
  proof (cases "n < 10")
    case True
    then have "show_nat n = [] @ [digit_char n]" by (simp add: show_nat.simps)
    with True show ?thesis by (simp only: digits_value_snoc digits_value_Nil digit_val_char)
  next
    case False
    then have "show_nat n = show_nat (n div 10) @ [digit_char (n mod 10)]"
      by (simp add: show_nat.simps [of n])
    with False 1 show ?thesis by simp
  qed
qed

lemma length_show_nat: "n < 10 ^ Suc k \<Longrightarrow> length (show_nat n) \<le> Suc k"
proof (induction k arbitrary: n)
  case 0
  then show ?case by (subst show_nat.simps) simp
next
  case (Suc k)
  have "n div 10 < 10 ^ Suc k" using Suc.prems by (simp add: less_mult_imp_div_less mult.commute)
  then show ?case using Suc.IH by (subst show_nat.simps) auto
qed

section \<open>Lists\<close>

lemma nth_append_drop: "i < length xs \<Longrightarrow> drop i xs = xs ! i # drop (Suc i) xs"
  by (rule Cons_nth_drop_Suc [symmetric])

lemma take_Suc_snoc: "i < length xs \<Longrightarrow> take (Suc i) xs = take i xs @ [xs ! i]"
  by (rule take_Suc_conv_app_nth)

lemma take_add_split: "take (i + k) xs = take i xs @ take k (drop i xs)"
  by (rule take_add)

lemma takeWhile_list_all [simp]: "list_all P xs \<Longrightarrow> takeWhile P xs = xs"
  by (induction xs) auto

lemma length_dropWhile_less [lex_less]:
  "xs \<noteq> [] \<Longrightarrow> P (hd xs) \<Longrightarrow> length (dropWhile P xs) < length xs"
  by (cases xs) (auto simp: le_imp_less_Suc length_dropWhile_le)

text \<open>Text between single quotes, as the error messages write names.\<close>

definition quoted :: "string \<Rightarrow> string" where
  "quoted s = ch_squote # s @ [ch_squote]"

end
