(* ===== verification/Sxer84321.thy ===== *)
theory Sxer84321
  imports XER_Prelude
begin

text \<open>
  The sxer84321 byte codec of \<^verbatim>\<open>src/src/xer/encode/sxer84321.c\<close>: an LZ77-style encoder with a
  4096-byte window whose literals are masked with a nonce-keyed stream, its decoder, and the
  FNV-1a checksum. Pointers are \<open>option\<close> values (\<open>None\<close> is \<open>NULL\<close>); an output buffer is its
  capacity together with the prefix written so far, and every array read or write outside its
  bounds is \<open>Undef\<close>, so that memory safety is a theorem and not an assumption. Buffer sizes are
  unbounded naturals: the sums of positions and lengths formed here cannot wrap for a buffer that
  fits into memory.
\<close>

section \<open>Definitions\<close>

datatype Sxer84321Status =
    SXER84321_STATUS_OK
  | SXER84321_STATUS_INVALID_ARGUMENT
  | SXER84321_STATUS_BUFFER_TOO_SMALL
  | SXER84321_STATUS_CORRUPTED_DATA

definition SXER84321_MIN_MATCH :: nat where [simp]: "SXER84321_MIN_MATCH = 4"
definition SXER84321_MAX_MATCH :: nat where [simp]: "SXER84321_MAX_MATCH = 10"
definition SXER84321_MAX_OFFSET :: nat where [simp]: "SXER84321_MAX_OFFSET = 4096"
definition SXER84321_MAX_LITERAL :: nat where [simp]: "SXER84321_MAX_LITERAL = 128"

definition sxer84321_mask :: "u64 \<Rightarrow> nat \<Rightarrow> byte" where
  "sxer84321_mask nonce position =
     (let value = nonce XOR (0x9E3779B97F4A7C15 + of_nat position * 0xBF58476D1CE4E5B9);
          value = value XOR drop_bit 30 value;
          value = value * 0xBF58476D1CE4E5B9;
          value = value XOR drop_bit 27 value;
          value = value * 0x94D049BB133111EB;
          value = value XOR drop_bit 31 value
      in ucast (value AND 0xFF))"

fun checksum_loop :: "u32 \<Rightarrow> bytes \<Rightarrow> u32" where
  "checksum_loop hash [] = hash"
| "checksum_loop hash (b # bs) = checksum_loop ((hash XOR ucast b) * 16777619) bs"

definition sxer84321_checksum :: "bytes option \<Rightarrow> u32" where
  "sxer84321_checksum data =
     (case data of None \<Rightarrow> 0 | Some bs \<Rightarrow> checksum_loop 2166136261 bs)"

definition sxer84321_max_encoded_size :: "nat \<Rightarrow> nat" where
  "sxer84321_max_encoded_size input_size =
     input_size + input_size div SXER84321_MAX_LITERAL + 32"

fun sxer84321_status_string :: "Sxer84321Status \<Rightarrow> string" where
  "sxer84321_status_string SXER84321_STATUS_OK = ''ok''"
| "sxer84321_status_string SXER84321_STATUS_INVALID_ARGUMENT = ''invalid_argument''"
| "sxer84321_status_string SXER84321_STATUS_BUFFER_TOO_SMALL = ''buffer_too_small''"
| "sxer84321_status_string SXER84321_STATUS_CORRUPTED_DATA = ''corrupted_data''"

type_synonym 'a codec = "(Sxer84321Status, 'a) exec"

text \<open>A write \<open>output[out_pos++] = b\<close>: outside the buffer's capacity it is undefined.\<close>

definition wr :: "nat \<Rightarrow> bytes \<Rightarrow> byte \<Rightarrow> bytes codec" where
  "wr output_capacity out b = (if length out < output_capacity then Ok (out @ [b]) else Undef)"

lemma wr_in [simp]: "length out < cap \<Longrightarrow> wr cap out b = Ok (out @ [b])"
  by (simp add: wr_def)

text \<open>The inner \<open>while\<close> of \<open>sxer84321_find_match\<close>: how far the two positions agree.\<close>

function match_length_loop :: "bytes \<Rightarrow> nat \<Rightarrow> nat \<Rightarrow> nat \<Rightarrow> nat codec" where
  "match_length_loop input position candidate len =
     (if len < SXER84321_MAX_MATCH \<and> position + len < length input
      then ebind (rd input (candidate + len)) (\<lambda>a.
           ebind (rd input (position + len)) (\<lambda>b.
             if a = b then match_length_loop input position candidate (Suc len) else Ok len))
      else Ok len)"
  by pat_completeness auto
termination
  by (relation "measure (\<lambda>(input, position, candidate, len). SXER84321_MAX_MATCH - len)") auto

declare match_length_loop.simps [simp del]

text \<open>The \<open>for\<close> loop of \<open>sxer84321_find_match\<close>, from the nearest candidate backwards.\<close>

function find_match_loop ::
  "bytes \<Rightarrow> nat \<Rightarrow> nat \<Rightarrow> nat \<Rightarrow> nat \<Rightarrow> nat \<Rightarrow> (nat \<times> nat) codec" where
  "find_match_loop input position window_start cursor best_length best_offset =
     (if window_start < cursor
      then let candidate = cursor - 1 in
        ebind (match_length_loop input position candidate 0) (\<lambda>len.
          if SXER84321_MIN_MATCH \<le> len \<and> best_length < len
          then (if len = SXER84321_MAX_MATCH then Ok (len, position - candidate)
                else find_match_loop input position window_start (cursor - 1) len
                       (position - candidate))
          else find_match_loop input position window_start (cursor - 1) best_length best_offset)
      else Ok (best_length, best_offset))"
  by pat_completeness auto
termination
  by (relation "measure (\<lambda>(input, position, ws, cursor, bl, bo). cursor)") auto

declare find_match_loop.simps [simp del]

definition sxer84321_find_match :: "bytes \<Rightarrow> nat \<Rightarrow> (nat \<times> nat) codec" where
  "sxer84321_find_match input position =
     (if position = 0 then Ok (0, 0)
      else let window_start =
             (if SXER84321_MAX_OFFSET < position then position - SXER84321_MAX_OFFSET else 0)
           in find_match_loop input position window_start position 0 0)"

text \<open>The scan that extends a literal run until a match starts, the run is full or the input ends.\<close>

function literal_run :: "bytes \<Rightarrow> nat \<Rightarrow> nat \<Rightarrow> (nat \<times> nat) codec" where
  "literal_run input in_pos literal_length =
     (if in_pos < length input \<and> literal_length < SXER84321_MAX_LITERAL
      then ebind (sxer84321_find_match input in_pos) (\<lambda>(next_length, next_offset).
        if SXER84321_MIN_MATCH \<le> next_length then Ok (in_pos, literal_length)
        else literal_run input (Suc in_pos) (Suc literal_length))
      else Ok (in_pos, literal_length))"
  by pat_completeness auto
termination
  by (relation "measure (\<lambda>(input, in_pos, len). SXER84321_MAX_LITERAL - len)") auto

declare literal_run.simps [simp del]

lemma literal_run_ge: "literal_run input p l = Ok (p', l') \<Longrightarrow> p \<le> p'"
proof (induction input p l arbitrary: p' l' rule: literal_run.induct)
  case (1 input p l)
  then show ?case
    by (fastforce simp: literal_run.simps [of input p l] split: if_splits)
qed

fun emit_literals :: "bytes \<Rightarrow> u64 \<Rightarrow> nat \<Rightarrow> nat \<Rightarrow> nat \<Rightarrow> nat \<Rightarrow> bytes \<Rightarrow> bytes codec" where
  "emit_literals input nonce cap literal_start 0 mask_pos out = Ok out"
| "emit_literals input nonce cap literal_start (Suc n) mask_pos out =
     ebind (rd input literal_start) (\<lambda>b.
     ebind (wr cap out (b XOR sxer84321_mask nonce mask_pos))
       (emit_literals input nonce cap (Suc literal_start) n (Suc mask_pos)))"

text \<open>The two bytes of a match token.\<close>

definition match_tag :: "nat \<Rightarrow> nat \<Rightarrow> byte" where
  "match_tag match_length offset_minus_one =
     of_nat (0x80 OR push_bit 4 ((match_length - 3) AND 0x07)
             OR (drop_bit 8 offset_minus_one AND 0x0F))"

definition match_low :: "nat \<Rightarrow> byte" where
  "match_low offset_minus_one = of_nat (offset_minus_one AND 0xFF)"

function encode_loop :: "bytes \<Rightarrow> u64 \<Rightarrow> nat \<Rightarrow> nat \<Rightarrow> bytes \<Rightarrow> nat \<Rightarrow> bytes codec" where
  "encode_loop input nonce cap in_pos out mask_pos =
     (if in_pos < length input
      then ebind (sxer84321_find_match input in_pos) (\<lambda>(match_length, match_offset).
        if SXER84321_MIN_MATCH \<le> match_length
        then (if cap < length out + 2 then Fail SXER84321_STATUS_BUFFER_TOO_SMALL
              else ebind (wr cap out (match_tag match_length (match_offset - 1))) (\<lambda>out1.
                   ebind (wr cap out1 (match_low (match_offset - 1))) (\<lambda>out2.
                     encode_loop input nonce cap (in_pos + match_length) out2 mask_pos)))
        else ebind (literal_run input (Suc in_pos) 1) (\<lambda>(in_pos', literal_length).
          if cap < length out + 1 + literal_length then Fail SXER84321_STATUS_BUFFER_TOO_SMALL
          else ebind (wr cap out (of_nat (literal_length - 1))) (\<lambda>out1.
               ebind (emit_literals input nonce cap in_pos literal_length mask_pos out1) (\<lambda>out2.
                 encode_loop input nonce cap in_pos' out2 (mask_pos + literal_length)))))
      else Ok out)"
  by pat_completeness auto
termination
  by (relation "measure (\<lambda>(input, nonce, cap, in_pos, out, mp). length input - in_pos)")
     (auto dest!: literal_run_ge)

declare encode_loop.simps [simp del]

text \<open>
  \<open>sxer84321_encode\<close>. The output argument is \<open>None\<close> for a null buffer and its capacity otherwise;
  the result carries what the routine stores through its out-parameters: the encoded bytes (whose
  length is \<open>*output_size\<close>), the source checksum and the payload checksum.
\<close>

definition sxer84321_encode ::
  "bytes option \<Rightarrow> u64 \<Rightarrow> nat option \<Rightarrow> bool \<Rightarrow> (bytes \<times> u32 \<times> u32) codec" where
  "sxer84321_encode input nonce output output_size_given =
     (case (input, output, output_size_given) of
        (Some bs, Some cap, True) \<Rightarrow>
          ebind (encode_loop bs nonce cap 0 [] 0) (\<lambda>out.
            Ok (out, sxer84321_checksum (Some bs), sxer84321_checksum (Some out)))
      | _ \<Rightarrow> Fail SXER84321_STATUS_INVALID_ARGUMENT)"

text \<open>The copy loops of the decoder.\<close>

fun copy_match :: "nat \<Rightarrow> nat \<Rightarrow> nat \<Rightarrow> bytes \<Rightarrow> bytes codec" where
  "copy_match cap offset 0 out = Ok out"
| "copy_match cap offset (Suc n) out =
     (if length out < offset then Undef
      else ebind (rd out (length out - offset)) (\<lambda>b.
           ebind (wr cap out b) (copy_match cap offset n)))"

fun copy_literals :: "bytes \<Rightarrow> u64 \<Rightarrow> nat \<Rightarrow> nat \<Rightarrow> nat \<Rightarrow> nat \<Rightarrow> bytes \<Rightarrow> bytes codec" where
  "copy_literals input nonce cap in_pos 0 mask_pos out = Ok out"
| "copy_literals input nonce cap in_pos (Suc n) mask_pos out =
     ebind (rd input in_pos) (\<lambda>b.
     ebind (wr cap out (b XOR sxer84321_mask nonce mask_pos))
       (copy_literals input nonce cap (Suc in_pos) n (Suc mask_pos)))"

definition tag_match_length :: "byte \<Rightarrow> nat" where
  "tag_match_length tag = unat (drop_bit 4 tag AND 0x07) + 3"

definition tag_match_offset :: "byte \<Rightarrow> byte \<Rightarrow> nat" where
  "tag_match_offset tag low = (push_bit 8 (unat tag AND 0x0F) OR unat low) + 1"

function decode_loop :: "bytes \<Rightarrow> u64 \<Rightarrow> nat \<Rightarrow> nat \<Rightarrow> bytes \<Rightarrow> nat \<Rightarrow> bytes codec" where
  "decode_loop input nonce cap in_pos out mask_pos =
     (if in_pos < length input
      then ebind (rd input in_pos) (\<lambda>tag.
        if tag AND 0x80 \<noteq> 0
        then (if length input \<le> Suc in_pos then Fail SXER84321_STATUS_CORRUPTED_DATA
              else ebind (rd input (Suc in_pos)) (\<lambda>low.
                let len = tag_match_length tag; offset = tag_match_offset tag low in
                if length out < offset \<or> cap < length out + len
                then Fail SXER84321_STATUS_CORRUPTED_DATA
                else ebind (copy_match cap offset len out) (\<lambda>out'.
                       decode_loop input nonce cap (in_pos + 2) out' mask_pos)))
        else (let len = unat tag + 1 in
              if length input < Suc in_pos + len \<or> cap < length out + len
              then Fail SXER84321_STATUS_CORRUPTED_DATA
              else ebind (copy_literals input nonce cap (Suc in_pos) len mask_pos out) (\<lambda>out'.
                     decode_loop input nonce cap (Suc in_pos + len) out' (mask_pos + len))))
      else Ok out)"
  by pat_completeness auto
termination
  by (relation "measure (\<lambda>(input, nonce, cap, in_pos, out, mp). length input - in_pos)") auto

declare decode_loop.simps [simp del]

text \<open>\<open>sxer84321_decode\<close>: a zero expected checksum switches the corresponding test off.\<close>

definition sxer84321_decode ::
  "bytes option \<Rightarrow> u64 \<Rightarrow> nat option \<Rightarrow> bool \<Rightarrow> u32 \<Rightarrow> u32 \<Rightarrow> bytes codec" where
  "sxer84321_decode input nonce output output_size_given expected_source_crc
      expected_payload_crc =
     (case (input, output, output_size_given) of
        (Some bs, Some cap, True) \<Rightarrow>
          if expected_payload_crc \<noteq> 0 \<and> sxer84321_checksum (Some bs) \<noteq> expected_payload_crc
          then Fail SXER84321_STATUS_CORRUPTED_DATA
          else ebind (decode_loop bs nonce cap 0 [] 0) (\<lambda>out.
            if expected_source_crc \<noteq> 0 \<and> sxer84321_checksum (Some out) \<noteq> expected_source_crc
            then Fail SXER84321_STATUS_CORRUPTED_DATA
            else Ok out)
      | _ \<Rightarrow> Fail SXER84321_STATUS_INVALID_ARGUMENT)"

section \<open>Match search\<close>

lemma match_length_loop_spec:
  "candidate < position \<Longrightarrow> len \<le> SXER84321_MAX_MATCH \<Longrightarrow> position + len \<le> length input \<Longrightarrow>
   (\<And>k. k < len \<Longrightarrow> input ! (candidate + k) = input ! (position + k)) \<Longrightarrow>
   \<exists>r. match_length_loop input position candidate len = Ok r \<and> r \<le> SXER84321_MAX_MATCH \<and>
     position + r \<le> length input \<and> (\<forall>k<r. input ! (candidate + k) = input ! (position + k))"
proof (induction input position candidate len rule: match_length_loop.induct)
  case (1 input position candidate len)
  show ?case
  proof (cases "len < SXER84321_MAX_MATCH \<and> position + len < length input \<and>
      input ! (candidate + len) = input ! (position + len)")
    case True
    with 1 show ?thesis
      by (auto simp: match_length_loop.simps [of input position candidate len] less_Suc_eq)
  next
    case False
    with 1 show ?thesis
      by (auto simp: match_length_loop.simps [of input position candidate len])
  qed
qed

text \<open>What a match reported by the search promises to the decoder.\<close>

definition valid_match :: "bytes \<Rightarrow> nat \<Rightarrow> nat \<Rightarrow> nat \<Rightarrow> bool" where
  "valid_match input position len off \<longleftrightarrow>
     len = 0 \<or> (SXER84321_MIN_MATCH \<le> len \<and> len \<le> SXER84321_MAX_MATCH \<and>
       position + len \<le> length input \<and> 1 \<le> off \<and> off \<le> SXER84321_MAX_OFFSET \<and>
       off \<le> position \<and> (\<forall>k<len. input ! (position - off + k) = input ! (position + k)))"

lemma find_match_loop_spec:
  "cursor \<le> position \<Longrightarrow> position \<le> length input \<Longrightarrow>
   position \<le> window_start + SXER84321_MAX_OFFSET \<Longrightarrow> valid_match input position bl bo \<Longrightarrow>
   \<exists>len off. find_match_loop input position window_start cursor bl bo = Ok (len, off) \<and>
     valid_match input position len off"
proof (induction input position window_start cursor bl bo rule: find_match_loop.induct)
  case (1 input position ws cursor bl bo)
  show ?case
  proof (cases "ws < cursor")
    case True
    with "1.prems" obtain r where r: "match_length_loop input position (cursor - 1) 0 = Ok r"
      "r \<le> SXER84321_MAX_MATCH" "position + r \<le> length input"
      "\<forall>k<r. input ! (cursor - 1 + k) = input ! (position + k)"
      using match_length_loop_spec [of "cursor - 1" position 0 input] by fastforce
    have "valid_match input position r (position - (cursor - 1))" if "SXER84321_MIN_MATCH \<le> r"
      using that r(2-4) True "1.prems" by (auto simp: valid_match_def)
    with True r(1) "1.IH" "1.prems" show ?thesis
      by (auto simp: find_match_loop.simps [of input position ws cursor bl bo] Let_def)
  next
    case False
    with "1.prems" show ?thesis by (simp add: find_match_loop.simps [of input position ws cursor])
  qed
qed

lemma find_match_spec:
  "position \<le> length input \<Longrightarrow>
   \<exists>len off. sxer84321_find_match input position = Ok (len, off) \<and> valid_match input position len off"
  using find_match_loop_spec [of position position input "position - SXER84321_MAX_OFFSET" 0 0]
  by (auto simp: sxer84321_find_match_def Let_def valid_match_def)

lemma nat_masks: "(7::nat) = mask 3" "(15::nat) = mask 4" "(255::nat) = mask 8"
  by (simp_all add: mask_eq_exp_minus_1)

lemma byte_masks: "(7::byte) = mask 3" "(15::byte) = mask 4"
  by (simp_all add: mask_eq_exp_minus_1)

lemma bit_128: "bit (128::nat) n \<longleftrightarrow> n = 7" "bit (128::int) n \<longleftrightarrow> n = 7"
  "bit (128::byte) n \<longleftrightarrow> n = 7"
proof -
  have "bit ((2::nat) ^ m) n \<longleftrightarrow> n = m" "bit ((2::int) ^ m) n \<longleftrightarrow> n = m"
    "bit ((2::byte) ^ m) n \<longleftrightarrow> n = m \<and> n < 8" for m
    by (auto simp: bit_exp_iff)
  from this [of 7] show "bit (128::nat) n \<longleftrightarrow> n = 7" "bit (128::int) n \<longleftrightarrow> n = 7"
    "bit (128::byte) n \<longleftrightarrow> n = 7" by auto
qed

lemma tag_is_match: "match_tag ml om1 AND 0x80 \<noteq> 0"
proof -
  have "bit (match_tag ml om1 AND 0x80) 7"
    by (simp add: match_tag_def bit_simps bit_128)
  then show ?thesis by auto
qed

lemma tag_length:
  assumes "d \<le> 7" shows "tag_match_length (match_tag (d + 3) om1) = d + 3"
proof -
  have "drop_bit 4 (match_tag (d + 3) om1) AND 0x07 = of_nat (d AND 7)"
    unfolding match_tag_def nat_masks byte_masks
    by (rule bit_word_eqI) (auto simp: bit_simps bit_128)
  moreover have "d AND 7 = take_bit 3 d"
    unfolding nat_masks by (simp flip: take_bit_eq_mask)
  moreover have "take_bit 3 d = d" using assms by (simp add: take_bit_nat_eq_self)
  ultimately show ?thesis using assms by (simp add: tag_match_length_def unat_of_nat)
qed

lemma tag_offset:
  assumes "om1 < 4096" shows "tag_match_offset (match_tag ml om1) (match_low om1) = om1 + 1"
proof -
  have "push_bit 8 (unat (match_tag ml om1) AND 0x0F) OR unat (match_low om1) = take_bit 12 om1"
    unfolding match_tag_def match_low_def nat_masks byte_masks 
    by (rule bit_eqI) (auto simp: bit_simps bit_128)
  then show ?thesis using assms by (simp add: tag_match_offset_def take_bit_nat_eq_self)
qed

lemma literal_tag:
  assumes "k < 128" shows "(of_nat k :: byte) AND 0x80 = 0" and "unat (of_nat k :: byte) = k"
proof -
  have "take_bit 7 k = k" using assms by (simp add: take_bit_nat_eq_self)
  then have "\<not> bit k 7" by (metis bit_take_bit_iff less_irrefl)
  then show "(of_nat k :: byte) AND 0x80 = 0"
    by (intro bit_word_eqI) (auto simp: bit_simps bit_128)
  show "unat (of_nat k :: byte) = k" using assms by (simp add: unat_of_nat)
qed

section \<open>Encoder\<close>

lemma literal_run_spec:
  "p \<le> length input \<Longrightarrow> l \<le> SXER84321_MAX_LITERAL \<Longrightarrow>
   \<exists>n. literal_run input p l = Ok (p + n, l + n) \<and> p + n \<le> length input \<and>
     l + n \<le> SXER84321_MAX_LITERAL \<and>
     (p + n = length input \<or> l + n = SXER84321_MAX_LITERAL \<or>
      (\<exists>len off. sxer84321_find_match input (p + n) = Ok (len, off) \<and> SXER84321_MIN_MATCH \<le> len))"
proof (induction input p l rule: literal_run.induct)
  case (1 input p l)
  show ?case
  proof (cases "p < length input \<and> l < SXER84321_MAX_LITERAL")
    case True
    then obtain len off where f: "sxer84321_find_match input p = Ok (len, off)"
      using find_match_spec [of p input] by fastforce
    show ?thesis
    proof (cases "SXER84321_MIN_MATCH \<le> len")
      case True
      with f \<open>p < length input \<and> l < SXER84321_MAX_LITERAL\<close> show ?thesis
        by (intro exI [of _ 0]) (simp add: literal_run.simps [of input p l])
    next
      case False
      with f True "1.IH" obtain n where
        "literal_run input (Suc p) (Suc l) = Ok (Suc p + n, Suc l + n)" "Suc p + n \<le> length input"
        "Suc l + n \<le> SXER84321_MAX_LITERAL"
        "Suc p + n = length input \<or> Suc l + n = SXER84321_MAX_LITERAL \<or>
         (\<exists>len off. sxer84321_find_match input (Suc p + n) = Ok (len, off) \<and> SXER84321_MIN_MATCH \<le> len)"
        by fastforce
      with f True False show ?thesis
        by (intro exI [of _ "Suc n"]) (simp add: literal_run.simps [of input p l])
    qed
  next
    case False
    with "1.prems" show ?thesis
      by (intro exI [of _ 0]) (auto simp: literal_run.simps [of input p l])
  qed
qed

definition masked :: "u64 \<Rightarrow> nat \<Rightarrow> bytes \<Rightarrow> bytes" where
  "masked nonce mp bs = map (\<lambda>(i, b). b XOR sxer84321_mask nonce (mp + i)) (enumerate 0 bs)"

lemma length_masked [simp]: "length (masked nonce mp bs) = length bs"
  by (simp add: masked_def)

lemma masked_Nil [simp]: "masked nonce mp [] = []"
  by (simp add: masked_def)

lemma masked_Cons: "masked nonce mp (b # bs) =
   (b XOR sxer84321_mask nonce mp) # masked nonce (Suc mp) bs"
  by (rule nth_equalityI) (auto simp: masked_def nth_Cons nth_enumerate_eq split: nat.splits)

lemma masked_masked [simp]: "masked nonce mp (masked nonce mp bs) = bs"
  by (induction bs arbitrary: mp) (auto simp: masked_Cons xor.assoc)

lemma emit_literals_eq:
  "start + n \<le> length input \<Longrightarrow> length out + n \<le> cap \<Longrightarrow>
   emit_literals input nonce cap start n mp out =
     Ok (out @ masked nonce mp (take n (drop start input)))"
proof (induction n arbitrary: start mp out)
  case (Suc n)
  then have "drop start input = input ! start # drop (Suc start) input"
    by (intro nth_append_drop) simp
  with Suc show ?case by (simp add: masked_Cons)
qed simp

lemma copy_literals_eq:
  "start + n \<le> length input \<Longrightarrow> length out + n \<le> cap \<Longrightarrow>
   copy_literals input nonce cap start n mp out =
     Ok (out @ masked nonce mp (take n (drop start input)))"
proof (induction n arbitrary: start mp out)
  case (Suc n)
  then have "drop start input = input ! start # drop (Suc start) input"
    by (intro nth_append_drop) simp
  with Suc show ?case by (simp add: masked_Cons)
qed simp

lemma copy_match_eq:
  "valid_match input p len off \<Longrightarrow> SXER84321_MIN_MATCH \<le> len \<Longrightarrow> p + len \<le> cap \<Longrightarrow> j \<le> len \<Longrightarrow>
   copy_match cap off j (take (p + (len - j)) input) = Ok (take (p + len) input)"
proof (induction j)
  case (Suc j)
  let ?q = "p + (len - Suc j)"
  from Suc.prems have v: "p + len \<le> length input" "1 \<le> off" "off \<le> p"
    and eq: "\<forall>k<len. input ! (p - off + k) = input ! (p + k)"
    by (auto simp: valid_match_def)
  have q: "?q < length input" "?q < cap" "off \<le> ?q" "Suc ?q = p + (len - j)"
    using v Suc.prems by auto
  have "take ?q input ! (?q - off) = input ! ?q"
    using v q eq [rule_format, of "len - Suc j"] Suc.prems by (simp add: add.commute [of j off])
  with q v(2) Suc show ?case
    by (simp add: take_Suc_conv_app_nth [symmetric])
qed simp

lemma take_literal_step:
  "p + n \<le> length input \<Longrightarrow> take p input @ take n (drop p input) = take (p + n) input"
  by (simp add: take_add)

lemma decode_match_step:
  assumes v: "valid_match input p len off" and len: "SXER84321_MIN_MATCH \<le> len"
    and cap: "p + len \<le> cap"
    and pl: "payload = out @ [match_tag len (off - 1), match_low (off - 1)] @ sfx"
  shows "decode_loop payload nonce cap (length out) (take p input) mp =
    decode_loop payload nonce cap (length out + 2) (take (p + len) input) mp"
proof -
  from v len have "len - 3 \<le> 7" "len - 3 + 3 = len" "off - 1 < 4096" "off - 1 + 1 = off"
    "off \<le> p" "p + len \<le> length input"
    by (auto simp: valid_match_def)
  then have "tag_match_length (match_tag len (off - 1)) = len"
    "tag_match_offset (match_tag len (off - 1)) (match_low (off - 1)) = off"
    using tag_length [of "len - 3" "off - 1"] tag_offset [of "off - 1" len] by simp_all
  moreover have "copy_match cap off len (take p input) = Ok (take (p + len) input)"
    using copy_match_eq [OF v len cap, of len] by simp
  ultimately show ?thesis
    using tag_is_match [of len "off - 1"] \<open>off \<le> p\<close> \<open>p + len \<le> length input\<close> cap
    by (subst decode_loop.simps) (simp add: pl nth_append Let_def)
qed

lemma decode_literal_step:
  assumes n: "1 \<le> n" "n \<le> SXER84321_MAX_LITERAL" and p: "p + n \<le> length input" "p + n \<le> cap"
    and pl: "payload = out @ of_nat (n - 1) # masked nonce mp (take n (drop p input)) @ sfx"
  shows "decode_loop payload nonce cap (length out) (take p input) mp =
    decode_loop payload nonce cap (length out + 1 + n) (take (p + n) input) (mp + n)"
proof -
  from n have "n - 1 < 128" "n - 1 + 1 = n" by auto
  note t = literal_tag [OF this(1)] this(2)
  have "copy_literals payload nonce cap (Suc (length out)) n mp (take p input) =
      Ok (take p input @ masked nonce mp (take n (drop (Suc (length out)) payload)))"
    using p pl by (intro copy_literals_eq) auto
  also have "\<dots> = Ok (take (p + n) input)"
    using p by (simp add: pl take_literal_step)
  finally have "copy_literals payload nonce cap (Suc (length out)) n mp (take p input) =
      Ok (take (p + n) input)" .
  with t p show ?thesis
    by (subst decode_loop.simps) (simp add: pl nth_append Let_def)
qed

lemma decode_encode_loop:
  "encode_loop input nonce ecap p out mp = Ok out' \<Longrightarrow> p \<le> length input \<Longrightarrow> length input \<le> cap \<Longrightarrow>
   \<exists>sfx. out' = out @ sfx \<and>
     decode_loop out' nonce cap (length out) (take p input) mp = Ok input"
proof (induction input nonce ecap p out mp arbitrary: out' rule: encode_loop.induct)
  case (1 input nonce ecap p out mp)
  show ?case
  proof (cases "p < length input")
    case False
    with "1.prems" show ?thesis by (simp add: encode_loop.simps [of input] decode_loop.simps [of out'])
  next
    case p: True
    then obtain len off where f: "sxer84321_find_match input p = Ok (len, off)"
      and v: "valid_match input p len off"
      using find_match_spec [of p input] by fastforce
    note enc = "1.prems"(1) [unfolded encode_loop.simps [of input nonce ecap p]]
    show ?thesis
    proof (cases "SXER84321_MIN_MATCH \<le> len")
      case True
      let ?out = "out @ [match_tag len (off - 1), match_low (off - 1)]"
      from p f True enc have cap: "length out + 2 \<le> ecap"
        and rec: "encode_loop input nonce ecap (p + len) ?out mp = Ok out'"
        by (auto split: if_splits)
      from True v have len: "p + len \<le> length input" by (auto simp: valid_match_def)
      from "1.IH"(1) [OF p f refl True _ _ _ rec len "1.prems"(3)] cap
      obtain sfx where sfx: "out' = ?out @ sfx"
        "decode_loop out' nonce cap (length ?out) (take (p + len) input) mp = Ok input"
        by auto
      with decode_match_step [OF v True, of cap out' out sfx nonce mp] len "1.prems"(3)
      show ?thesis by simp
    next
      case False
      obtain n where n: "literal_run input (Suc p) 1 = Ok (Suc p + n, 1 + n)"
        "Suc p + n \<le> length input" "1 + n \<le> SXER84321_MAX_LITERAL"
        using literal_run_spec [of "Suc p" input 1] p by auto
      let ?m = "masked nonce mp (take (1 + n) (drop p input))"
      let ?out = "(out @ [of_nat n]) @ ?m"
      from p f False n enc have cap: "length out + 1 + (1 + n) \<le> ecap"
        by (auto split: if_splits)
      have emit: "emit_literals input nonce ecap p (1 + n) mp (out @ [of_nat n]) = Ok ?out"
        using n cap by (intro emit_literals_eq) auto
      from p f False n enc cap emit
      have rec: "encode_loop input nonce ecap (Suc p + n) ?out (mp + (1 + n)) = Ok out'"
        by (auto split: if_splits)
      from "1.IH"(2) [OF p f refl False n(1) refl _ _ _ rec n(2) "1.prems"(3)] cap emit
      obtain sfx where sfx: "out' = ?out @ sfx"
        "decode_loop out' nonce cap (length ?out) (take (Suc p + n) input) (mp + (1 + n)) = Ok input"
        by auto
      with decode_literal_step [of "1 + n" p input cap out' out nonce mp sfx] n "1.prems"(3)
      show ?thesis by (simp add: min_absorb2)
    qed
  qed
qed

section \<open>Capacity\<close>

text \<open>
  The size argument: a full literal run costs one byte per 128, a shorter run is either the last
  one or is followed by a match, and a match saves at least two bytes.
\<close>

definition match_at :: "bytes \<Rightarrow> nat \<Rightarrow> bool" where
  "match_at input p \<longleftrightarrow>
     (\<exists>len off. sxer84321_find_match input p = Ok (len, off) \<and> SXER84321_MIN_MATCH \<le> len)"

definition budget :: "bytes \<Rightarrow> nat \<Rightarrow> nat" where
  "budget input p = (let r = length input - p in
     if r = 0 then 0 else if match_at input p then r + r div 128 - 1 else r + r div 128 + 1)"

lemma budget_le: "budget input p \<le> length input - p + (length input - p) div 128 + 1"
  by (auto simp: budget_def Let_def)

lemma budget_match_step:
  assumes "match_at input p" "4 \<le> len" "p + len \<le> length input"
  shows "2 + budget input (p + len) \<le> budget input p"
proof -
  have "(length input - (p + len)) div 128 \<le> (length input - p) div 128"
    by (intro div_le_mono) simp
  moreover have "budget input p = length input - p + (length input - p) div 128 - 1"
    using assms by (simp add: budget_def Let_def)
  ultimately show ?thesis using assms budget_le [of input "p + len"] by arith
qed

lemma budget_literal_step:
  assumes "\<not> match_at input p" "p < length input" "1 \<le> n" "p + n \<le> length input"
    and e: "p + n = length input \<or> n = 128 \<or> match_at input (p + n)"
  shows "1 + n + budget input (p + n) \<le> budget input p"
  using e
proof (elim disjE)
  assume "p + n = length input"
  with assms show ?thesis by (simp add: budget_def Let_def)
next
  assume "n = 128"
  with assms have "(length input - p) div 128 = Suc ((length input - (p + n)) div 128)"
    by (simp add: le_div_geq)
  moreover have "budget input p = length input - p + (length input - p) div 128 + 1"
    using assms by (simp add: budget_def Let_def)
  ultimately show ?thesis using assms(4) budget_le [of input "p + n"] \<open>n = 128\<close> by arith
next
  assume m: "match_at input (p + n)"
  have "(length input - (p + n)) div 128 \<le> (length input - p) div 128"
    by (intro div_le_mono) simp
  moreover have "budget input p = length input - p + (length input - p) div 128 + 1"
    using assms by (simp add: budget_def Let_def)
  moreover have "budget input (p + n) \<le> length input - (p + n) + (length input - (p + n)) div 128 - 1"
    using m by (simp add: budget_def Let_def)
  ultimately show ?thesis using assms(2-4) by arith
qed

lemma encode_loop_budget:
  "p \<le> length input \<Longrightarrow> length out + budget input p \<le> cap \<Longrightarrow>
   \<exists>out'. encode_loop input nonce cap p out mp = Ok out' \<and>
     length out' \<le> length out + budget input p"
proof (induction input nonce cap p out mp rule: encode_loop.induct)
  case (1 input nonce cap p out mp)
  show ?case
  proof (cases "p < length input")
    case False
    with "1.prems" show ?thesis by (simp add: encode_loop.simps [of input])
  next
    case p: True
    then obtain len off where f: "sxer84321_find_match input p = Ok (len, off)"
      and v: "valid_match input p len off"
      using find_match_spec [of p input] by fastforce
    show ?thesis
    proof (cases "SXER84321_MIN_MATCH \<le> len")
      case True
      let ?out = "out @ [match_tag len (off - 1), match_low (off - 1)]"
      from True v have len: "p + len \<le> length input" "4 \<le> len" by (auto simp: valid_match_def)
      from f True have "match_at input p" by (auto simp: match_at_def)
      note step = budget_match_step [OF this len(2,1)]
      with "1.prems" have cap: "length ?out + budget input (p + len) \<le> cap" by simp
      from "1.IH"(1) [OF p f refl True _ _ _ len(1) cap] cap
      obtain out' where "encode_loop input nonce cap (p + len) ?out mp = Ok out'"
        "length out' \<le> length ?out + budget input (p + len)"
        by auto
      with p f True cap step show ?thesis
        by (simp add: encode_loop.simps [of input nonce cap p])
    next
      case False
      obtain n where n: "literal_run input (Suc p) 1 = Ok (Suc p + n, 1 + n)"
        "Suc p + n \<le> length input" "1 + n \<le> SXER84321_MAX_LITERAL"
        "Suc p + n = length input \<or> 1 + n = 128 \<or> match_at input (Suc p + n)"
        using literal_run_spec [of "Suc p" input 1] p by (auto simp: match_at_def)
      let ?m = "masked nonce mp (take (1 + n) (drop p input))"
      let ?out = "(out @ [of_nat n]) @ ?m"
      have len: "length ?out = length out + 1 + (1 + n)" using n(2) by simp
      from f False have "\<not> match_at input p" by (auto simp: match_at_def)
      from budget_literal_step [OF this p, of "1 + n"] n
      have step: "1 + (1 + n) + budget input (Suc p + n) \<le> budget input p" by simp
      with "1.prems" len have cap: "length ?out + budget input (Suc p + n) \<le> cap" by simp
      have emit: "emit_literals input nonce cap p (1 + n) mp (out @ [of_nat n]) = Ok ?out"
        using n cap len by (intro emit_literals_eq) auto
      from "1.IH"(2) [OF p f refl False n(1) refl _ _ _ n(2) cap] cap emit len
      obtain out' where "encode_loop input nonce cap (Suc p + n) ?out (mp + (1 + n)) = Ok out'"
        "length out' \<le> length ?out + budget input (Suc p + n)"
        by auto
      with p f False n cap emit len step show ?thesis
        by (simp add: encode_loop.simps [of input nonce cap p])
    qed
  qed
qed

section \<open>Memory safety\<close>

lemma copy_match_safe:
  "1 \<le> off \<Longrightarrow> off \<le> length out \<Longrightarrow> length out + n \<le> cap \<Longrightarrow>
   \<exists>out'. copy_match cap off n out = Ok out' \<and> length out' = length out + n"
proof (induction n arbitrary: out)
  case (Suc n)
  from Suc.prems Suc.IH [of "out @ [out ! (length out - off)]"] show ?case by auto
qed simp

lemma tag_match_offset_pos: "1 \<le> tag_match_offset tag low"
  by (simp add: tag_match_offset_def)

lemma decode_loop_safe:
  "length out \<le> cap \<Longrightarrow>
   (\<exists>out'. decode_loop input nonce cap p out mp = Ok out' \<and> length out' \<le> cap) \<or>
   decode_loop input nonce cap p out mp = Fail SXER84321_STATUS_CORRUPTED_DATA"
proof (induction input nonce cap p out mp rule: decode_loop.induct)
  case (1 input nonce cap p out mp)
  show ?case
  proof (cases "p < length input")
    case False
    with "1.prems" show ?thesis by (simp add: decode_loop.simps [of input nonce cap p])
  next
    case p: True
    let ?tag = "input ! p"
    have tag: "(rd input p :: byte codec) = Ok ?tag" using p by simp
    show ?thesis
    proof (cases "?tag AND 0x80 = 0")
      case lit: True
      let ?n = "unat ?tag + 1"
      show ?thesis
      proof (cases "length input < Suc p + ?n \<or> cap < length out + ?n")
        case True
        with p lit show ?thesis by (simp add: decode_loop.simps [of input nonce cap p] Let_def)
      next
        case False
        let ?out = "out @ masked nonce mp (take ?n (drop (Suc p) input))"
        from False have len: "length ?out \<le> cap" by auto
        from False have c: "copy_literals input nonce cap (Suc p) ?n mp out =
            Ok ?out"
          by (intro copy_literals_eq) auto
        have "decode_loop input nonce cap p out mp =
            decode_loop input nonce cap (Suc p + ?n) ?out (mp + ?n)"
          using False p lit c
          by (subst decode_loop.simps) (simp add: Let_def del: copy_literals.simps)
        with "1.IH"(2) [OF p tag _ refl False c len] lit show ?thesis by simp
      qed
    next
      case m: False
      show ?thesis
      proof (cases "length input \<le> Suc p \<or> length out < tag_match_offset ?tag (input ! Suc p) \<or>
          cap < length out + tag_match_length ?tag")
        case True
        with p m show ?thesis by (auto simp: decode_loop.simps [of input nonce cap p] Let_def)
      next
        case False
        then obtain out' where c: "copy_match cap (tag_match_offset ?tag (input ! Suc p))
            (tag_match_length ?tag) out = Ok out'" "length out' \<le> cap"
          using copy_match_safe [OF tag_match_offset_pos, of ?tag "input ! Suc p" out
              "tag_match_length ?tag" cap]
          by auto
        from "1.IH"(1) [OF p tag m _ _ refl refl _ c] False p m c show ?thesis
          by (simp add: decode_loop.simps [of input nonce cap p] Let_def)
      qed
    qed
  qed
qed

lemma encode_loop_safe:
  "p \<le> length input \<Longrightarrow>
   (\<exists>out'. encode_loop input nonce cap p out mp = Ok out') \<or>
   encode_loop input nonce cap p out mp = Fail SXER84321_STATUS_BUFFER_TOO_SMALL"
proof (induction input nonce cap p out mp rule: encode_loop.induct)
  case (1 input nonce cap p out mp)
  show ?case
  proof (cases "p < length input")
    case False
    then show ?thesis by (simp add: encode_loop.simps [of input])
  next
    case p: True
    then obtain len off where f: "sxer84321_find_match input p = Ok (len, off)"
      and v: "valid_match input p len off"
      using find_match_spec [of p input] by fastforce
    obtain n where n: "literal_run input (Suc p) 1 = Ok (Suc p + n, 1 + n)"
      "Suc p + n \<le> length input"
      using literal_run_spec [of "Suc p" input 1] p by auto
    have emit: "emit_literals input nonce cap p (1 + n) mp (out @ [of_nat n]) =
        Ok ((out @ [of_nat n]) @ masked nonce mp (take (1 + n) (drop p input)))"
      if "length out + 1 + (1 + n) \<le> cap"
      using n that by (intro emit_literals_eq) auto
    show ?thesis
    proof (cases "SXER84321_MIN_MATCH \<le> len")
      case True
      with v have len: "p + len \<le> length input" by (auto simp: valid_match_def)
      from "1.IH"(1) [OF p f refl True _ _ _ len] p f True show ?thesis
        by (auto simp: encode_loop.simps [of input nonce cap p])
    next
      case False
      from "1.IH"(2) [OF p f refl False n(1) refl _ _ _ n(2)] emit p f False n show ?thesis
        by (auto simp: encode_loop.simps [of input nonce cap p])
    qed
  qed
qed

section \<open>The checksum\<close>

lemma checksum_mult_inject: "(a::u32) * 16777619 = b * 16777619 \<longleftrightarrow> a = b"
proof
  have inv: "(16777619::u32) * 0x359C449B = 1" by simp
  assume "a * 16777619 = b * 16777619"
  then have "a * (16777619 * 0x359C449B) = b * (16777619 * 0x359C449B)"
    by (simp only: mult.assoc [symmetric])
  then show "a = b" by (simp only: inv mult_1_right)
qed simp

lemma xor_left_inject: "(h::u32) XOR a = h XOR b \<longleftrightarrow> a = b"
proof
  assume "h XOR a = h XOR b"
  then have "h XOR (h XOR a) = h XOR (h XOR b)" by (rule arg_cong)
  then show "a = b" by (simp only: xor.assoc [symmetric] xor_self_eq xor.left_neutral)
qed simp

lemma ucast_byte_inject: "(ucast (a::byte) :: u32) = ucast b \<longleftrightarrow> a = b"
proof
  assume "(ucast a :: u32) = ucast b"
  then have "bit (ucast a :: u32) n = bit (ucast b :: u32) n" for n by simp
  then have eq: "(n < 32 \<and> bit a n) = (n < 32 \<and> bit b n)" for n by (simp add: bit_simps)
  show "a = b"
  proof (rule bit_word_eqI)
    fix n assume "n < LENGTH(8)"
    with eq [of n] show "bit a n = bit b n" by simp
  qed
qed simp

lemma checksum_step_inject:
  "((h::u32) XOR ucast (a::byte)) * 16777619 = (h XOR ucast b) * 16777619 \<longleftrightarrow> a = b"
  by (simp add: checksum_mult_inject xor_left_inject ucast_byte_inject)

lemma checksum_loop_inject: "checksum_loop h bs = checksum_loop h' bs \<longleftrightarrow> h = h'"
proof (induction bs arbitrary: h h')
  case (Cons b bs)
  then show ?case
    by (simp add: checksum_mult_inject xor.commute [of _ "ucast b"] xor_left_inject)
qed simp

lemma checksum_loop_append: "checksum_loop h (xs @ ys) = checksum_loop (checksum_loop h xs) ys"
  by (induction xs arbitrary: h) auto

lemma checksum_single_change:
  "checksum_loop h (xs @ a # ys) = checksum_loop h (xs @ b # ys) \<longleftrightarrow> a = b"
  by (simp add: checksum_loop_append checksum_loop_inject checksum_step_inject)


section \<open>Contract and properties\<close>

text \<open>
  What a client of a payload codec relies on: encoding into a buffer of the advertised size
  succeeds and stays within it, and decoding the result into a buffer of the original size returns
  the original bytes.
\<close>

locale payload_codec =
  fixes max_size :: "nat \<Rightarrow> nat"
    and encode :: "bytes \<Rightarrow> u64 \<Rightarrow> nat \<Rightarrow> (bytes \<times> u32 \<times> u32) codec"
    and decode :: "bytes \<Rightarrow> u64 \<Rightarrow> nat \<Rightarrow> u32 \<Rightarrow> u32 \<Rightarrow> bytes codec"
    and checksum :: "bytes \<Rightarrow> u32"
  assumes encode_total: "\<exists>p. encode bs nonce (max_size (length bs)) = Ok (p, checksum bs, checksum p) \<and>
      length p \<le> max_size (length bs) \<and> (bs \<noteq> [] \<longrightarrow> p \<noteq> [])"
    and decode_encode: "encode bs nonce cap = Ok (p, s, c) \<Longrightarrow> length bs \<le> dcap \<Longrightarrow>
      decode p nonce dcap s c = Ok bs"
begin

text \<open>Encoding and decoding back through buffers of the sizes a container uses.\<close>

lemma pipeline:
  obtains p where "encode bs nonce (max_size (length bs)) = Ok (p, checksum bs, checksum p)"
    and "decode p nonce (length bs) (checksum bs) (checksum p) = Ok bs"
    and "length p \<le> max_size (length bs)" and "bs \<noteq> [] \<Longrightarrow> p \<noteq> []"
  using encode_total [of bs nonce] decode_encode [of bs nonce _ _ _ _ "length bs"] by blast

text \<open>The encoder is injective for a fixed nonce.\<close>

lemma encode_inject:
  "encode bs nonce cap = Ok (p, s, c) \<Longrightarrow> encode bs' nonce cap' = Ok (p, s, c) \<Longrightarrow> bs = bs'"
  using decode_encode [of bs nonce cap p s c "max (length bs) (length bs')"]
    decode_encode [of bs' nonce cap' p s c "max (length bs) (length bs')"] by simp

end

lemma encode_eq_Ok:
  "sxer84321_encode (Some bs) nonce (Some cap) True = Ok (p, s, c) \<longleftrightarrow>
   encode_loop bs nonce cap 0 [] 0 = Ok p \<and> s = sxer84321_checksum (Some bs) \<and>
   c = sxer84321_checksum (Some p)"
  by (auto simp: sxer84321_encode_def)

lemma encode_max_size:
  "\<exists>p. encode_loop bs nonce (sxer84321_max_encoded_size (length bs)) 0 [] 0 = Ok p \<and>
     length p \<le> length bs + length bs div 128 + 1"
proof -
  have "budget bs 0 \<le> length bs + length bs div 128 + 1" using budget_le [of bs 0] by simp
  with encode_loop_budget [of 0 bs "[]" "sxer84321_max_encoded_size (length bs)" nonce 0]
  show ?thesis by (auto simp: sxer84321_max_encoded_size_def intro: order_trans)
qed

lemma encode_loop_nonempty:
  "encode_loop bs nonce cap 0 [] 0 = Ok p \<Longrightarrow> bs \<noteq> [] \<Longrightarrow> p \<noteq> []"
  using decode_encode_loop [of bs nonce cap 0 "[]" 0 p "length bs"]
  by (auto simp: decode_loop.simps [of "[]"])

lemma decode_encode_status:
  assumes "sxer84321_encode (Some bs) nonce (Some cap) True = Ok (p, s, c)" "length bs \<le> dcap"
  shows "sxer84321_decode (Some p) nonce (Some dcap) True s c = Ok bs"
  using assms decode_encode_loop [of bs nonce cap 0 "[]" 0 p dcap]
  by (auto simp: encode_eq_Ok sxer84321_decode_def)

interpretation sxer: payload_codec sxer84321_max_encoded_size
  "\<lambda>bs nonce cap. sxer84321_encode (Some bs) nonce (Some cap) True"
  "\<lambda>p nonce cap s c. sxer84321_decode (Some p) nonce (Some cap) True s c"
  "\<lambda>bs. sxer84321_checksum (Some bs)"
proof unfold_locales
  fix bs nonce
  show "\<exists>p. sxer84321_encode (Some bs) nonce (Some (sxer84321_max_encoded_size (length bs))) True =
      Ok (p, sxer84321_checksum (Some bs), sxer84321_checksum (Some p)) \<and>
      length p \<le> sxer84321_max_encoded_size (length bs) \<and> (bs \<noteq> [] \<longrightarrow> p \<noteq> [])"
    using encode_max_size [of bs nonce]
    by (auto simp: encode_eq_Ok sxer84321_max_encoded_size_def dest: encode_loop_nonempty)
qed (rule decode_encode_status)

text \<open>The concrete run the two witnesses use: a period-three input, one literal run and one match.\<close>

lemma encode_example:
  "sxer84321_encode (Some [1, 2, 3, 1, 2, 3, 1, 2, 3, 1, 2]) 7 (Some 50) True =
     Ok ([2, 220, 240, 239, 208, 2], 1860662884, 1070337556)"
  by code_simp

text \<open>
  C1. Round trip of the codec: whatever \<open>sxer84321_encode\<close> produces, \<open>sxer84321_decode\<close> with the
  same nonce, the two checksums the encoder reported and an output buffer at least as large as the
  input returns exactly the input.
\<close>

theorem sxer84321_roundtrip:
  assumes "sxer84321_encode (Some bs) nonce (Some cap) True = Ok (payload, source_crc, payload_crc)"
    and "length bs \<le> dcap"
  shows "sxer84321_decode (Some payload) nonce (Some dcap) True source_crc payload_crc = Ok bs"
  using assms by (rule sxer.decode_encode)

theorem sxer84321_roundtrip_witness:
  "sxer84321_decode (Some [2, 220, 240, 239, 208, 2]) 7 (Some 11) True 1860662884 1070337556 =
     Ok [1, 2, 3, 1, 2, 3, 1, 2, 3, 1, 2]"
  by (rule sxer84321_roundtrip [OF encode_example]) simp

text \<open>
  C3. An output buffer of \<open>sxer84321_max_encoded_size\<close> bytes is always enough: encoding never
  reports \<open>BUFFER_TOO_SMALL\<close> there, and the payload exceeds the input by at most one byte per 128
  plus one.
\<close>

theorem sxer84321_encode_fits:
  "\<exists>payload. sxer84321_encode (Some bs) nonce (Some (sxer84321_max_encoded_size (length bs))) True =
      Ok (payload, sxer84321_checksum (Some bs), sxer84321_checksum (Some payload)) \<and>
      length payload \<le> length bs + length bs div SXER84321_MAX_LITERAL + 1"
  using encode_max_size [of bs nonce] by (auto simp: encode_eq_Ok)

text \<open>
  C5. Memory safety of the decoder on arbitrary, possibly hostile input: it never reads or writes
  outside its buffers, and it returns either \<open>CORRUPTED_DATA\<close> or \<open>INVALID_ARGUMENT\<close>, or output that
  fits the capacity.
\<close>

theorem sxer84321_decode_safe:
  "case sxer84321_decode input nonce output given scrc pcrc of
     Ok out \<Rightarrow> (\<exists>cap. output = Some cap \<and> length out \<le> cap)
   | Fail e \<Rightarrow> e \<in> {SXER84321_STATUS_CORRUPTED_DATA, SXER84321_STATUS_INVALID_ARGUMENT}
   | Undef \<Rightarrow> False
   | OutOfFuel \<Rightarrow> False"
proof (cases "input = None \<or> output = None \<or> \<not> given")
  case True
  then show ?thesis by (auto simp: sxer84321_decode_def split: option.splits bool.splits)
next
  case False
  then obtain bs cap where "input = Some bs" "output = Some cap" "given" by auto
  then show ?thesis
    using decode_loop_safe [of "[]" cap bs nonce 0 0] by (auto simp: sxer84321_decode_def)
qed

text \<open>
  Memory safety of the encoder for every capacity of the output buffer: no access is out of
  bounds, and a buffer that is too small is reported as \<open>BUFFER_TOO_SMALL\<close>.
\<close>

theorem sxer84321_encode_safe:
  "(\<exists>r. sxer84321_encode (Some bs) nonce (Some cap) True = Ok r) \<or>
   sxer84321_encode (Some bs) nonce (Some cap) True = Fail SXER84321_STATUS_BUFFER_TOO_SMALL"
  using encode_loop_safe [of 0 bs nonce cap "[]" 0] by (auto simp: sxer84321_encode_def)

text \<open>
  C15. Corruption of any single byte of an encoded payload is detected: with a non-zero payload
  checksum, decoding the payload with that byte replaced by a different one reports
  \<open>CORRUPTED_DATA\<close>.
\<close>

theorem sxer84321_detects_byte_change:
  assumes enc: "sxer84321_encode (Some bs) nonce (Some cap) True = Ok (payload, scrc, pcrc)"
    and crc: "pcrc \<noteq> 0" and i: "i < length payload" and b: "b \<noteq> payload ! i"
  shows "sxer84321_decode (Some (payload[i := b])) nonce (Some dcap) True scrc pcrc =
    Fail SXER84321_STATUS_CORRUPTED_DATA"
proof -
  have "payload[i := b] = take i payload @ b # drop (Suc i) payload"
    using i by (simp add: upd_conv_take_nth_drop)
  moreover have "payload = take i payload @ payload ! i # drop (Suc i) payload"
    using i by (rule id_take_nth_drop)
  ultimately have "checksum_loop h (payload[i := b]) \<noteq> checksum_loop h payload" for h
    using b checksum_single_change [of h "take i payload" b "drop (Suc i) payload" "payload ! i"]
    by metis
  with enc crc show ?thesis
    by (auto simp: encode_eq_Ok sxer84321_decode_def sxer84321_checksum_def)
qed

theorem sxer84321_detects_byte_change_witness:
  "sxer84321_decode (Some [2, 220, 241, 239, 208, 2]) 7 (Some 11) True 1860662884 1070337556 =
     Fail SXER84321_STATUS_CORRUPTED_DATA"
  using sxer84321_detects_byte_change [OF encode_example, of 2 241 11] by simp

end
