(* ===== verification/XerTokenzer.thy ===== *)
theory XerTokenzer
  imports XER_Prelude
begin

text \<open>
  The source normaliser of \<^verbatim>\<open>src/src/xer/xer_string.cc\<close> and the tokenizer of
  \<^verbatim>\<open>src/src/xer/xer_tokenzer.cc\<close>. A lexer object is the pair of the source text from \<open>index_\<close> on and
  the location; \<open>Peek\<close> and \<open>Advance\<close> are the head and the tail of that text, and the loops of the
  lexer are recursions on it. Exceptions are \<open>Fail\<close> with the \<open>what()\<close> text.
\<close>

section \<open>Definitions\<close>

record XerSourceLocation =
  line :: nat
  column :: nat

record XerSourceRange =
  range_begin :: XerSourceLocation
  range_end :: XerSourceLocation

datatype XerTokenKind =
    kEndOfFile | kIdentifier | kNumber | kString | kImport | kAs | kAsync | kLocal | kThen | kEnd
  | kLParen | kRParen | kLBrace | kRBrace | kComma | kColon | kSemicolon | kEqual | kArrow

record XerToken =
  tok_kind :: XerTokenKind
  tok_text :: string
  tok_range :: XerSourceRange

definition start_location :: XerSourceLocation where
  "start_location = \<lparr>line = 1, column = 1\<rparr>"

fun XerTokenKindName :: "XerTokenKind \<Rightarrow> string" where
  "XerTokenKindName kEndOfFile = ''eof''"
| "XerTokenKindName kIdentifier = ''identifier''"
| "XerTokenKindName kNumber = ''number''"
| "XerTokenKindName kString = ''string''"
| "XerTokenKindName kImport = ''import''"
| "XerTokenKindName kAs = ''as''"
| "XerTokenKindName kAsync = ''async''"
| "XerTokenKindName kLocal = ''local''"
| "XerTokenKindName kThen = ''then''"
| "XerTokenKindName kEnd = ''end''"
| "XerTokenKindName kLParen = ''(''"
| "XerTokenKindName kRParen = '')''"
| "XerTokenKindName kLBrace = ''{''"
| "XerTokenKindName kRBrace = ''}''"
| "XerTokenKindName kComma = '',''"
| "XerTokenKindName kColon = '':''"
| "XerTokenKindName kSemicolon = '';''"
| "XerTokenKindName kEqual = ''=''"
| "XerTokenKindName kArrow = ''->''"

subsection \<open>Normalisation (xer_string.cc)\<close>

text \<open>
  ICU is not part of the repository. \<open>NoIcu\<close> is a build without it; \<open>Icu None\<close> a build whose NFC
  normaliser cannot be created; \<open>Icu (Some f)\<close> one where \<open>f\<close> normalises a UTF-8 text (\<open>None\<close> when
  ICU reports a failure). \<open>NormalizeSource\<close> threads the text behind \<open>error_out\<close>: the ICU success
  path leaves it as it was, the build without ICU clears it.
\<close>

datatype icu = NoIcu | Icu "(string \<Rightarrow> string option) option"

definition strip_bom :: "string \<Rightarrow> string" where
  "strip_bom s =
     (if 3 \<le> length s \<and> code (s ! 0) = 0xEF \<and> code (s ! 1) = 0xBB \<and> code (s ! 2) = 0xBF
      then drop 3 s else s)"

definition NormalizeSource :: "icu \<Rightarrow> string \<Rightarrow> string \<Rightarrow> string \<times> string" where
  "NormalizeSource icu source error_out =
     (let normalized = strip_bom source in
      case icu of
        NoIcu \<Rightarrow> (normalized, '''')
      | Icu None \<Rightarrow> (normalized, ''ICU normalizer initialization failed'')
      | Icu (Some nfc) \<Rightarrow>
          (case nfc normalized of
             None \<Rightarrow> (normalized, ''ICU source normalization failed'')
           | Some utf8 \<Rightarrow> (utf8, error_out)))"

definition ToLowerAscii :: "string \<Rightarrow> string" where
  "ToLowerAscii s = map c_tolower s"

subsection \<open>Lexer (xer_tokenzer.cc)\<close>

definition advance_location :: "char \<Rightarrow> XerSourceLocation \<Rightarrow> XerSourceLocation" where
  "advance_location ch loc =
     (if ch = ch_newline then \<lparr>line = line loc + 1, column = 1\<rparr>
      else loc\<lparr>column := column loc + 1\<rparr>)"

text \<open>A loop \<open>while (!AtEnd() && P(Peek())) text.push_back(Advance())\<close>.\<close>

fun scan :: "(char \<Rightarrow> bool) \<Rightarrow> string \<Rightarrow> XerSourceLocation \<Rightarrow> string \<times> string \<times> XerSourceLocation"
  where
  "scan P [] loc = ([], [], loc)"
| "scan P (c # cs) loc =
     (if P c then (case scan P cs (advance_location c loc) of (t, rest, loc') \<Rightarrow> (c # t, rest, loc'))
      else ([], c # cs, loc))"

lemma scan_eq:
  "scan P cs loc = (takeWhile P cs, dropWhile P cs, fold advance_location (takeWhile P cs) loc)"
  by (induction cs arbitrary: loc) auto

function SkipWhitespaceAndComments ::
  "string \<Rightarrow> XerSourceLocation \<Rightarrow> string \<times> XerSourceLocation" where
  "SkipWhitespaceAndComments [] loc = ([], loc)"
| "SkipWhitespaceAndComments (c # cs) loc =
     (if c_isspace c then SkipWhitespaceAndComments cs (advance_location c loc)
      else if c = CHR ''/'' \<and> cs \<noteq> [] \<and> hd cs = CHR ''/''
      then (case scan (\<lambda>ch. ch \<noteq> ch_newline) (c # cs) loc of
              (comment, rest, loc') \<Rightarrow> SkipWhitespaceAndComments rest loc')
      else (c # cs, loc))"
  by pat_completeness auto
termination
  by (relation "measure (\<lambda>(cs, loc). length cs)")
     (auto simp: scan_eq ch_newline_def le_imp_less_Suc length_dropWhile_le)

definition is_ident_start :: "char \<Rightarrow> bool" where
  "is_ident_start ch \<longleftrightarrow> c_isalpha ch \<or> ch = CHR ''_''"

definition is_ident_char :: "char \<Rightarrow> bool" where
  "is_ident_char ch \<longleftrightarrow> c_isalnum ch \<or> ch = CHR ''_''"

type_synonym lexed = "XerToken \<times> string \<times> XerSourceLocation"

definition mk_token :: "XerTokenKind \<Rightarrow> string \<Rightarrow> XerSourceLocation \<Rightarrow> XerSourceLocation \<Rightarrow> XerToken"
  where
  "mk_token k t b e = \<lparr>tok_kind = k, tok_text = t, tok_range = \<lparr>range_begin = b, range_end = e\<rparr>\<rparr>"

definition keyword_kind :: "string \<Rightarrow> XerTokenKind" where
  "keyword_kind t =
     (if t = ''as'' then kAs
      else if t = ''async'' then kAsync
      else if t = ''local'' then kLocal
      else if t = ''then'' then kThen
      else if t = ''end'' then kEnd
      else kIdentifier)"

definition LexIdentifier :: "string \<Rightarrow> XerSourceLocation \<Rightarrow> lexed" where
  "LexIdentifier cs loc =
     (case scan is_ident_char cs loc of
        (t, rest, loc') \<Rightarrow> (mk_token (keyword_kind t) t loc loc', rest, loc'))"

definition LexNumber :: "string \<Rightarrow> XerSourceLocation \<Rightarrow> lexed" where
  "LexNumber cs loc =
     (case scan c_isdigit cs loc of
        (t, rest, loc') \<Rightarrow> (mk_token kNumber t loc loc', rest, loc'))"

definition at_location :: "XerSourceLocation \<Rightarrow> string \<Rightarrow> string" where
  "at_location loc message = show_nat (line loc) @ '':'' @ show_nat (column loc) @ '': '' @ message"

text \<open>\<open>LexImport\<close> and \<open>LexArrow\<close> are entered with \<open>@\<close> or \<open>-\<close> as the next character.\<close>

definition LexImport :: "char \<Rightarrow> string \<Rightarrow> XerSourceLocation \<Rightarrow> (string, lexed) exec" where
  "LexImport c cs loc =
     (case scan c_isalpha cs (advance_location c loc) of
        (keyword, rest, loc') \<Rightarrow>
          if keyword \<noteq> ''import''
          then Fail (at_location loc (''unknown directive '' @ quoted (''@'' @ keyword)))
          else Ok (mk_token kImport ''@import'' loc loc', rest, loc'))"

definition LexArrow :: "char \<Rightarrow> string \<Rightarrow> XerSourceLocation \<Rightarrow> (string, lexed) exec" where
  "LexArrow c cs loc =
     (let loc1 = advance_location c loc in
      if cs = [] \<or> hd cs \<noteq> CHR ''>'' then Fail (at_location loc (''expected '' @ quoted ''->''))
      else let loc2 = advance_location (hd cs) loc1 in
           Ok (mk_token kArrow ''->'' loc loc2, tl cs, loc2))"

definition unescape :: "char \<Rightarrow> char" where
  "unescape escaped =
     (if escaped = CHR ''n'' then ch_newline
      else if escaped = CHR ''r'' then ch_return
      else if escaped = CHR ''t'' then ch_tab
      else escaped)"

text \<open>The loop of \<open>LexString\<close>, after the opening quote; \<open>None\<close> when the text ends first.\<close>

fun string_loop :: "string \<Rightarrow> XerSourceLocation \<Rightarrow> (string \<times> string \<times> XerSourceLocation) option" where
  "string_loop [] loc = None"
| "string_loop (ch # cs) loc =
     (let loc1 = advance_location ch loc in
      if ch = ch_quote then Some ([], cs, loc1)
      else if ch = ch_backslash \<and> cs \<noteq> []
      then (case cs of [] \<Rightarrow> None | escaped # cs' \<Rightarrow>
              map_option (\<lambda>(t, r). (unescape escaped # t, r))
                (string_loop cs' (advance_location escaped loc1)))
      else map_option (\<lambda>(t, r). (ch # t, r)) (string_loop cs loc1))"

definition LexString :: "char \<Rightarrow> string \<Rightarrow> XerSourceLocation \<Rightarrow> (string, lexed) exec" where
  "LexString c cs loc =
     (case string_loop cs (advance_location c loc) of
        None \<Rightarrow> Fail (at_location loc ''unterminated string literal'')
      | Some (t, rest, loc') \<Rightarrow> Ok (mk_token kString t loc loc', rest, loc'))"

definition single_char_kind :: "char \<Rightarrow> XerTokenKind option" where
  "single_char_kind c =
     (if c = CHR ''('' then Some kLParen
      else if c = CHR '')'' then Some kRParen
      else if c = CHR ''{'' then Some kLBrace
      else if c = CHR ''}'' then Some kRBrace
      else if c = CHR '','' then Some kComma
      else if c = CHR '':'' then Some kColon
      else if c = CHR '';'' then Some kSemicolon
      else if c = CHR ''='' then Some kEqual
      else None)"

definition MakeSingleCharToken :: "XerTokenKind \<Rightarrow> char \<Rightarrow> string \<Rightarrow> XerSourceLocation \<Rightarrow> lexed" where
  "MakeSingleCharToken k c cs loc =
     (mk_token k [c] loc (advance_location c loc), cs, advance_location c loc)"

text \<open>The body of the loop of \<open>Tokenize\<close> at a character that is neither blank nor a comment.\<close>

definition lex_token :: "char \<Rightarrow> string \<Rightarrow> XerSourceLocation \<Rightarrow> (string, lexed) exec" where
  "lex_token c cs loc =
     (if is_ident_start c then Ok (LexIdentifier (c # cs) loc)
      else if c_isdigit c then Ok (LexNumber (c # cs) loc)
      else if c = CHR ''@'' then LexImport c cs loc
      else case single_char_kind c of
             Some k \<Rightarrow> Ok (MakeSingleCharToken k c cs loc)
           | None \<Rightarrow>
               if c = CHR ''-'' then LexArrow c cs loc
               else if c = ch_quote then LexString c cs loc
               else Fail (at_location loc (''unexpected character '' @ quoted [c])))"

lemma SkipWhitespaceAndComments_le:
  "SkipWhitespaceAndComments cs loc = (rest, loc') \<Longrightarrow> length rest \<le> length cs"
proof (induction cs loc rule: SkipWhitespaceAndComments.induct)
  case (2 c cs loc)
  let ?comment = "c = CHR ''/'' \<and> cs \<noteq> [] \<and> hd cs = CHR ''/''"
  let ?scan = "scan (\<lambda>ch. ch \<noteq> ch_newline) (c # cs) loc"
  consider "c_isspace c" | "\<not> c_isspace c" "?comment" | "\<not> c_isspace c" "\<not> ?comment" by blast
  then show ?case
  proof cases
    case 1
    with 2 show ?thesis by simp
  next
    case 2
    obtain t r l where scan: "?scan = (t, r, l)" by (cases ?scan)
    then have "length r \<le> length (c # cs)"
      by (simp add: scan_eq length_dropWhile_le del: dropWhile.simps) (metis length_Cons length_dropWhile_le)
    moreover have "length rest \<le> length r"
      using "2.IH"(2) [OF 2 scan [symmetric] refl] "2.prems" 2 scan by simp
    ultimately show ?thesis by simp
  next
    case 3
    with "2.prems" show ?thesis by auto
  qed
qed simp

lemma string_loop_less:
  "string_loop cs loc = Some (t, rest, loc') \<Longrightarrow> length rest < length cs"
  by (induction cs loc arbitrary: t rest loc' rule: string_loop.induct)
     (fastforce simp: Let_def split: if_splits list.splits)+

lemma lex_token_less:
  assumes "lex_token c cs loc = Ok (tok, rest, loc')"
  shows "length rest < Suc (length cs)"
proof -
  have dw: "length (dropWhile P cs) < Suc (length cs)" for P
    by (simp add: le_imp_less_Suc length_dropWhile_le)
  from assms show ?thesis
    by (auto simp: lex_token_def LexIdentifier_def LexNumber_def LexImport_def LexArrow_def
        LexString_def MakeSingleCharToken_def scan_eq dw is_ident_start_def is_ident_char_def
        c_isalnum_def Let_def split: if_splits option.splits
        dest!: string_loop_less)
qed

function tokenize_loop :: "string \<Rightarrow> XerSourceLocation \<Rightarrow> (string, XerToken list) exec" where
  "tokenize_loop source loc =
     (case SkipWhitespaceAndComments source loc of
        ([], loc') \<Rightarrow> Ok [mk_token kEndOfFile [] loc' loc']
      | (c # cs, loc') \<Rightarrow>
          ebind (lex_token c cs loc') (\<lambda>(tok, rest, loc'').
          ebind (tokenize_loop rest loc'') (\<lambda>toks. Ok (tok # toks))))"
  by pat_completeness auto
termination
  by (relation "measure (\<lambda>(cs, loc). length cs)")
     (auto dest!: lex_token_less dest: SkipWhitespaceAndComments_le [OF sym])

declare tokenize_loop.simps [simp del]

definition Lexer_Tokenize :: "string \<Rightarrow> (string, XerToken list) exec" where
  "Lexer_Tokenize source = tokenize_loop source start_location"

text \<open>
  \<open>XerTokenzer::Tokenize\<close>: the tokens (none after an exception) and the text left in \<open>error_out\<close>.
\<close>

definition Tokenize :: "icu \<Rightarrow> string \<Rightarrow> XerToken list \<times> string" where
  "Tokenize icu source =
     (case NormalizeSource icu source '''' of
        (normalized, normalization_error) \<Rightarrow>
          (case Lexer_Tokenize normalized of
             Ok tokens \<Rightarrow> (tokens, normalization_error)
           | Fail what \<Rightarrow> ([], what)
           | _ \<Rightarrow> ([], '''')))"

section \<open>Positions\<close>

text \<open>
  A lexer operation consumes \<open>k\<close> characters: it leaves the rest of the text and the location that
  \<open>Advance\<close> computes over exactly those characters.
\<close>

definition consumes :: "string \<Rightarrow> XerSourceLocation \<Rightarrow> nat \<Rightarrow> string \<Rightarrow> XerSourceLocation \<Rightarrow> bool" where
  "consumes cs loc k rest loc' \<longleftrightarrow>
     k \<le> length cs \<and> rest = drop k cs \<and> loc' = fold advance_location (take k cs) loc"


lemma consumes_step: "consumes (c # cs) loc (Suc 0) cs (advance_location c loc)"
  by (simp add: consumes_def)


lemma consumes_Cons:
  "consumes cs (advance_location c loc) k rest loc' \<Longrightarrow> consumes (c # cs) loc (Suc k) rest loc'"
  by (auto simp: consumes_def)

lemma consumes_scan:
  "scan P cs loc = (t, rest, loc') \<Longrightarrow> consumes cs loc (length t) rest loc' \<and> t = take (length t) cs"
proof -
  assume "scan P cs loc = (t, rest, loc')"
  then have "t = takeWhile P cs" "rest = dropWhile P cs" "loc' = fold advance_location t loc"
    by (auto simp: scan_eq)
  moreover have "take (length (takeWhile P cs)) cs = takeWhile P cs"
    by (metis append_eq_conv_conj takeWhile_dropWhile_id)
  ultimately show ?thesis
    by (simp add: consumes_def dropWhile_eq_drop length_takeWhile_le)
qed

lemma consumes_string_loop:
  "string_loop cs loc = Some (t, rest, loc') \<Longrightarrow> \<exists>k. consumes cs loc k rest loc'"
proof (induction cs loc arbitrary: t rest loc' rule: string_loop.induct)
  case (2 ch cs loc)
  consider "ch = ch_quote" | "ch \<noteq> ch_quote" "ch = ch_backslash" "cs \<noteq> []"
    | "ch \<noteq> ch_quote" "ch \<noteq> ch_backslash \<or> cs = []" by blast
  then show ?case
  proof cases
    case 1
    with 2 show ?thesis by (auto intro: consumes_step)
  next
    case 2
    then obtain e cs' where "cs = e # cs'" by (cases cs) auto
    with 2 "2.IH"(1) "2.prems" show ?thesis
      by (fastforce intro: consumes_Cons)
  next
    case 3
    with "2.IH"(2) "2.prems" show ?thesis
      by (fastforce intro: consumes_Cons)
  qed
qed simp


text \<open>Where a token starts and ends, and that its text is the source between, literals apart.\<close>

definition token_covers :: "string \<Rightarrow> XerSourceLocation \<Rightarrow> nat \<Rightarrow> XerToken \<Rightarrow> bool" where
  "token_covers cs loc k tok \<longleftrightarrow>
     0 < k \<and> tok_kind tok \<noteq> kEndOfFile \<and> range_begin (tok_range tok) = loc \<and>
     range_end (tok_range tok) = fold advance_location (take k cs) loc \<and>
     (tok_kind tok \<noteq> kString \<longrightarrow> tok_text tok = take k cs)"

lemma mk_token_sel [simp]:
  "tok_kind (mk_token k t b e) = k" "tok_text (mk_token k t b e) = t"
  "range_begin (tok_range (mk_token k t b e)) = b" "range_end (tok_range (mk_token k t b e)) = e"
  by (simp_all add: mk_token_def)

lemma keyword_kind_not_eof [simp]: "keyword_kind t \<noteq> kEndOfFile"
  by (simp add: keyword_kind_def)

lemma single_char_kind_not_eof: "single_char_kind c = Some k \<Longrightarrow> k \<noteq> kEndOfFile \<and> k \<noteq> kString"
  by (auto simp: single_char_kind_def split: if_splits)

lemma token_covers_scan:
  assumes "scan P (c # cs) loc = (t, rest, loc')" "P c" "k \<noteq> kEndOfFile"
  shows "\<exists>n. consumes (c # cs) loc n rest loc' \<and> token_covers (c # cs) loc n (mk_token k t loc loc')"
proof (intro exI conjI)
  from assms(1,2) have "t \<noteq> []" by (auto simp: scan_eq)
  with consumes_scan [OF assms(1)] assms(3)
  show "consumes (c # cs) loc (length t) rest loc'"
    "token_covers (c # cs) loc (length t) (mk_token k t loc loc')"
    by (auto simp: token_covers_def consumes_def)
qed

lemma lex_token_covers:
  assumes "lex_token c cs loc = Ok (tok, rest, loc')"
  shows "\<exists>k. consumes (c # cs) loc k rest loc' \<and> token_covers (c # cs) loc k tok"
proof -
  consider (ident) "is_ident_start c" | (num) "\<not> is_ident_start c" "c_isdigit c"
    | (imp) "\<not> is_ident_start c" "\<not> c_isdigit c" "c = CHR ''@''"
    | (single) k where "\<not> is_ident_start c" "\<not> c_isdigit c" "c \<noteq> CHR ''@''" "single_char_kind c = Some k"
    | (arrow) "\<not> is_ident_start c" "\<not> c_isdigit c" "single_char_kind c = None" "c = CHR ''-''"
    | (str) "\<not> is_ident_start c" "\<not> c_isdigit c" "single_char_kind c = None" "c \<noteq> CHR ''-''"
        "c \<noteq> CHR ''@''" "c = ch_quote"
    using assms by (fastforce simp: lex_token_def split: if_splits option.splits)
  then show ?thesis
  proof cases
    case ident
    then have "is_ident_char c" by (auto simp: is_ident_start_def is_ident_char_def c_isalnum_def)
    with ident assms show ?thesis
      by (auto simp: lex_token_def LexIdentifier_def simp del: scan.simps split: prod.splits
          intro!: token_covers_scan)
  next
    case num
    with assms show ?thesis
      by (auto simp: lex_token_def LexNumber_def simp del: scan.simps split: prod.splits
          intro!: token_covers_scan)
  next
    case imp
    obtain kw r l where scan: "scan c_isalpha cs (advance_location c loc) = (kw, r, l)"
      by (cases "scan c_isalpha cs (advance_location c loc)")
    with imp assms have "kw = ''import''" "tok = mk_token kImport ''@import'' loc loc'" "rest = r" "loc' = l"
      by (auto simp: lex_token_def LexImport_def split: if_splits)
    moreover have "consumes (c # cs) loc (Suc (length kw)) r l" "take (Suc (length kw)) (c # cs) = c # kw"
      using consumes_scan [OF scan] by (auto intro: consumes_Cons)
    ultimately show ?thesis using imp
      by (intro exI [of _ "Suc (length kw)"]) (auto simp: token_covers_def consumes_def)
  next
    case single
    with assms show ?thesis
      by (intro exI [of _ 1])
         (auto simp: lex_token_def MakeSingleCharToken_def token_covers_def consumes_def
           dest: single_char_kind_not_eof)
  next
    case arrow
    with assms obtain cs' where "cs = CHR ''>'' # cs'"
      by (cases cs) (auto simp: lex_token_def LexArrow_def split: if_splits)
    with arrow assms show ?thesis
      by (intro exI [of _ 2])
         (auto simp: lex_token_def LexArrow_def token_covers_def consumes_def Let_def)
  next
    case str
    with assms obtain t where s: "string_loop cs (advance_location c loc) = Some (t, rest, loc')"
      and tok: "tok = mk_token kString t loc loc'"
      by (auto simp: lex_token_def LexString_def split: option.splits)
    from consumes_string_loop [OF s] obtain k where "consumes cs (advance_location c loc) k rest loc'"
      by blast
    then have "consumes (c # cs) loc (Suc k) rest loc'" by (rule consumes_Cons)
    with tok show ?thesis
      by (intro exI [of _ "Suc k"]) (auto simp: token_covers_def consumes_def)
  qed
qed

lemma tokenize_loop_eq_Ok:
  "tokenize_loop cs loc = Ok toks \<longleftrightarrow>
   (\<exists>loc'. SkipWhitespaceAndComments cs loc = ([], loc') \<and> toks = [mk_token kEndOfFile [] loc' loc']) \<or>
   (\<exists>c cs' loc' tok rest loc'' ts. SkipWhitespaceAndComments cs loc = (c # cs', loc') \<and>
      lex_token c cs' loc' = Ok (tok, rest, loc'') \<and> tokenize_loop rest loc'' = Ok ts \<and>
      toks = tok # ts)"
  by (subst tokenize_loop.simps) (fastforce split: list.splits prod.splits)

lemma tokenize_loop_Ok_induct [consumes 1, case_names eof tok]:
  assumes "tokenize_loop cs loc = Ok toks"
    and eof: "\<And>cs loc loc'. SkipWhitespaceAndComments cs loc = ([], loc') \<Longrightarrow>
      P cs loc [mk_token kEndOfFile [] loc' loc']"
    and tok: "\<And>cs loc c cs' loc' tok rest loc'' ts.
      SkipWhitespaceAndComments cs loc = (c # cs', loc') \<Longrightarrow>
      lex_token c cs' loc' = Ok (tok, rest, loc'') \<Longrightarrow> tokenize_loop rest loc'' = Ok ts \<Longrightarrow>
      P rest loc'' ts \<Longrightarrow> P cs loc (tok # ts)"
  shows "P cs loc toks"
  using assms(1)
proof (induction cs loc arbitrary: toks rule: tokenize_loop.induct)
  case (1 cs loc)
  from "1.prems" consider l where "SkipWhitespaceAndComments cs loc = ([], l)"
      "toks = [mk_token kEndOfFile [] l l]"
    | c cs' loc' tok rest loc'' ts where "SkipWhitespaceAndComments cs loc = (c # cs', loc')"
      "lex_token c cs' loc' = Ok (tok, rest, loc'')" "tokenize_loop rest loc'' = Ok ts" "toks = tok # ts"
    by (auto simp: tokenize_loop_eq_Ok [of cs])
  then show ?case
  proof cases
    case 1
    with eof show ?thesis by simp
  next
    case 2
    from "1.IH" [OF 2(1) [symmetric] refl 2(2) refl refl 2(3)] 2 show ?thesis
      by (auto intro: tok)
  qed
qed

lemma tokenize_loop_ends:
  "tokenize_loop cs loc = Ok toks \<Longrightarrow>
   \<exists>ts e. toks = ts @ [e] \<and> tok_kind e = kEndOfFile \<and> (\<forall>t\<in>set ts. tok_kind t \<noteq> kEndOfFile)"
proof (induction rule: tokenize_loop_Ok_induct)
  case (eof cs loc loc')
  show ?case by (intro exI [of _ "[]"]) auto
next
  case (tok cs loc c cs' loc' tok rest loc'' ts)
  then obtain us e where "ts = us @ [e]" "tok_kind e = kEndOfFile"
    "\<forall>t\<in>set us. tok_kind t \<noteq> kEndOfFile" by auto
  with lex_token_covers [OF tok(2)] show ?case
    by (intro exI [of _ "tok # us"] exI [of _ e]) (auto simp: token_covers_def)
qed





lemma lex_token_returns: "returns (lex_token c cs loc)"
proof -
  have "returns (LexImport c cs loc)" for c
    by (simp add: LexImport_def split: prod.split)
  moreover have "returns (LexArrow c cs loc)" for c
    by (simp add: LexArrow_def Let_def)
  moreover have "returns (LexString c cs loc)" for c
    by (simp add: LexString_def split: option.split prod.split)
  ultimately show ?thesis by (simp add: lex_token_def split: option.split)
qed

lemma tokenize_loop_returns: "returns (tokenize_loop cs loc)"
proof (induction cs loc rule: tokenize_loop.induct)
  case (1 cs loc)
  obtain r loc' where skip: "SkipWhitespaceAndComments cs loc = (r, loc')"
    by (cases "SkipWhitespaceAndComments cs loc")
  show ?case
  proof (cases r)
    case Nil
    with skip show ?thesis by (simp add: tokenize_loop.simps [of cs])
  next
    case (Cons c cs')
    have "returns (tokenize_loop rest loc'')" if "lex_token c cs' loc' = Ok (tok, rest, loc'')"
      for tok rest loc''
      using 1 [OF skip [symmetric] Cons that refl refl] .
    with skip Cons lex_token_returns [of c cs' loc'] show ?thesis
      by (subst tokenize_loop.simps) (auto intro!: returns_ebind split: prod.splits)
  qed
qed

section \<open>Contract and properties\<close>

text \<open>
  What the users of a token vector rely on: it is never empty, its last token and only that one is
  the end-of-file token.
\<close>

locale token_source =
  fixes tokenize :: "string \<Rightarrow> (string, 't list) exec"
    and is_eof :: "'t \<Rightarrow> bool"
  assumes ends_with_eof: "tokenize source = Ok toks \<Longrightarrow>
      \<exists>ts e. toks = ts @ [e] \<and> is_eof e \<and> (\<forall>t\<in>set ts. \<not> is_eof t)"
    and tokenize_returns: "returns (tokenize source)"
begin

lemma nonempty: "tokenize source = Ok toks \<Longrightarrow> toks \<noteq> []"
  using ends_with_eof by blast

lemma eof_iff_last:
  "tokenize source = Ok toks \<Longrightarrow> i < length toks \<Longrightarrow> is_eof (toks ! i) \<longleftrightarrow> i = length toks - 1"
  using ends_with_eof [of source toks] by (fastforce simp: nth_append less_Suc_eq)

text \<open>A token that is not the last one has a successor: reading one token ahead stays in bounds.\<close>

lemma successor_in_bounds:
  "tokenize source = Ok toks \<Longrightarrow> i < length toks \<Longrightarrow> \<not> is_eof (toks ! i) \<Longrightarrow> Suc i < length toks"
  using eof_iff_last [of source toks i] by auto

end

interpretation xt: token_source Lexer_Tokenize "\<lambda>t. tok_kind t = kEndOfFile"
proof unfold_locales
  show "Lexer_Tokenize source = Ok toks \<Longrightarrow> \<exists>ts e. toks = ts @ [e] \<and> tok_kind e = kEndOfFile \<and>
      (\<forall>t\<in>set ts. tok_kind t \<noteq> kEndOfFile)" for source toks
    unfolding Lexer_Tokenize_def by (rule tokenize_loop_ends)
  show "returns (Lexer_Tokenize source)" for source
    unfolding Lexer_Tokenize_def by (rule tokenize_loop_returns)
qed



text \<open>
  C40. \<open>XerTokenzer::Tokenize\<close> on every input: either a token vector that ends with the only
  end-of-file token in it, or no tokens.
\<close>

theorem Tokenize_ends_with_eof:
  "fst (Tokenize icu source) = [] \<or>
   (\<exists>ts e. fst (Tokenize icu source) = ts @ [e] \<and> tok_kind e = kEndOfFile \<and>
      list_all (\<lambda>t. tok_kind t \<noteq> kEndOfFile) ts)"
proof -
  obtain normalized err where n: "NormalizeSource icu source '''' = (normalized, err)" by force
  from xt.tokenize_returns [of normalized] show ?thesis
    using n xt.ends_with_eof [of normalized] by (cases rule: returns_cases) (auto simp: Tokenize_def list_all_iff)
qed

end
