(* ===== verification/XerScriptLexer.thy ===== *)
theory XerScriptLexer
  imports XerTokenzer
begin

text \<open>
  The lexer of the script interpreter (class \<open>Lexer\<close> of \<^verbatim>\<open>src/src/xer/xer_script.cc\<close>). It is a second
  lexer for the same language: its tokens carry only the begin location, and its string literals
  are stricter (a line break, an unknown escape and a trailing backslash are errors). As in
  theory \<open>XerTokenzer\<close> the state of the lexer is the unread text and the location. The enumeration
  \<open>TokenKind\<close> and the struct \<open>SourceLocation\<close> of this file have the members of \<open>XerTokenKind\<close> and
  \<open>XerSourceLocation\<close>.
\<close>

section \<open>Definitions\<close>

type_synonym SourceLocation = XerSourceLocation
type_synonym TokenKind = XerTokenKind

record Token =
  t_kind :: TokenKind
  t_text :: string
  t_loc :: SourceLocation

definition mk_tok :: "TokenKind \<Rightarrow> string \<Rightarrow> SourceLocation \<Rightarrow> Token" where
  "mk_tok k t l = \<lparr>t_kind = k, t_text = t, t_loc = l\<rparr>"

text \<open>\<open>ParserError\<close> and \<open>RuntimeError\<close>: the \<open>what()\<close> text of an error at a location.\<close>

definition ParserError :: "SourceLocation \<Rightarrow> string \<Rightarrow> string" where
  "ParserError location message =
     show_nat (line location) @ '':'' @ show_nat (column location) @ '': '' @ message"

text \<open>\<open>Advance\<close>: the character read, the text after it and the location after it.\<close>

definition Script_Advance :: "char \<Rightarrow> SourceLocation \<Rightarrow> SourceLocation" where
  "Script_Advance ch loc =
     (if ch = ch_newline then \<lparr>line = line loc + 1, column = 1\<rparr>
      else loc\<lparr>column := column loc + 1\<rparr>)"

text \<open>A loop \<open>while (!AtEnd() && P(Peek())) text.push_back(Advance())\<close>.\<close>

fun script_scan :: "(char \<Rightarrow> bool) \<Rightarrow> string \<Rightarrow> SourceLocation \<Rightarrow> string \<times> string \<times> SourceLocation"
  where
  "script_scan P [] loc = ([], [], loc)"
| "script_scan P (c # cs) loc =
     (if P c
      then (case script_scan P cs (Script_Advance c loc) of (t, rest, loc') \<Rightarrow> (c # t, rest, loc'))
      else ([], c # cs, loc))"

lemma Script_Advance_eq [simp]: "Script_Advance = advance_location"
  by (intro ext) (simp add: Script_Advance_def advance_location_def)

lemma script_scan_eq [simp]: "script_scan P cs loc = scan P cs loc"
  by (induction cs arbitrary: loc) auto

function Script_Skip :: "string \<Rightarrow> SourceLocation \<Rightarrow> string \<times> SourceLocation" where
  "Script_Skip [] loc = ([], loc)"
| "Script_Skip (c # cs) loc =
     (if c_isspace c then Script_Skip cs (Script_Advance c loc)
      else if c = CHR ''/'' \<and> cs \<noteq> [] \<and> hd cs = CHR ''/''
      then (case script_scan (\<lambda>ch. ch \<noteq> ch_newline) (c # cs) loc of
              (comment, rest, loc') \<Rightarrow> Script_Skip rest loc')
      else (c # cs, loc))"
  by pat_completeness auto
termination
  by (relation "measure (\<lambda>(cs, loc). length cs)")
     (auto simp: scan_eq ch_newline_def le_imp_less_Suc length_dropWhile_le)

type_synonym script_lexed = "Token \<times> string \<times> SourceLocation"

definition Script_LexIdentifierOrKeyword :: "string \<Rightarrow> SourceLocation \<Rightarrow> script_lexed" where
  "Script_LexIdentifierOrKeyword cs loc =
     (case script_scan (\<lambda>ch. c_isalnum ch \<or> ch = CHR ''_'') cs loc of (t, rest, loc') \<Rightarrow>
        (if t = ''as'' then mk_tok kAs t loc
         else if t = ''async'' then mk_tok kAsync t loc
         else if t = ''local'' then mk_tok kLocal t loc
         else if t = ''then'' then mk_tok kThen t loc
         else if t = ''end'' then mk_tok kEnd t loc
         else mk_tok kIdentifier t loc, rest, loc'))"

definition Script_LexNumber :: "string \<Rightarrow> SourceLocation \<Rightarrow> script_lexed" where
  "Script_LexNumber cs loc =
     (case script_scan c_isdigit cs loc of (t, rest, loc') \<Rightarrow> (mk_tok kNumber t loc, rest, loc'))"

text \<open>The remaining operations are entered with \<open>c\<close> as the next character and \<open>cs\<close> after it.\<close>

definition Script_MakeSingleCharToken :: "TokenKind \<Rightarrow> char \<Rightarrow> string \<Rightarrow> SourceLocation \<Rightarrow> script_lexed"
  where
  "Script_MakeSingleCharToken k c cs loc = (mk_tok k [c] loc, cs, Script_Advance c loc)"

definition Script_LexImportKeyword ::
  "char \<Rightarrow> string \<Rightarrow> SourceLocation \<Rightarrow> (string, script_lexed) exec" where
  "Script_LexImportKeyword c cs loc =
     (case script_scan c_isalpha cs (Script_Advance c loc) of (keyword, rest, loc') \<Rightarrow>
        if keyword \<noteq> ''import''
        then Fail (ParserError loc (''unknown directive '' @ quoted (''@'' @ keyword)))
        else Ok (mk_tok kImport ''@import'' loc, rest, loc'))"

definition Script_LexArrow :: "char \<Rightarrow> string \<Rightarrow> SourceLocation \<Rightarrow> (string, script_lexed) exec" where
  "Script_LexArrow c cs loc =
     (if cs = [] \<or> hd cs \<noteq> CHR ''>'' then Fail (ParserError loc (''expected '' @ quoted ''->''))
      else Ok (mk_tok kArrow ''->'' loc, tl cs, Script_Advance (hd cs) (Script_Advance c loc)))"

definition script_escape :: "char \<Rightarrow> char option" where
  "script_escape escaped =
     (if escaped = CHR ''n'' then Some ch_newline
      else if escaped = CHR ''r'' then Some ch_return
      else if escaped = CHR ''t'' then Some ch_tab
      else if escaped = ch_quote then Some ch_quote
      else if escaped = ch_backslash then Some ch_backslash
      else None)"

text \<open>The loop of \<open>LexString\<close>; \<open>loc0\<close> is the location of the opening quote.\<close>

fun script_string_loop ::
  "SourceLocation \<Rightarrow> string \<Rightarrow> SourceLocation \<Rightarrow> (string, string \<times> string \<times> SourceLocation) exec" where
  "script_string_loop loc0 [] loc = Fail (ParserError loc0 ''unterminated string literal'')"
| "script_string_loop loc0 (ch # cs) loc =
     (let loc1 = Script_Advance ch loc in
      if ch = ch_quote then Ok ([], cs, loc1)
      else if ch = ch_backslash
      then (case cs of
              [] \<Rightarrow> Fail (ParserError loc0 ''unterminated escape sequence'')
            | escaped # cs' \<Rightarrow>
                (case script_escape escaped of
                   None \<Rightarrow> Fail (ParserError loc0
                     (''unsupported escape '' @ quoted [ch_backslash, escaped]))
                 | Some x \<Rightarrow>
                     ebind (script_string_loop loc0 cs' (Script_Advance escaped loc1))
                       (\<lambda>(t, r). Ok (x # t, r))))
      else if ch = ch_newline then Fail (ParserError loc0 ''unterminated string literal'')
      else ebind (script_string_loop loc0 cs loc1) (\<lambda>(t, r). Ok (ch # t, r)))"

definition Script_LexString :: "char \<Rightarrow> string \<Rightarrow> SourceLocation \<Rightarrow> (string, script_lexed) exec" where
  "Script_LexString c cs loc =
     ebind (script_string_loop loc cs (Script_Advance c loc)) (\<lambda>(t, rest, loc').
       Ok (mk_tok kString t loc, rest, loc'))"

text \<open>The body of the loop of \<open>Tokenize\<close> at a character that is neither blank nor a comment.\<close>

definition script_lex_token :: "char \<Rightarrow> string \<Rightarrow> SourceLocation \<Rightarrow> (string, script_lexed) exec" where
  "script_lex_token c cs loc =
     (if c_isalpha c \<or> c = CHR ''_'' then Ok (Script_LexIdentifierOrKeyword (c # cs) loc)
      else if c_isdigit c then Ok (Script_LexNumber (c # cs) loc)
      else if c = CHR ''@'' then Script_LexImportKeyword c cs loc
      else if c = CHR ''('' then Ok (Script_MakeSingleCharToken kLParen c cs loc)
      else if c = CHR '')'' then Ok (Script_MakeSingleCharToken kRParen c cs loc)
      else if c = CHR ''{'' then Ok (Script_MakeSingleCharToken kLBrace c cs loc)
      else if c = CHR ''}'' then Ok (Script_MakeSingleCharToken kRBrace c cs loc)
      else if c = CHR '','' then Ok (Script_MakeSingleCharToken kComma c cs loc)
      else if c = CHR '':'' then Ok (Script_MakeSingleCharToken kColon c cs loc)
      else if c = CHR '';'' then Ok (Script_MakeSingleCharToken kSemicolon c cs loc)
      else if c = CHR ''='' then Ok (Script_MakeSingleCharToken kEqual c cs loc)
      else if c = CHR ''-'' then Script_LexArrow c cs loc
      else if c = ch_quote then Script_LexString c cs loc
      else Fail (ParserError loc (''unexpected character '' @ quoted [c])))"

lemma Script_Skip_eq: "Script_Skip cs loc = SkipWhitespaceAndComments cs loc"
proof (induction cs loc rule: SkipWhitespaceAndComments.induct)
  case (2 c cs loc)
  then show ?case by (auto simp del: scan.simps split: prod.splits)
qed simp

lemma script_escape_unescape: "script_escape c = Some x \<Longrightarrow> x = unescape c"
  by (auto simp: script_escape_def unescape_def split: if_splits)

text \<open>A literal the strict lexer reads is read by the lenient one with the same result.\<close>

lemma script_string_loop_Ok:
  "script_string_loop loc0 cs loc = Ok (t, rest, loc') \<Longrightarrow>
   string_loop cs loc = Some (t, rest, loc')"
proof (induction loc0 cs loc arbitrary: t rest loc' rule: script_string_loop.induct)
  case (2 loc0 ch cs loc)
  consider "ch = ch_quote" | "ch \<noteq> ch_quote" "ch = ch_backslash"
    | "ch \<noteq> ch_quote" "ch \<noteq> ch_backslash" by blast
  then show ?case
  proof cases
    case 1
    with "2.prems" show ?thesis by auto
  next
    case 2
    then obtain e cs' x t' where "cs = e # cs'" "script_escape e = Some x" "t = x # t'"
      "script_string_loop loc0 cs' (advance_location e (advance_location ch loc)) = Ok (t', rest, loc')"
      using "2.prems" by (auto simp: Let_def split: list.splits option.splits if_splits)
    with 2 "2.IH"(1) [OF refl 2 \<open>cs = e # cs'\<close>] script_escape_unescape [of e x] show ?thesis
      by auto
  next
    case 3
    then obtain t' where "ch \<noteq> ch_newline" "t = ch # t'"
      "script_string_loop loc0 cs (advance_location ch loc) = Ok (t', rest, loc')"
      using "2.prems" by (auto simp: Let_def split: if_splits)
    with 3 "2.IH"(2) [OF refl] show ?thesis by auto
  qed
qed simp

lemma script_lex_token_sim:
  assumes "script_lex_token c cs loc = Ok (tok, rest, loc')"
  shows "\<exists>xt. lex_token c cs loc = Ok (xt, rest, loc') \<and>
    tok = mk_tok (tok_kind xt) (tok_text xt) (range_begin (tok_range xt))"
proof -
  have i: "is_ident_char = (\<lambda>ch. c_isalnum ch \<or> ch = CHR ''_'')"
    by (intro ext) (simp add: is_ident_char_def)
  consider (ident) "is_ident_start c" | (num) "\<not> is_ident_start c" "c_isdigit c"
    | (imp) "\<not> is_ident_start c" "\<not> c_isdigit c" "c = CHR ''@''"
    | (arrow) "\<not> is_ident_start c" "\<not> c_isdigit c" "c = CHR ''-''"
    | (str) "\<not> is_ident_start c" "\<not> c_isdigit c" "c = ch_quote"
    | (other) "\<not> is_ident_start c" "\<not> c_isdigit c" "c \<noteq> CHR ''@''" "c \<noteq> CHR ''-''" "c \<noteq> ch_quote"
    by blast
  then show ?thesis
  proof cases
    case ident
    with assms show ?thesis
      by (auto simp: script_lex_token_def lex_token_def is_ident_start_def LexIdentifier_def i
          Script_LexIdentifierOrKeyword_def keyword_kind_def simp del: scan.simps
          split: prod.splits if_splits)
  next
    case num
    with assms show ?thesis
      by (auto simp: script_lex_token_def lex_token_def is_ident_start_def LexNumber_def
          Script_LexNumber_def simp del: scan.simps split: prod.splits if_splits)
  next
    case imp
    with assms show ?thesis
      by (auto simp: script_lex_token_def lex_token_def is_ident_start_def LexImport_def
          Script_LexImportKeyword_def split: prod.splits if_splits)
  next
    case arrow
    with assms show ?thesis
      by (auto simp: script_lex_token_def lex_token_def is_ident_start_def LexArrow_def
          Script_LexArrow_def single_char_kind_def Let_def split: if_splits)
  next
    case str
    with assms show ?thesis
      by (auto simp: script_lex_token_def lex_token_def is_ident_start_def LexString_def ch_quote_def
          Script_LexString_def single_char_kind_def split: if_splits dest!: script_string_loop_Ok)
  next
    case other
    with assms show ?thesis
      by (auto simp: script_lex_token_def lex_token_def is_ident_start_def single_char_kind_def
          Script_MakeSingleCharToken_def MakeSingleCharToken_def split: if_splits)
  qed
qed

function script_tokenize_loop :: "string \<Rightarrow> SourceLocation \<Rightarrow> (string, Token list) exec" where
  "script_tokenize_loop source loc =
     (case Script_Skip source loc of
        ([], loc') \<Rightarrow> Ok [mk_tok kEndOfFile [] loc']
      | (c # cs, loc') \<Rightarrow>
          ebind (script_lex_token c cs loc') (\<lambda>(tok, rest, loc'').
          ebind (script_tokenize_loop rest loc'') (\<lambda>toks. Ok (tok # toks))))"
  by pat_completeness auto
termination
  by (relation "measure (\<lambda>(cs, loc). length cs)")
     (auto simp: Script_Skip_eq dest!: script_lex_token_sim lex_token_less
       dest: SkipWhitespaceAndComments_le [OF sym])

declare script_tokenize_loop.simps [simp del]

definition Script_Tokenize :: "string \<Rightarrow> (string, Token list) exec" where
  "Script_Tokenize source = script_tokenize_loop source start_location"

section \<open>Agreement of the two lexers\<close>

text \<open>What of a token of \<open>XerTokenzer\<close> the script lexer keeps.\<close>

definition erase_range :: "XerToken \<Rightarrow> Token" where
  "erase_range xt = mk_tok (tok_kind xt) (tok_text xt) (range_begin (tok_range xt))"

lemma mk_tok_sel [simp]:
  "t_kind (mk_tok k t l) = k" "t_text (mk_tok k t l) = t" "t_loc (mk_tok k t l) = l"
  by (simp_all add: mk_tok_def)

lemma erase_range_sel [simp]:
  "t_kind (erase_range x) = tok_kind x" "t_text (erase_range x) = tok_text x"
  "t_loc (erase_range x) = range_begin (tok_range x)"
  by (simp_all add: erase_range_def)

lemma script_tokenize_loop_eq_Ok:
  "script_tokenize_loop cs loc = Ok toks \<longleftrightarrow>
   (\<exists>loc'. SkipWhitespaceAndComments cs loc = ([], loc') \<and> toks = [mk_tok kEndOfFile [] loc']) \<or>
   (\<exists>c cs' loc' tok rest loc'' ts. SkipWhitespaceAndComments cs loc = (c # cs', loc') \<and>
      script_lex_token c cs' loc' = Ok (tok, rest, loc'') \<and>
      script_tokenize_loop rest loc'' = Ok ts \<and> toks = tok # ts)"
  by (subst script_tokenize_loop.simps) (fastforce simp: Script_Skip_eq split: list.splits prod.splits)

lemma script_tokenize_loop_sim:
  "script_tokenize_loop cs loc = Ok toks \<Longrightarrow>
   \<exists>xts. tokenize_loop cs loc = Ok xts \<and> toks = map erase_range xts"
proof (induction cs loc arbitrary: toks rule: script_tokenize_loop.induct)
  case (1 cs loc)
  from "1.prems" consider l where "SkipWhitespaceAndComments cs loc = ([], l)"
      "toks = [mk_tok kEndOfFile [] l]"
    | c cs' loc' tok rest loc'' ts where "SkipWhitespaceAndComments cs loc = (c # cs', loc')"
      "script_lex_token c cs' loc' = Ok (tok, rest, loc'')" "script_tokenize_loop rest loc'' = Ok ts"
      "toks = tok # ts"
    by (auto simp: script_tokenize_loop_eq_Ok [of cs])
  then show ?case
  proof cases
    case 1
    then show ?thesis by (auto simp: tokenize_loop_eq_Ok [of cs] erase_range_def)
  next
    case 2
    have "(c # cs', loc') = Script_Skip cs loc" using 2(1) by (simp add: Script_Skip_eq)
    from "1.IH" [OF this refl 2(2) refl refl 2(3)]
    obtain xts where xts: "tokenize_loop rest loc'' = Ok xts" "ts = map erase_range xts" by blast
    from script_lex_token_sim [OF 2(2)] obtain xt where xt: "lex_token c cs' loc' = Ok (xt, rest, loc'')"
      "tok = erase_range xt" by (auto simp: erase_range_def)
    have "tokenize_loop cs loc = Ok (xt # xts)"
      unfolding tokenize_loop_eq_Ok [of cs] using 2(1) xt(1) xts(1) by blast
    with 2(4) xt(2) xts(2) show ?thesis by auto
  qed
qed

lemma script_string_loop_returns: "returns (script_string_loop loc0 cs loc)"
proof (induction loc0 cs loc rule: script_string_loop.induct)
  case (2 loc0 ch cs loc)
  consider "ch = ch_quote" | "ch \<noteq> ch_quote" "ch = ch_backslash"
    | "ch \<noteq> ch_quote" "ch \<noteq> ch_backslash" by blast
  then show ?case
  proof cases
    case 2
    have "returns (script_string_loop loc0 cs' (Script_Advance e (Script_Advance ch loc)))"
      if "cs = e # cs'" "script_escape e = Some x" for e cs' x
      using "2.IH"(1) [OF refl 2 that] .
    with 2 show ?thesis
      by (cases cs) (auto simp: Let_def intro!: returns_ebind split: option.splits)
  next
    case 3
    with "2.IH"(2) [OF refl] show ?thesis by (auto simp: Let_def)
  qed simp
qed simp

lemma script_lex_token_returns: "returns (script_lex_token c cs loc)"
proof -
  have "returns (Script_LexImportKeyword c cs loc)" for c
    by (simp add: Script_LexImportKeyword_def split: prod.split)
  moreover have "returns (Script_LexArrow c cs loc)" for c
    by (simp add: Script_LexArrow_def)
  moreover have "returns (Script_LexString c cs loc)" for c
    by (auto simp: Script_LexString_def script_string_loop_returns)
  ultimately show ?thesis by (simp add: script_lex_token_def)
qed

lemma script_tokenize_loop_returns: "returns (script_tokenize_loop cs loc)"
proof (induction cs loc rule: script_tokenize_loop.induct)
  case (1 cs loc)
  obtain r loc' where skip: "Script_Skip cs loc = (r, loc')" by (cases "Script_Skip cs loc")
  show ?case
  proof (cases r)
    case Nil
    with skip show ?thesis by (simp add: script_tokenize_loop.simps [of cs])
  next
    case (Cons c cs')
    have "returns (script_tokenize_loop rest loc'')"
      if "script_lex_token c cs' loc' = Ok (tok, rest, loc'')" for tok rest loc''
      using 1 [OF skip [symmetric] Cons that refl refl] .
    with skip Cons script_lex_token_returns [of c cs' loc'] show ?thesis
      by (subst script_tokenize_loop.simps) (auto intro!: returns_ebind split: prod.splits)
  qed
qed

interpretation sl: token_source Script_Tokenize "\<lambda>t. t_kind t = kEndOfFile"
proof unfold_locales
  show "\<exists>ts e. toks = ts @ [e] \<and> t_kind e = kEndOfFile \<and> (\<forall>t\<in>set ts. t_kind t \<noteq> kEndOfFile)"
    if "Script_Tokenize source = Ok toks" for source toks
  proof -
    from that obtain xts where "tokenize_loop source start_location = Ok xts"
      "toks = map erase_range xts"
      unfolding Script_Tokenize_def by (blast dest: script_tokenize_loop_sim)
    with tokenize_loop_ends show ?thesis by fastforce
  qed
  show "returns (Script_Tokenize source)" for source
    unfolding Script_Tokenize_def by (rule script_tokenize_loop_returns)
qed

text \<open>
  C30. The two lexers agree: whenever the strict lexer of the interpreter accepts a text, the
  lexer of the compiler accepts it too and yields the same kinds, texts and begin locations.
\<close>

theorem Script_Tokenize_agrees:
  assumes "Script_Tokenize source = Ok toks"
  shows "\<exists>xts. Lexer_Tokenize source = Ok xts \<and> toks = map erase_range xts"
  using assms unfolding Script_Tokenize_def Lexer_Tokenize_def by (rule script_tokenize_loop_sim)

theorem Script_Tokenize_agrees_witness:
  "\<exists>xts. Lexer_Tokenize ''f() -> // x'' = Ok xts \<and>
     map tok_kind xts = [kIdentifier, kLParen, kRParen, kArrow, kEndOfFile]"
proof -
  have "Script_Tokenize ''f() -> // x'' =
    Ok [mk_tok kIdentifier ''f'' \<lparr>line = 1, column = 1\<rparr>, mk_tok kLParen ''('' \<lparr>line = 1, column = 2\<rparr>,
        mk_tok kRParen '')'' \<lparr>line = 1, column = 3\<rparr>, mk_tok kArrow ''->'' \<lparr>line = 1, column = 5\<rparr>,
        mk_tok kEndOfFile [] \<lparr>line = 1, column = 12\<rparr>]"
    (is "_ = Ok ?toks")
    by code_simp
  from Script_Tokenize_agrees [OF this] obtain xts
    where x: "Lexer_Tokenize ''f() -> // x'' = Ok xts \<and> ?toks = map erase_range xts" ..
  note e = x [THEN conjunct2]
  have "map tok_kind xts = map t_kind (map erase_range xts)" by simp
  also have "\<dots> = map t_kind ?toks" by (simp only: e)
  finally have "map tok_kind xts = [kIdentifier, kLParen, kRParen, kArrow, kEndOfFile]"
    by simp
  with x [THEN conjunct1] show ?thesis by (intro exI conjI)
qed

section \<open>Printing tokens and reading them back\<close>

type_synonym lexeme = "TokenKind \<times> string"

definition lexeme_of :: "Token \<Rightarrow> lexeme" where
  "lexeme_of tok = (t_kind tok, t_text tok)"

definition escape_char :: "char \<Rightarrow> string" where
  "escape_char c =
     (if c = ch_quote then [ch_backslash, ch_quote]
      else if c = ch_backslash then [ch_backslash, ch_backslash]
      else if c = ch_newline then [ch_backslash, CHR ''n'']
      else [c])"

definition string_literal :: "string \<Rightarrow> string" where
  "string_literal s = ch_quote # concat (map escape_char s) @ [ch_quote]"

definition render_lexeme :: "lexeme \<Rightarrow> string" where
  "render_lexeme x = (if fst x = kString then string_literal (snd x) else snd x)"

definition render :: "lexeme list \<Rightarrow> string" where
  "render xs = concat (map (\<lambda>x. render_lexeme x @ '' '') xs)"

definition wf_ident :: "string \<Rightarrow> bool" where
  "wf_ident t \<longleftrightarrow> t \<noteq> [] \<and> is_ident_start (hd t) \<and> list_all is_ident_char t"

text \<open>The lexemes the language has.\<close>

fun wf_lexeme :: "lexeme \<Rightarrow> bool" where
  "wf_lexeme (kEndOfFile, t) = False"
| "wf_lexeme (kNumber, t) = (t \<noteq> [] \<and> list_all c_isdigit t)"
| "wf_lexeme (kString, t) = True"
| "wf_lexeme (kImport, t) = (t = ''@import'')"
| "wf_lexeme (kArrow, t) = (t = ''->'')"
| "wf_lexeme (k, t) = (wf_ident t \<and> keyword_kind t = k \<or>
     (\<exists>c. t = [c] \<and> single_char_kind c = Some k))"

lemma scan_exact: "list_all P t \<Longrightarrow> \<not> P c \<Longrightarrow>
    scan P (t @ c # cs) loc = (t, c # cs, fold advance_location t loc)"
  by (induction t arbitrary: loc) auto

lemma script_escape_simps [simp]:
  "script_escape ch_quote = Some ch_quote" "script_escape ch_backslash = Some ch_backslash"
  "script_escape (CHR ''n'') = Some ch_newline"
  by (simp_all add: script_escape_def ch_defs)

lemma ch_distinct [simp]: "ch_backslash \<noteq> ch_quote" "ch_newline \<noteq> ch_quote" "ch_newline \<noteq> ch_backslash"
  by (simp_all add: ch_defs)

lemma script_string_loop_escaped:
  "\<exists>l. script_string_loop loc0 (escape_char c @ cs) loc =
     ebind (script_string_loop loc0 cs l) (\<lambda>(t, r). Ok (c # t, r))"
proof -
  consider "c = ch_quote" | "c = ch_backslash" | "c = ch_newline"
    | "c \<noteq> ch_quote" "c \<noteq> ch_backslash" "c \<noteq> ch_newline" by blast
  then show ?thesis by cases (auto simp: escape_char_def Let_def)
qed

lemma script_string_loop_literal:
  "\<exists>loc'. script_string_loop loc0 (concat (map escape_char t) @ ch_quote # cs) loc = Ok (t, cs, loc')"
proof (induction t arbitrary: loc)
  case (Cons c t)
  have ih: "\<exists>loc'. script_string_loop loc0 (concat (map escape_char t) @ ch_quote # cs) l = Ok (t, cs, loc')"
    for l using Cons .
  from script_string_loop_escaped [of loc0 c "concat (map escape_char t) @ ch_quote # cs" loc]
  obtain l where "script_string_loop loc0 (escape_char c @ concat (map escape_char t) @ ch_quote # cs) loc =
    ebind (script_string_loop loc0 (concat (map escape_char t) @ ch_quote # cs) l) (\<lambda>(t, r). Ok (c # t, r))" ..
  with ih [of l] show ?case by auto
qed (simp add: Let_def)

lemma ident_char_space [simp]: "\<not> (c_isalnum (CHR '' '') \<or> CHR '' '' = CHR ''_'')" "\<not> c_isdigit (CHR '' '')"
  "\<not> c_isalpha (CHR '' '')" "c_isspace (CHR '' '')"
  by (simp_all add: cctype_defs)

lemma LexIdentifierOrKeyword_eq:
  "Script_LexIdentifierOrKeyword cs loc =
     (case scan (\<lambda>ch. c_isalnum ch \<or> ch = CHR ''_'') cs loc of (t, rest, loc') \<Rightarrow>
        (mk_tok (keyword_kind t) t loc, rest, loc'))"
  by (simp add: Script_LexIdentifierOrKeyword_def keyword_kind_def split: prod.split)

lemma script_lex_ident:
  assumes "wf_ident (c # t)" "keyword_kind (c # t) = k"
  shows "\<exists>loc'. script_lex_token c (t @ CHR '' '' # cs) loc = Ok (mk_tok k (c # t) loc, CHR '' '' # cs, loc')"
proof -
  let ?P = "\<lambda>ch. c_isalnum ch \<or> ch = CHR ''_''"
  have "list_all ?P (c # t)" using assms(1) by (simp add: wf_ident_def is_ident_char_def list_all_iff)
  from scan_exact [OF this ident_char_space(1), of cs loc] assms show ?thesis
    by (simp add: script_lex_token_def wf_ident_def is_ident_start_def LexIdentifierOrKeyword_eq
        del: scan.simps)
qed

lemma script_lex_digits:
  assumes "list_all c_isdigit (c # t)"
  shows "\<exists>loc'. script_lex_token c (t @ CHR '' '' # cs) loc = Ok (mk_tok kNumber (c # t) loc, CHR '' '' # cs, loc')"
proof -
  have "\<not> (c_isalpha c \<or> c = CHR ''_'')" using assms by (auto simp: cctype_defs)
  with assms scan_exact [OF assms ident_char_space(2), of cs loc] show ?thesis
    by (simp add: script_lex_token_def Script_LexNumber_def del: scan.simps)
qed

lemma single_char_kind_char:
  assumes "single_char_kind c = Some k"
  shows "c \<in> set ''(){},:;=''" "\<not> (c_isalpha c \<or> c = CHR ''_'')" "\<not> c_isdigit c" "\<not> c_isspace c"
    "script_lex_token c cs loc = Ok (mk_tok k [c] loc, cs, advance_location c loc)"
  using assms by (auto simp: single_char_kind_def cctype_defs script_lex_token_def
      Script_MakeSingleCharToken_def ch_quote_def split: if_splits)

lemma script_lex_special:
  "script_lex_token (CHR ''@'') (''import'' @ CHR '' '' # cs) loc =
     Ok (mk_tok kImport ''@import'' loc, CHR '' '' # cs, fold advance_location ''@import'' loc)"
  "script_lex_token (CHR ''-'') (''>'' @ CHR '' '' # cs) loc =
     Ok (mk_tok kArrow ''->'' loc, CHR '' '' # cs, fold advance_location ''->'' loc)"
  by (simp_all add: script_lex_token_def Script_LexImportKeyword_def Script_LexArrow_def cctype_defs)

text \<open>What the lexer does at the beginning of a printed lexeme.\<close>

definition lexes_to :: "lexeme \<Rightarrow> bool" where
  "lexes_to x \<longleftrightarrow> (\<forall>cs loc. \<exists>c cs' loc'. render_lexeme x @ CHR '' '' # cs = c # cs' \<and>
     \<not> c_isspace c \<and> c \<noteq> CHR ''/'' \<and>
     script_lex_token c cs' loc = Ok (mk_tok (fst x) (snd x) loc, CHR '' '' # cs, loc'))"

lemma lexes_to_ident: "wf_ident t \<Longrightarrow> keyword_kind t = k \<Longrightarrow> k \<noteq> kString \<Longrightarrow> lexes_to (k, t)"
  using script_lex_ident [of "hd t" "tl t" k]
  by (cases t) (auto simp: lexes_to_def render_lexeme_def wf_ident_def is_ident_start_def cctype_defs)

lemma lexes_to_single: "single_char_kind c = Some k \<Longrightarrow> lexes_to (k, [c])"
  using single_char_kind_char [of c k] single_char_kind_not_eof [of c k]
  by (auto simp: lexes_to_def render_lexeme_def)

lemma lexes_to_wf: "wf_lexeme x \<Longrightarrow> lexes_to x"
proof (induction x rule: wf_lexeme.induct)
  case (2 t)
  then show ?case using script_lex_digits [of "hd t" "tl t"]
    by (cases t) (auto simp: lexes_to_def render_lexeme_def cctype_defs)
next
  case (3 t)
  show ?case
    using script_string_loop_literal [where t = t]
    by (fastforce simp: lexes_to_def render_lexeme_def string_literal_def script_lex_token_def
        Script_LexString_def cctype_defs ch_quote_def)
qed (auto intro: lexes_to_ident lexes_to_single
      simp: lexes_to_def [of "(kImport, _)"] lexes_to_def [of "(kArrow, _)"] render_lexeme_def
        script_lex_special [simplified] cctype_defs)

lemma script_tokenize_space:
  "script_tokenize_loop (CHR '' '' # cs) loc = script_tokenize_loop cs (advance_location (CHR '' '') loc)"
  by (simp add: script_tokenize_loop.simps [of "_ # cs"] script_tokenize_loop.simps [of cs]
      Script_Skip.simps(2) [of "CHR '' ''"])

lemma script_tokenize_render:
  "list_all wf_lexeme xs \<Longrightarrow>
   \<exists>toks. script_tokenize_loop (render xs) loc = Ok toks \<and>
     map lexeme_of toks = xs @ [(kEndOfFile, [])]"
proof (induction xs arbitrary: loc)
  case Nil
  show ?case by (subst script_tokenize_loop.simps) (simp add: render_def lexeme_of_def)
next
  case (Cons x xs)
  from Cons.prems lexes_to_wf [of x] obtain c cs' loc'
    where r: "render_lexeme x @ CHR '' '' # render xs = c # cs'" "\<not> c_isspace c" "c \<noteq> CHR ''/''"
      and l: "script_lex_token c cs' loc = Ok (mk_tok (fst x) (snd x) loc, CHR '' '' # render xs, loc')"
    unfolding lexes_to_def by fastforce
  from Cons obtain toks where
    "script_tokenize_loop (CHR '' '' # render xs) loc' = Ok toks" "map lexeme_of toks = xs @ [(kEndOfFile, [])]"
    by (auto simp: script_tokenize_space)
  moreover have "render (x # xs) = c # cs'" using r(1) by (simp add: render_def)
  moreover have "Script_Skip (c # cs') loc = (c # cs', loc)" using r by (simp add: Script_Skip_eq)
  ultimately show ?case using l
    by (subst script_tokenize_loop.simps) (auto simp: lexeme_of_def)
qed

text \<open>
  Printing and reading back: for every sequence of lexemes of the language, printed with
  string literals escaped and a blank after each lexeme, the lexer returns exactly these lexemes
  followed by the end-of-file token.
\<close>

theorem Script_Tokenize_render:
  assumes "list_all wf_lexeme xs"
  shows "\<exists>toks. Script_Tokenize (render xs) = Ok toks \<and> map lexeme_of toks = xs @ [(kEndOfFile, [])]"
  using assms unfolding Script_Tokenize_def by (rule script_tokenize_render)

theorem Script_Tokenize_render_witness:
  "\<exists>toks. Script_Tokenize (render [(kIdentifier, ''f''), (kColon, '':''), (kString, [ch_quote, ch_newline])])
     = Ok toks \<and> map lexeme_of toks = [(kIdentifier, ''f''), (kColon, '':''), (kString, [ch_quote, ch_newline]),
       (kEndOfFile, [])]"
  using Script_Tokenize_render [of "[(kIdentifier, ''f''), (kColon, '':''), (kString, [ch_quote, ch_newline])]"]
  by (simp add: wf_ident_def is_ident_start_def is_ident_char_def cctype_defs keyword_kind_def
      single_char_kind_def)

end
