(* ===== verification/XerValues.thy ===== *)
theory XerValues
  imports XER_Prelude
begin

text \<open>
  The value layer of the XER runtime: the tagged value of \<^verbatim>\<open>src/src/xer/xer_value.cc\<close>, decimal big
  integers (\<^verbatim>\<open>xer_bigint.cc\<close>), the stack of local frames (\<^verbatim>\<open>xer_local.cc\<close>) and the module registry
  (\<^verbatim>\<open>xer_module.cc\<close>). \<open>std::int64_t\<close> is \<open>int\<close> (the code only stores, compares and prints it); a hash
  map of an object is the list of its entries in iteration order, a hash map that is only looked
  up is a map.
\<close>

section \<open>Definitions\<close>

subsection \<open>XerValue (xer_value.cc)\<close>

datatype XerValueType = kNull | kInteger | kStringValue | kObject | kArray

datatype XerValue =
    VNull
  | VInteger int
  | VString string
  | VObject "(string \<times> XerValue) list option"
  | VArray "XerValue list option"

definition MakeObject :: XerValue where
  "MakeObject = VObject (Some [])"

definition MakeArray :: XerValue where
  "MakeArray = VArray (Some [])"

fun value_type :: "XerValue \<Rightarrow> XerValueType" where
  "value_type VNull = kNull"
| "value_type (VInteger i) = kInteger"
| "value_type (VString s) = kStringValue"
| "value_type (VObject ob) = kObject"
| "value_type (VArray a) = kArray"

definition IsNull :: "XerValue \<Rightarrow> bool" where "IsNull v \<longleftrightarrow> value_type v = kNull"
definition IsInteger :: "XerValue \<Rightarrow> bool" where "IsInteger v \<longleftrightarrow> value_type v = kInteger"
definition IsString :: "XerValue \<Rightarrow> bool" where "IsString v \<longleftrightarrow> value_type v = kStringValue"
definition IsObject :: "XerValue \<Rightarrow> bool" where "IsObject v \<longleftrightarrow> value_type v = kObject"
definition IsArray :: "XerValue \<Rightarrow> bool" where "IsArray v \<longleftrightarrow> value_type v = kArray"

definition AsInteger :: "int \<Rightarrow> XerValue \<Rightarrow> int" where
  "AsInteger fallback v = (case v of VInteger i \<Rightarrow> i | _ \<Rightarrow> fallback)"

definition AsString :: "XerValue \<Rightarrow> string" where
  "AsString v = (case v of VString s \<Rightarrow> s | _ \<Rightarrow> [])"

definition AsObject :: "XerValue \<Rightarrow> (string \<times> XerValue) list option" where
  "AsObject v = (case v of VObject ob \<Rightarrow> ob | _ \<Rightarrow> None)"

definition AsArray :: "XerValue \<Rightarrow> XerValue list option" where
  "AsArray v = (case v of VArray a \<Rightarrow> a | _ \<Rightarrow> None)"

fun join :: "string \<Rightarrow> string list \<Rightarrow> string" where
  "join sep [] = []"
| "join sep [s] = s"
| "join sep (s # t # ts) = s @ sep @ join sep (t # ts)"

fun ToString :: "XerValue \<Rightarrow> string" where
  "ToString (VInteger i) = show_int i"
| "ToString (VString s) = s"
| "ToString (VObject ob) = ''{'' @ (case ob of None \<Rightarrow> []
     | Some kvs \<Rightarrow> join '', '' (map (\<lambda>kv. fst kv @ '': '' @ ToString (snd kv)) kvs)) @ ''}''"
| "ToString (VArray a) = ''['' @ (case a of None \<Rightarrow> []
     | Some vs \<Rightarrow> join '', '' (map ToString vs)) @ '']''"
| "ToString VNull = ''null''"

text \<open>\<open>(*object)[key] = value\<close> on the entries of an object.\<close>

fun object_set :: "string \<Rightarrow> 'v \<Rightarrow> (string \<times> 'v) list \<Rightarrow> (string \<times> 'v) list" where
  "object_set k v [] = [(k, v)]"
| "object_set k v ((k', v') # kvs) =
     (if k = k' then (k, v) # kvs else (k', v') # object_set k v kvs)"

subsection \<open>XerBigInt (xer_bigint.cc)\<close>

text \<open>\<open>std::stoll\<close>: blanks, an optional sign, then digits; \<open>None\<close> where it throws.\<close>

definition int64_min :: int where "int64_min = - (2 ^ 63)"
definition int64_max :: int where "int64_max = 2 ^ 63 - 1"

definition stoll :: "string \<Rightarrow> int option" where
  "stoll s =
     (let t = dropWhile c_isspace s;
          negative = (t \<noteq> [] \<and> hd t = CHR ''-'');
          u = (if t \<noteq> [] \<and> (hd t = CHR ''-'' \<or> hd t = CHR ''+'') then tl t else t);
          ds = takeWhile c_isdigit u;
          v = (if negative then - int (digits_value ds) else int (digits_value ds))
      in if ds = [] then None
         else if int64_min \<le> v \<and> v \<le> int64_max then Some v else None)"

text \<open>The decimal text a big integer holds, and the error text of \<open>FromString\<close> (empty: none).\<close>

definition BigInt_FromString :: "string \<Rightarrow> string \<times> string" where
  "BigInt_FromString s =
     (if s = [] then (''0'', ''bigint text is empty'')
      else let digits = (if hd s = CHR ''+'' \<or> hd s = CHR ''-'' then tl s else s) in
        if digits = [] then (''0'', ''bigint text has no digits'')
        else if \<not> list_all c_isdigit digits then (''0'', ''bigint contains non-digit characters'')
        else (s, []))"

fun string_le :: "string \<Rightarrow> string \<Rightarrow> bool" where
  "string_le [] t = True"
| "string_le (c # cs) [] = False"
| "string_le (c # cs) (d # ds) = (code c < code d \<or> (c = d \<and> string_le cs ds))"

text \<open>The digits after \<open>FitsInt64\<close> erased the leading zeros, the last digit always kept.\<close>

definition strip_zeros :: "string \<Rightarrow> string" where
  "strip_zeros ds = drop (min (length (takeWhile (\<lambda>c. c = CHR ''0'') ds)) (length ds - 1)) ds"

definition FitsInt64 :: "string \<Rightarrow> bool" where
  "FitsInt64 decimal =
     (let signed = (decimal \<noteq> [] \<and> (hd decimal = CHR ''+'' \<or> hd decimal = CHR ''-''));
          negative = (signed \<and> hd decimal = CHR ''-'');
          digits = (if signed then tl decimal else decimal);
          digits = strip_zeros digits;
          limit = (if negative then ''9223372036854775808'' else ''9223372036854775807'')
      in if length digits \<noteq> length limit then length digits < length limit
         else string_le digits limit)"

definition ToInt64 :: "int \<Rightarrow> string \<Rightarrow> int" where
  "ToInt64 fallback decimal =
     (if \<not> FitsInt64 decimal then fallback
      else case stoll decimal of None \<Rightarrow> fallback | Some v \<Rightarrow> v)"

subsection \<open>XerLocal (xer_local.cc)\<close>

text \<open>\<open>frames_\<close>, with the innermost frame (\<open>back()\<close>) first.\<close>

type_synonym frames = "(string \<rightharpoonup> XerValue) list"

definition Local_Push :: "frames \<Rightarrow> frames" where
  "Local_Push frames = Map.empty # frames"

definition Local_Pop :: "frames \<Rightarrow> frames" where
  "Local_Pop frames = (if frames = [] then frames else tl frames)"

definition Local_Set :: "string \<Rightarrow> XerValue \<Rightarrow> frames \<Rightarrow> frames" where
  "Local_Set name v frames =
     (let frames' = (if frames = [] then Local_Push frames else frames)
      in (hd frames')(name \<mapsto> v) # tl frames')"

fun Local_Get :: "frames \<Rightarrow> string \<Rightarrow> XerValue option" where
  "Local_Get [] name = None"
| "Local_Get (f # fs) name = (case f name of Some v \<Rightarrow> Some v | None \<Rightarrow> Local_Get fs name)"

definition Local_Contains :: "frames \<Rightarrow> string \<Rightarrow> bool" where
  "Local_Contains frames name \<longleftrightarrow> Local_Get frames name \<noteq> None"

definition Local_Depth :: "frames \<Rightarrow> nat" where
  "Local_Depth frames = length frames"

subsection \<open>XerModuleRegistry (xer_module.cc)\<close>

record XerModuleCallContext =
  call_method :: string
  positional_args :: "XerValue list"
  named_args :: "(string \<times> XerValue) list"

text \<open>A handler returns a value and the text it leaves in \<open>error_out\<close>.\<close>

type_synonym XerModuleHandler = "XerModuleCallContext \<Rightarrow> string \<Rightarrow> XerValue \<times> string"
type_synonym registry = "(string \<times> XerModuleHandler) list"

definition Module_Register :: "string \<Rightarrow> XerModuleHandler \<Rightarrow> registry \<Rightarrow> registry" where
  "Module_Register name handler handlers = object_set name handler handlers"

definition Module_Has :: "registry \<Rightarrow> string \<Rightarrow> bool" where
  "Module_Has handlers name \<longleftrightarrow> map_of handlers name \<noteq> None"

definition Module_Invoke ::
  "registry \<Rightarrow> string \<Rightarrow> XerModuleCallContext \<Rightarrow> string \<Rightarrow> XerValue \<times> string" where
  "Module_Invoke handlers name context error_out =
     (case map_of handlers name of
        None \<Rightarrow> (VNull, ''module is not registered'')
      | Some handler \<Rightarrow> handler context error_out)"

text \<open>\<open>std::sort\<close> of the registered names, as an insertion sort by \<open>std::string\<close> order.\<close>

fun insert_name :: "string \<Rightarrow> string list \<Rightarrow> string list" where
  "insert_name s [] = [s]"
| "insert_name s (t # ts) = (if string_le s t then s # t # ts else t # insert_name s ts)"

definition Module_Names :: "registry \<Rightarrow> string list" where
  "Module_Names handlers = foldr insert_name (map fst handlers) []"

section \<open>Big integers\<close>

lemma digit_val_le: "c_isdigit c \<Longrightarrow> digit_val c \<le> 9"
  by (auto simp: c_isdigit_def digit_val_def)

lemma digit_val_less_iff: "c_isdigit c \<Longrightarrow> c_isdigit d \<Longrightarrow> digit_val c < digit_val d \<longleftrightarrow> code c < code d"
  by (auto simp: c_isdigit_def digit_val_def)

lemma digits_value_acc:
  "foldl (\<lambda>n c. 10 * n + digit_val c) a s = a * 10 ^ length s + digits_value s"
proof (induction s arbitrary: a)
  case (Cons c s)
  from Cons [of "10 * a + digit_val c"] Cons [of "digit_val c"] show ?case
    by (simp add: digits_value_def algebra_simps)
qed simp

lemma digits_value_Cons: "digits_value (c # s) = digit_val c * 10 ^ length s + digits_value s"
  using digits_value_acc [of "digit_val c" s] by (simp add: digits_value_def)

lemma digits_value_less: "list_all c_isdigit s \<Longrightarrow> digits_value s < 10 ^ length s"
proof (induction s)
  case (Cons c s)
  then have "digit_val c * 10 ^ length s \<le> 9 * 10 ^ length s"
    by (intro mult_right_mono) (auto intro: digit_val_le)
  moreover have "digits_value s < 10 ^ length s" using Cons by simp
  ultimately have "digit_val c * 10 ^ length s + digits_value s < 10 * 10 ^ length s" by linarith
  then show ?case by (simp add: digits_value_Cons)
qed simp

lemma string_le_value:
  "length s = length t \<Longrightarrow> list_all c_isdigit s \<Longrightarrow> list_all c_isdigit t \<Longrightarrow>
   string_le s t \<longleftrightarrow> digits_value s \<le> digits_value t"
proof (induction s t rule: string_le.induct)
  case (3 c cs d ds)
  let ?p = "10 ^ length cs :: nat"
  have b: "digits_value cs < ?p" "digits_value ds < ?p"
    using 3(2-4) digits_value_less [of cs] digits_value_less [of ds] by auto
  consider "code c < code d" | "c = d" | "code d < code c"
    by (metis code_inject linorder_neqE_nat)
  then show ?case
  proof cases
    case 1
    with 3 have "Suc (digit_val c) \<le> digit_val d" using digit_val_less_iff [of c d] by simp
    then have "Suc (digit_val c) * ?p \<le> digit_val d * ?p" by (rule mult_right_mono) simp
    with 1 b 3(2) show ?thesis by (simp add: digits_value_Cons)
  next
    case 2
    with 3 show ?thesis by (simp add: digits_value_Cons)
  next
    case 3
    with \<open>list_all c_isdigit (c # cs)\<close> \<open>list_all c_isdigit (d # ds)\<close>
    have "Suc (digit_val d) \<le> digit_val c" using digit_val_less_iff [of d c] by simp
    then have "Suc (digit_val d) * ?p \<le> digit_val c * ?p" by (rule mult_right_mono) simp
    with 3 b \<open>length (c # cs) = length (d # ds)\<close> show ?thesis by (auto simp: digits_value_Cons)
  qed
qed auto

lemma digits_value_zeros: "list_all (\<lambda>c. c = CHR ''0'') zs \<Longrightarrow> digits_value (zs @ t) = digits_value t"
  by (induction zs) (auto simp: digits_value_Cons digit_val_def)

lemma strip_zeros_value: "digits_value (strip_zeros ds) = digits_value ds"
proof -
  let ?k = "min (length (takeWhile (\<lambda>c. c = CHR ''0'') ds)) (length ds - 1)"
  have "take ?k ds = take ?k (takeWhile (\<lambda>c. c = CHR ''0'') ds)"
    by (metis (no_types, lifting) min.cobounded1 take_append takeWhile_dropWhile_id take0
        append_Nil2 diff_is_0_eq)
  then have "list_all (\<lambda>c. c = CHR ''0'') (take ?k ds)"
    by (metis (mono_tags, lifting) in_set_takeD list_all_iff set_takeWhileD)
  from digits_value_zeros [OF this, of "drop ?k ds"] show ?thesis by (simp add: strip_zeros_def)
qed

lemma strip_zeros_digits: "list_all c_isdigit ds \<Longrightarrow> list_all c_isdigit (strip_zeros ds)"
  by (auto simp: strip_zeros_def list_all_iff dest: in_set_dropD)

lemma strip_zeros_lead:
  assumes "2 \<le> length (strip_zeros ds)" shows "hd (strip_zeros ds) \<noteq> CHR ''0''"
proof -
  let ?z = "takeWhile (\<lambda>c. c = CHR ''0'') ds"
  from assms have "length ?z < length ds - 1" "length ?z < length ds"
    by (auto simp: strip_zeros_def)
  then have "strip_zeros ds = dropWhile (\<lambda>c. c = CHR ''0'') ds"
    by (simp add: strip_zeros_def dropWhile_eq_drop)
  moreover have "dropWhile (\<lambda>c. c = CHR ''0'') ds \<noteq> []"
    using \<open>length ?z < length ds\<close> by (metis append_Nil2 less_irrefl takeWhile_dropWhile_id)
  ultimately show ?thesis using hd_dropWhile [of "\<lambda>c. c = CHR ''0''" ds] by simp
qed

lemma digits_value_ge:
  assumes "list_all c_isdigit ds" "ds \<noteq> []" "hd ds \<noteq> CHR ''0''"
  shows "10 ^ (length ds - 1) \<le> digits_value ds"
proof -
  from assms obtain c cs where ds: "ds = c # cs" by (cases ds) auto
  with assms have "code c \<noteq> 48" by (auto simp flip: code_inject)
  with assms ds have "1 \<le> digit_val c" by (auto simp: c_isdigit_def digit_val_def)
  then have "1 * 10 ^ length cs \<le> digit_val c * 10 ^ length cs" by (rule mult_right_mono) simp
  then have "10 ^ length cs \<le> digit_val c * 10 ^ length cs + digits_value cs" by linarith
  with ds show ?thesis by (simp add: digits_value_Cons)
qed

lemma decimal_compare:
  assumes ds: "list_all c_isdigit ds" "ds \<noteq> []" and lim: "list_all c_isdigit limit" "2 \<le> length limit"
    "hd limit \<noteq> CHR ''0''"
  shows "(if length (strip_zeros ds) \<noteq> length limit then length (strip_zeros ds) < length limit
          else string_le (strip_zeros ds) limit) \<longleftrightarrow> digits_value ds \<le> digits_value limit"
proof -
  let ?s = "strip_zeros ds"
  have s: "list_all c_isdigit ?s" using ds(1) by (rule strip_zeros_digits)
  have lim_ge: "10 ^ (length limit - 1) \<le> digits_value limit"
    using lim by (intro digits_value_ge) auto
  consider "length ?s = length limit" | "length ?s < length limit" | "length limit < length ?s"
    by linarith
  then show ?thesis
  proof cases
    case 1
    with string_le_value [OF 1 s lim(1)] show ?thesis by (simp add: strip_zeros_value)
  next
    case 2
    have "digits_value ?s < 10 ^ length ?s" using s by (rule digits_value_less)
    also have "\<dots> \<le> 10 ^ (length limit - 1)" using 2 by (intro power_increasing) auto
    finally show ?thesis using 2 lim_ge by (simp add: strip_zeros_value)
  next
    case 3
    then have "hd ?s \<noteq> CHR ''0''" using lim(2) by (intro strip_zeros_lead) simp
    then have "10 ^ (length ?s - 1) \<le> digits_value ?s" using s 3 by (intro digits_value_ge) auto
    moreover have "digits_value limit < 10 ^ length limit" using lim(1) by (rule digits_value_less)
    moreover have "(10::nat) ^ length limit \<le> 10 ^ (length ?s - 1)"
      using 3 by (intro power_increasing) auto
    ultimately have "digits_value limit < digits_value ?s" by linarith
    then have "digits_value limit < digits_value ds" by (simp only: strip_zeros_value)
    with 3 show ?thesis by simp
  qed
qed

text \<open>The integer a signed decimal text denotes.\<close>

definition decimal_value :: "string \<Rightarrow> int" where
  "decimal_value s =
     (if s \<noteq> [] \<and> hd s = CHR ''-'' then - int (digits_value (tl s))
      else if s \<noteq> [] \<and> hd s = CHR ''+'' then int (digits_value (tl s))
      else int (digits_value s))"

lemma limit_values:
  "digits_value ''9223372036854775808'' = 9223372036854775808"
  "digits_value ''9223372036854775807'' = 9223372036854775807"
  by (simp_all add: digits_value_def digit_val_def)

lemma FitsInt64_iff:
  assumes "snd (BigInt_FromString s) = []"
  shows "FitsInt64 s \<longleftrightarrow> int64_min \<le> decimal_value s \<and> decimal_value s \<le> int64_max"
proof -
  let ?sg = "hd s = CHR ''+'' \<or> hd s = CHR ''-''"
  let ?ds = "if ?sg then tl s else s"
  from assms have ds: "s \<noteq> []" "?ds \<noteq> []" "list_all c_isdigit ?ds"
    by (auto simp: BigInt_FromString_def Let_def split: if_splits)
  have lim: "list_all c_isdigit ''9223372036854775808''" "list_all c_isdigit ''9223372036854775807''"
    by (simp_all add: c_isdigit_def)
  have c: "(if length (strip_zeros ?ds) \<noteq> length l then length (strip_zeros ?ds) < length l
      else string_le (strip_zeros ?ds) l) \<longleftrightarrow> digits_value ?ds \<le> digits_value l"
    if "list_all c_isdigit l" "length l = 19" "hd l = CHR ''9''" for l
    using that by (intro decimal_compare ds) auto
  show ?thesis
  proof (cases "hd s = CHR ''-''")
    case True
    with ds(1) c [OF lim(1)] show ?thesis
      by (auto simp: FitsInt64_def decimal_value_def int64_min_def int64_max_def limit_values Let_def)
  next
    case False
    with ds(1) c [OF lim(2)] show ?thesis
      by (auto simp: FitsInt64_def decimal_value_def int64_min_def int64_max_def limit_values Let_def
          split: if_splits)
  qed
qed

lemma stoll_show_nat:
  assumes "0 \<le> v" "v \<le> int64_max"
  shows "stoll (show_nat (nat v)) = Some v"
proof -
  obtain c cs where s: "show_nat (nat v) = c # cs" by (cases "show_nat (nat v)") auto
  have d: "list_all c_isdigit (show_nat (nat v))" by (rule show_nat_digits)
  with s have c: "c_isdigit c" "\<not> c_isspace c" "c \<noteq> CHR ''-''" "c \<noteq> CHR ''+''"
    by (auto simp: c_isdigit_def c_isspace_def)
  have "digits_value (c # cs) = nat v" using digits_value_show_nat [of "nat v"] s by simp
  with assms c d show ?thesis unfolding s by (simp add: stoll_def Let_def int64_min_def del: digits_value_Nil)
qed

lemma stoll_decimal:
  assumes "snd (BigInt_FromString s) = []"
    and "int64_min \<le> decimal_value s" "decimal_value s \<le> int64_max"
  shows "stoll s = Some (decimal_value s)"
proof -
  let ?sg = "hd s = CHR ''+'' \<or> hd s = CHR ''-''"
  let ?ds = "if ?sg then tl s else s"
  from assms(1) have ds: "s \<noteq> []" "?ds \<noteq> []" "list_all c_isdigit ?ds"
    by (auto simp: BigInt_FromString_def Let_def split: if_splits)
  have "\<not> c_isspace (hd s)"
    using ds by (cases s) (auto simp: c_isspace_def c_isdigit_def split: if_splits)
  then have "dropWhile c_isspace s = s" using ds(1) by (cases s) auto
  then show ?thesis using ds assms(2,3)
    by (auto simp: stoll_def Let_def decimal_value_def split: if_splits)
qed

text \<open>
  C32. \<open>XerBigInt::ToInt64\<close> is exact: for every text that \<open>FromString\<close> accepts it returns the
  denoted integer when that fits \<open>std::int64_t\<close>, both limits included and leading zeros ignored,
  and the fallback otherwise.
\<close>

theorem BigInt_ToInt64_exact:
  assumes "snd (BigInt_FromString s) = []"
  shows "ToInt64 fallback (fst (BigInt_FromString s)) =
    (if int64_min \<le> decimal_value s \<and> decimal_value s \<le> int64_max then decimal_value s else fallback)"
proof -
  have "fst (BigInt_FromString s) = s"
    using assms by (auto simp: BigInt_FromString_def Let_def split: if_splits)
  with FitsInt64_iff [OF assms] stoll_decimal [OF assms] show ?thesis by (simp add: ToInt64_def)
qed

theorem BigInt_ToInt64_exact_witness:
  "ToInt64 7 (fst (BigInt_FromString ''-0009223372036854775808'')) = - 9223372036854775808 \<and>
   ToInt64 7 (fst (BigInt_FromString ''9223372036854775808'')) = 7"
proof -
  have "snd (BigInt_FromString ''-0009223372036854775808'') = []"
    "snd (BigInt_FromString ''9223372036854775808'') = []"
    by (simp_all add: BigInt_FromString_def c_isdigit_def)
  from this [THEN BigInt_ToInt64_exact, of 7] show ?thesis
    by (simp add: decimal_value_def digits_value_def digit_val_def int64_min_def int64_max_def)
qed

section \<open>Local frames\<close>

text \<open>
  The contract of a stack of variable frames: \<open>set\<close> binds in the innermost frame, \<open>get\<close> searches
  from the innermost frame outwards, and \<open>pop\<close> forgets exactly the innermost frame.
\<close>

locale scoped_env =
  fixes push :: "'s \<Rightarrow> 's" and pop :: "'s \<Rightarrow> 's"
    and bind :: "string \<Rightarrow> 'v \<Rightarrow> 's \<Rightarrow> 's"
    and get :: "'s \<Rightarrow> string \<Rightarrow> 'v option"
    and depth :: "'s \<Rightarrow> nat"
  assumes get_bind: "get (bind x v s) y = (if x = y then Some v else get s y)"
    and get_push: "get (push s) x = get s x"
    and pop_push: "pop (push s) = s"
    and pop_bind: "0 < depth s \<Longrightarrow> pop (bind x v s) = pop s"
    and depth_push: "depth (push s) = Suc (depth s)"
    and depth_bind: "0 < depth s \<Longrightarrow> depth (bind x v s) = depth s"
begin

definition bind_all :: "(string \<times> 'v) list \<Rightarrow> 's \<Rightarrow> 's" where
  "bind_all bs s = fold (\<lambda>(x, v). bind x v) bs s"

lemma depth_bind_all: "0 < depth s \<Longrightarrow> depth (bind_all bs s) = depth s"
  by (induction bs arbitrary: s) (auto simp: bind_all_def depth_bind)

lemma pop_bind_all: "0 < depth s \<Longrightarrow> pop (bind_all bs s) = pop s"
  by (induction bs arbitrary: s) (auto simp: bind_all_def depth_bind pop_bind)

text \<open>Whatever a block binds in its own frame, leaving the block restores the environment.\<close>

lemma block_restores: "pop (bind_all bs (push s)) = s"
  using pop_bind_all [of "push s" bs] by (simp add: depth_push pop_push)

text \<open>Inside the block the last binding of a name wins and other names keep their outer value.\<close>

lemma get_bind_all: "get (bind_all bs s) x = (case map_of (rev bs) x of Some v \<Rightarrow> Some v | None \<Rightarrow> get s x)"
  by (induction bs arbitrary: s)
     (auto simp: bind_all_def get_bind map_add_def split: option.splits)

end

interpretation xl: scoped_env Local_Push Local_Pop Local_Set Local_Get Local_Depth
  by unfold_locales
     (auto simp: Local_Push_def Local_Pop_def Local_Set_def Local_Depth_def Let_def neq_Nil_conv
       split: option.split)

text \<open>
  Block structure of \<open>XerLocal\<close>: after \<open>Push\<close>, any sequence of \<open>Set\<close> calls and \<open>Pop\<close>, the
  frames are what they were before, and between them \<open>Get\<close> sees the last value set in the block
  or else the value from outside.
\<close>

theorem Local_block_structure:
  "Local_Pop (fold (\<lambda>(x, v). Local_Set x v) bs (Local_Push frames)) = frames \<and>
   Local_Get (fold (\<lambda>(x, v). Local_Set x v) bs (Local_Push frames)) x =
     (case map_of (rev bs) x of Some v \<Rightarrow> Some v | None \<Rightarrow> Local_Get frames x)"
  using xl.block_restores [of bs frames] xl.get_bind_all [of bs "Local_Push frames" x]
  by (auto simp: xl.bind_all_def xl.get_push split: option.splits)

section \<open>Module registry\<close>

lemma map_of_object_set [simp]: "map_of (object_set k v kvs) = (map_of kvs)(k \<mapsto> v)"
  by (induction k v kvs rule: object_set.induct) (auto simp: fun_eq_iff)

lemma fst_set_object_set: "fst ` set (object_set k v kvs) = insert k (fst ` set kvs)"
  by (induction k v kvs rule: object_set.induct) auto

lemma distinct_object_set: "distinct (map fst kvs) \<Longrightarrow> distinct (map fst (object_set k v kvs))"
  by (induction k v kvs rule: object_set.induct) (auto simp: fst_set_object_set)

lemma string_le_refl [simp]: "string_le s s"
  by (induction s) auto

lemma string_le_trans: "string_le s t \<Longrightarrow> string_le t u \<Longrightarrow> string_le s u"
proof (induction s t arbitrary: u rule: string_le.induct)
  case (3 c cs d ds)
  then show ?case by (cases u) auto
qed auto

lemma string_le_total: "string_le s t \<or> string_le t s"
proof (induction s t rule: string_le.induct)
  case (3 c cs d ds)
  then show ?case by (auto simp: code_inject)
qed auto

lemma string_le_antisym: "string_le s t \<Longrightarrow> string_le t s \<Longrightarrow> s = t"
  by (induction s t rule: string_le.induct) (auto elim: string_le.elims)

lemma set_insert_name [simp]: "set (insert_name s ts) = insert s (set ts)"
  by (induction ts) auto

lemma sorted_insert_name: "sorted_wrt string_le ts \<Longrightarrow> sorted_wrt string_le (insert_name s ts)"
  using string_le_total by (induction ts) (auto intro: string_le_trans)

lemma distinct_insert_name: "distinct (insert_name s ts) = (s \<notin> set ts \<and> distinct ts)"
  by (induction ts) auto

lemma Module_Names_props:
  "set (Module_Names hs) = fst ` set hs" "sorted_wrt string_le (Module_Names hs)"
  "distinct (map fst hs) \<Longrightarrow> distinct (Module_Names hs)"
proof -
  have s: "set (foldr insert_name ns []) = set ns" for ns by (induction ns) auto
  from s [of "map fst hs"] show "set (Module_Names hs) = fst ` set hs" by (simp add: Module_Names_def)
  have "sorted_wrt string_le (foldr insert_name ns [])" for ns
    by (induction ns) (auto intro: sorted_insert_name)
  then show "sorted_wrt string_le (Module_Names hs)" by (simp add: Module_Names_def)
  have "distinct ns \<Longrightarrow> distinct (foldr insert_name ns [])" for ns
    by (induction ns) (auto simp: distinct_insert_name s)
  then show "distinct (map fst hs) \<Longrightarrow> distinct (Module_Names hs)" by (simp add: Module_Names_def)
qed

text \<open>Registries as the code builds them: from the empty one by \<open>Register\<close>.\<close>

definition register_all :: "(string \<times> XerModuleHandler) list \<Rightarrow> registry" where
  "register_all rs = fold (\<lambda>(n, h). Module_Register n h) rs []"

lemma register_all_distinct: "distinct (map fst (register_all rs))"
proof -
  have "distinct (map fst hs) \<Longrightarrow> distinct (map fst (fold (\<lambda>(n, h). Module_Register n h) rs hs))" for hs
    by (induction rs arbitrary: hs) (auto simp: Module_Register_def distinct_object_set)
  from this [of "[]"] show ?thesis by (simp add: register_all_def)
qed

lemma map_of_register_all: "map_of (register_all rs) = map_of (rev rs)"
proof -
  have "map_of (fold (\<lambda>(n, h). Module_Register n h) rs hs) = map_of hs ++ map_of (rev rs)" for hs
    by (induction rs arbitrary: hs) (auto simp: Module_Register_def)
  from this [of "[]"] show ?thesis by (simp add: register_all_def)
qed

text \<open>
  The module registry: after any sequence of registrations \<open>Invoke\<close> runs the handler that was
  registered last under the name and reports \<open>module is not registered\<close> when there is none, and
  \<open>Names\<close> lists exactly the registered names, sorted and without duplicates.
\<close>

theorem Module_registry_correct:
  "Module_Invoke (register_all rs) name context err =
     (case map_of (rev rs) name of
        None \<Rightarrow> (VNull, ''module is not registered'')
      | Some handler \<Rightarrow> handler context err) \<and>
   set (Module_Names (register_all rs)) = fst ` set rs \<and>
   sorted_wrt string_le (Module_Names (register_all rs)) \<and>
   distinct (Module_Names (register_all rs))"
proof -
  have "fst ` set (register_all rs) = dom (map_of (register_all rs))" by (simp add: dom_map_of_conv_image_fst)
  also have "\<dots> = fst ` set rs" by (simp add: map_of_register_all dom_map_of_conv_image_fst)
  finally show ?thesis
    by (simp add: Module_Invoke_def map_of_register_all Module_Names_props register_all_distinct)
qed

end
