(* ===== verification/XerScriptParser.thy ===== *)
theory XerScriptParser
  imports XerScriptLexer XerValues
begin

text \<open>
  The recursive-descent parser of the script interpreter (class \<open>Parser\<close> of
  \<^verbatim>\<open>src/src/xer/xer_script.cc\<close>). The state of a parser is the suffix of the token vector from
  \<open>index_\<close> on. Reading at an index past the end of the vector is \<open>Undef\<close>. The mutually recursive
  functions \<open>ParseExpression\<close>, \<open>ParseMapExpression\<close> and \<open>ParseCallExpression\<close> carry fuel; the
  fuel that the entry points pass is proved sufficient below.
\<close>

section \<open>Definitions\<close>

datatype Expression =
    ENumber SourceLocation int
  | EString SourceLocation string
  | EIdentifier SourceLocation string
  | ECall SourceLocation "string option" string "(string option \<times> Expression) list"
  | EMap SourceLocation "(string \<times> Expression) list"

text \<open>\<open>Statement\<close>: the kinds \<open>kLocalAssignment\<close> and \<open>kExpression\<close>.\<close>

datatype Statement =
    LocalAssignment SourceLocation string Expression
  | ExpressionStatement SourceLocation Expression

record ImportDeclaration =
  import_loc :: SourceLocation
  import_module :: string
  import_alias :: string

record FunctionDeclaration =
  function_loc :: SourceLocation
  is_async :: bool
  function_name :: string
  function_body :: "Statement list"

record Program =
  prog_imports :: "ImportDeclaration list"
  prog_functions :: "FunctionDeclaration list"
  prog_statements :: "Statement list"

type_synonym 'a parser = "Token list \<Rightarrow> (string, 'a \<times> Token list) exec"

definition Parser_Peek :: "Token list \<Rightarrow> (string, Token) exec" where
  "Parser_Peek toks = rd toks 0"

definition Parser_Check :: "TokenKind \<Rightarrow> Token list \<Rightarrow> (string, bool) exec" where
  "Parser_Check k toks = ebind (Parser_Peek toks) (\<lambda>t. Ok (t_kind t = k))"

text \<open>\<open>tokens_.back()\<close> past the end: the last token of a nonempty suffix is the last token.\<close>

definition Parser_PeekAt :: "nat \<Rightarrow> Token list \<Rightarrow> (string, Token) exec" where
  "Parser_PeekAt offset toks =
     (if offset < length toks then Ok (toks ! offset)
      else if toks = [] then Undef else Ok (last toks))"

text \<open>
  \<open>Advance\<close> returns the token stepped over. At the end-of-file token the code stays where it is and
  returns \<open>Previous()\<close>, which exists only if a token was consumed before; no caller advances
  there, and the model makes it \<open>Undef\<close>.
\<close>

definition Parser_Advance :: "Token parser" where
  "Parser_Advance toks =
     ebind (Parser_Check kEndOfFile toks) (\<lambda>eof.
       if eof then Undef else Ok (hd toks, tl toks))"

text \<open>\<open>Match\<close>: the consumed token (the code reads it back with \<open>Previous()\<close>), or \<open>None\<close>.\<close>

definition Parser_Match :: "TokenKind \<Rightarrow> Token option parser" where
  "Parser_Match k toks =
     ebind (Parser_Check k toks) (\<lambda>b.
       if \<not> b then Ok (None, toks)
       else ebind (Parser_Advance toks) (\<lambda>(t, rest). Ok (Some t, rest)))"

definition Parser_Expect :: "TokenKind \<Rightarrow> string \<Rightarrow> Token parser" where
  "Parser_Expect k message toks =
     ebind (Parser_Check k toks) (\<lambda>b.
       if \<not> b then ebind (Parser_Peek toks) (\<lambda>t. Fail (ParserError (t_loc t) message))
       else Parser_Advance toks)"

definition ConsumeOptionalSemicolon :: "Token list \<Rightarrow> (string, Token list) exec" where
  "ConsumeOptionalSemicolon toks = ebind (Parser_Match kSemicolon toks) (\<lambda>(m, rest). Ok rest)"

definition IsFunctionDeclarationStart :: "Token list \<Rightarrow> (string, bool) exec" where
  "IsFunctionDeclarationStart toks =
     ebind (Parser_PeekAt 0 toks) (\<lambda>t.
     let offset = (if t_kind t = kAsync then 1 else 0) in
     ebind (Parser_PeekAt offset toks) (\<lambda>t0.
     ebind (Parser_PeekAt (offset + 1) toks) (\<lambda>t1.
     ebind (Parser_PeekAt (offset + 2) toks) (\<lambda>t2.
     ebind (Parser_PeekAt (offset + 3) toks) (\<lambda>t3.
     ebind (Parser_PeekAt (offset + 4) toks) (\<lambda>t4.
       Ok (t_kind t0 = kIdentifier \<and> t_kind t1 = kLParen \<and> t_kind t2 = kRParen \<and>
           t_kind t3 = kArrow \<and> t_kind t4 = kThen)))))))"

definition ParseImportDeclaration :: "SourceLocation \<Rightarrow> ImportDeclaration parser" where
  "ParseImportDeclaration location toks =
     ebind (Parser_Expect kLParen (''expected '' @ quoted ''('' @ '' after @import'') toks) (\<lambda>(t1, toks).
     ebind (Parser_Expect kString ''expected module name string'' toks) (\<lambda>(name, toks).
     ebind (Parser_Expect kRParen (''expected '' @ quoted '')'' @ '' after module name'') toks) (\<lambda>(t2, toks).
     ebind (Parser_Expect kAs (''expected '' @ quoted ''as'' @ '' after import declaration'') toks) (\<lambda>(t3, toks).
     ebind (Parser_Expect kIdentifier ''expected import alias'' toks) (\<lambda>(alias, toks).
     ebind (ConsumeOptionalSemicolon toks) (\<lambda>toks.
       Ok (\<lparr>import_loc = location, import_module = t_text name, import_alias = t_text alias\<rparr>, toks)))))))"

text \<open>
  The expressions. \<open>parse_map_loop\<close> and \<open>parse_args_loop\<close> are the \<open>do ... while (Match(kComma))\<close>
  loops of \<open>ParseMapExpression\<close> and \<open>ParseCallExpression\<close>. \<open>std::stoll\<close> throws
  \<open>std::out_of_range\<close>, whose text is \<open>stoll\<close>.
\<close>

function (sequential) ParseExpression :: "nat \<Rightarrow> Expression parser"
  and ParseMapExpression :: "nat \<Rightarrow> SourceLocation \<Rightarrow> Expression parser"
  and parse_map_loop :: "nat \<Rightarrow> (string \<times> Expression) list parser"
  and ParseCallExpression :: "nat \<Rightarrow> SourceLocation \<Rightarrow> string option \<Rightarrow> string \<Rightarrow> Expression parser"
  and parse_args_loop :: "nat \<Rightarrow> (string option \<times> Expression) list parser" where
  "ParseExpression 0 toks = OutOfFuel"
| "ParseExpression (Suc n) toks =
     ebind (Parser_Match kNumber toks) (\<lambda>(m, toks1). case m of
       Some t \<Rightarrow> (case stoll (t_text t) of
                    None \<Rightarrow> Fail ''stoll''
                  | Some v \<Rightarrow> Ok (ENumber (t_loc t) v, toks1))
     | None \<Rightarrow>
     ebind (Parser_Match kString toks1) (\<lambda>(m, toks2). case m of
       Some t \<Rightarrow> Ok (EString (t_loc t) (t_text t), toks2)
     | None \<Rightarrow>
     ebind (Parser_Match kLBrace toks2) (\<lambda>(m, toks3). case m of
       Some t \<Rightarrow> ParseMapExpression n (t_loc t) toks3
     | None \<Rightarrow>
     ebind (Parser_Match kIdentifier toks3) (\<lambda>(m, toks4). case m of
       Some t \<Rightarrow>
         ebind (Parser_Match kColon toks4) (\<lambda>(m, toks5). case m of
           Some c \<Rightarrow>
             ebind (Parser_Expect kIdentifier (''expected method name after '' @ quoted '':'') toks5)
               (\<lambda>(callee, toks6). ParseCallExpression n (t_loc t) (Some (t_text t)) (t_text callee) toks6)
         | None \<Rightarrow>
             ebind (Parser_Check kLParen toks5) (\<lambda>call.
               if call then ParseCallExpression n (t_loc t) None (t_text t) toks5
               else Ok (EIdentifier (t_loc t) (t_text t), toks5)))
     | None \<Rightarrow> ebind (Parser_Peek toks4) (\<lambda>t. Fail (ParserError (t_loc t) ''expected expression''))))))"
| "ParseMapExpression n location toks =
     ebind (Parser_Check kRBrace toks) (\<lambda>closed.
     ebind (if closed then Ok ([], toks) else parse_map_loop n toks) (\<lambda>(entries, toks1).
     ebind (Parser_Expect kRBrace (''expected '' @ quoted ''}'' @ '' after object literal'') toks1) (\<lambda>(t, toks2).
       Ok (EMap location entries, toks2))))"
| "parse_map_loop 0 toks = OutOfFuel"
| "parse_map_loop (Suc n) toks =
     ebind (Parser_Match kString toks) (\<lambda>(m, toks1).
     ebind (case m of Some t \<Rightarrow> Ok (Some t, toks1) | None \<Rightarrow> Parser_Match kIdentifier toks1) (\<lambda>(m, toks2).
     case m of
       None \<Rightarrow> ebind (Parser_Peek toks2) (\<lambda>t.
         Fail (ParserError (t_loc t) ''expected string or identifier key in object literal''))
     | Some key \<Rightarrow>
         ebind (Parser_Expect kColon (''expected '' @ quoted '':'' @ '' after object literal key'') toks2)
           (\<lambda>(t, toks3).
         ebind (ParseExpression n toks3) (\<lambda>(e, toks4).
         ebind (Parser_Match kComma toks4) (\<lambda>(m, toks5). case m of
           None \<Rightarrow> Ok ([(t_text key, e)], toks5)
         | Some t \<Rightarrow> ebind (parse_map_loop n toks5) (\<lambda>(es, toks6).
             Ok ((t_text key, e) # es, toks6)))))))"
| "ParseCallExpression n location receiver callee toks =
     ebind (Parser_Expect kLParen (''expected '' @ quoted ''('' @ '' after callable name'') toks) (\<lambda>(t, toks1).
     ebind (Parser_Check kRParen toks1) (\<lambda>closed.
     ebind (if closed then Ok ([], toks1) else parse_args_loop n toks1) (\<lambda>(args, toks2).
     ebind (Parser_Expect kRParen (''expected '' @ quoted '')'' @ '' after call arguments'') toks2) (\<lambda>(t, toks3).
       Ok (ECall location receiver callee args, toks3)))))"
| "parse_args_loop 0 toks = OutOfFuel"
| "parse_args_loop (Suc n) toks =
     ebind (Parser_Check kIdentifier toks) (\<lambda>ident.
     ebind (Parser_PeekAt 1 toks) (\<lambda>next_tok.
     ebind (if ident \<and> t_kind next_tok = kColon
            then ebind (Parser_Advance toks) (\<lambda>(t, toks').
                 ebind (Parser_Expect kColon (''expected '' @ quoted '':'' @ '' after named argument'') toks')
                   (\<lambda>(c, toks''). Ok (Some (t_text t), toks'')))
            else Ok (None, toks)) (\<lambda>(name, toks1).
     ebind (ParseExpression n toks1) (\<lambda>(e, toks2).
     ebind (Parser_Match kComma toks2) (\<lambda>(m, toks3). case m of
       None \<Rightarrow> Ok ([(name, e)], toks3)
     | Some t \<Rightarrow> ebind (parse_args_loop n toks3) (\<lambda>(es, toks4). Ok ((name, e) # es, toks4)))))))"
  by pat_completeness auto
termination
  by (relation "measure (\<lambda>x. case x of
        Inl (Inl (n, _)) \<Rightarrow> 2 * n
      | Inl (Inr (n, _)) \<Rightarrow> 2 * n + 1
      | Inr (Inl (n, _)) \<Rightarrow> 2 * n
      | Inr (Inr (Inl (n, _))) \<Rightarrow> 2 * n + 1
      | Inr (Inr (Inr (n, _))) \<Rightarrow> 2 * n)") simp_all

declare ParseExpression.simps [simp del] parse_map_loop.simps [simp del] parse_args_loop.simps [simp del]
  ParseMapExpression.simps [simp del] ParseCallExpression.simps [simp del]

definition ParseStatement :: "nat \<Rightarrow> Statement parser" where
  "ParseStatement n toks =
     ebind (Parser_Peek toks) (\<lambda>first.
     ebind (Parser_Match kLocal toks) (\<lambda>(m, toks1). case m of
       Some t \<Rightarrow>
         ebind (Parser_Expect kIdentifier ''expected local variable name'' toks1) (\<lambda>(name, toks2).
         ebind (Parser_Expect kEqual (''expected '' @ quoted ''='' @ '' after local variable name'') toks2)
           (\<lambda>(t, toks3).
         ebind (ParseExpression n toks3) (\<lambda>(e, toks4).
           Ok (LocalAssignment (t_loc first) (t_text name) e, toks4))))
     | None \<Rightarrow>
         ebind (ParseExpression n toks1) (\<lambda>(e, toks2).
           Ok (ExpressionStatement (t_loc first) e, toks2))))"

text \<open>The loop over the statements of a function body.\<close>

fun parse_body_loop :: "nat \<Rightarrow> Statement list parser" where
  "parse_body_loop 0 toks = OutOfFuel"
| "parse_body_loop (Suc n) toks =
     ebind (Parser_Check kRBrace toks) (\<lambda>close.
     ebind (Parser_Check kEndOfFile toks) (\<lambda>eof.
     if close \<or> eof then Ok ([], toks)
     else ebind (ParseStatement n toks) (\<lambda>(s, toks1).
          ebind (ConsumeOptionalSemicolon toks1) (\<lambda>toks2.
          ebind (parse_body_loop n toks2) (\<lambda>(ss, toks3). Ok (s # ss, toks3))))))"

definition ParseFunctionDeclaration :: "nat \<Rightarrow> FunctionDeclaration parser" where
  "ParseFunctionDeclaration n toks =
     ebind (Parser_Match kAsync toks) (\<lambda>(async, toks1).
     ebind (Parser_Peek toks1) (\<lambda>first.
     ebind (Parser_Expect kIdentifier ''expected function name'' toks1) (\<lambda>(name, toks2).
     ebind (Parser_Expect kLParen (''expected '' @ quoted ''('' @ '' after function name'') toks2) (\<lambda>(t, toks3).
     ebind (Parser_Expect kRParen (''expected '' @ quoted '')'' @ '' after function name'') toks3) (\<lambda>(t, toks4).
     ebind (Parser_Expect kArrow (''expected '' @ quoted ''->'' @ '' after function signature'') toks4) (\<lambda>(t, toks5).
     ebind (Parser_Expect kThen (''expected '' @ quoted ''then'' @ '' after '' @ quoted ''->'') toks5) (\<lambda>(t, toks6).
     ebind (Parser_Expect kLBrace (''expected '' @ quoted ''{'' @ '' to start function body'') toks6) (\<lambda>(t, toks7).
     ebind (parse_body_loop n toks7) (\<lambda>(body, toks8).
     ebind (Parser_Expect kRBrace (''expected '' @ quoted ''}'' @ '' after function body'') toks8) (\<lambda>(t, toks9).
     ebind (Parser_Expect kEnd (''expected '' @ quoted ''end'' @ '' after function body'') toks9) (\<lambda>(t, toks10).
     ebind (ConsumeOptionalSemicolon toks10) (\<lambda>toks11.
       Ok (\<lparr>function_loc = t_loc first, is_async = (async \<noteq> None), function_name = t_text name,
            function_body = body\<rparr>, toks11)))))))))))))"

definition empty_program :: Program where
  "empty_program = \<lparr>prog_imports = [], prog_functions = [], prog_statements = []\<rparr>"

text \<open>The loop of \<open>ParseProgram\<close>, with the program built so far.\<close>

fun parse_program_loop :: "nat \<Rightarrow> Program \<Rightarrow> Token list \<Rightarrow> (string, Program) exec" where
  "parse_program_loop 0 p toks = OutOfFuel"
| "parse_program_loop (Suc n) p toks =
     ebind (Parser_Check kEndOfFile toks) (\<lambda>eof.
     if eof then Ok p
     else ebind (Parser_Match kImport toks) (\<lambda>(m, toks1). case m of
       Some t \<Rightarrow> ebind (ParseImportDeclaration (t_loc t) toks1) (\<lambda>(d, toks2).
         parse_program_loop n (p\<lparr>prog_imports := prog_imports p @ [d]\<rparr>) toks2)
     | None \<Rightarrow>
         ebind (IsFunctionDeclarationStart toks1) (\<lambda>fn.
         if fn then ebind (ParseFunctionDeclaration n toks1) (\<lambda>(f, toks2).
           parse_program_loop n (p\<lparr>prog_functions := prog_functions p @ [f]\<rparr>) toks2)
         else ebind (ParseStatement n toks1) (\<lambda>(s, toks2).
           ebind (ConsumeOptionalSemicolon toks2) (\<lambda>toks3.
           parse_program_loop n (p\<lparr>prog_statements := prog_statements p @ [s]\<rparr>) toks3)))))"

definition ParseProgram :: "Token list \<Rightarrow> (string, Program) exec" where
  "ParseProgram toks = parse_program_loop (length toks + 2) empty_program toks"

section \<open>Evaluation of the token primitives\<close>

lemma Parser_prims_Nil [simp]:
  "Parser_Peek [] = Undef" "Parser_Check k [] = Undef" "Parser_Advance [] = Undef"
  "Parser_Match k [] = Undef" "Parser_Expect k msg [] = Undef"
  by (simp_all add: Parser_Peek_def Parser_Check_def Parser_Advance_def Parser_Match_def
      Parser_Expect_def rd_def)

lemma Parser_Peek_Cons [simp]: "Parser_Peek (t # ts) = Ok t"
  by (simp add: Parser_Peek_def)

lemma Parser_Check_Cons [simp]: "Parser_Check k (t # ts) = Ok (t_kind t = k)"
  by (simp add: Parser_Check_def)

lemma Parser_Advance_Cons [simp]:
  "Parser_Advance (t # ts) = (if t_kind t = kEndOfFile then Undef else Ok (t, ts))"
  by (simp add: Parser_Advance_def)

lemma Parser_Match_Cons [simp]:
  "k \<noteq> kEndOfFile \<Longrightarrow>
   Parser_Match k (t # ts) = (if t_kind t = k then Ok (Some t, ts) else Ok (None, t # ts))"
  by (simp add: Parser_Match_def)

lemma Parser_Expect_Cons [simp]:
  "k \<noteq> kEndOfFile \<Longrightarrow> Parser_Expect k msg (t # ts) =
     (if t_kind t = k then Ok (t, ts) else Fail (ParserError (t_loc t) msg))"
  by (simp add: Parser_Expect_def)

lemma Parser_Expect_eq_Ok [simp]:
  "k \<noteq> kEndOfFile \<Longrightarrow>
   Parser_Expect k msg toks = Ok (t, rest) \<longleftrightarrow> toks = t # rest \<and> t_kind t = k"
  by (cases toks) auto

lemma Parser_Match_eq_Ok:
  "k \<noteq> kEndOfFile \<Longrightarrow> Parser_Match k toks = Ok (m, rest) \<longleftrightarrow>
   (\<exists>t ts. toks = t # ts \<and> (if t_kind t = k then m = Some t \<and> rest = ts else m = None \<and> rest = toks))"
  by (cases toks) auto

lemma ConsumeOptionalSemicolon_Nil [simp]: "ConsumeOptionalSemicolon [] = Undef"
  by (simp add: ConsumeOptionalSemicolon_def)

lemma ConsumeOptionalSemicolon_Cons [simp]:
  "ConsumeOptionalSemicolon (t # ts) = Ok (if t_kind t = kSemicolon then ts else t # ts)"
  by (simp add: ConsumeOptionalSemicolon_def)

text \<open>\<open>ParseExpression\<close> decides by the kind of the next token.\<close>

definition after_identifier :: "nat \<Rightarrow> Token \<Rightarrow> Expression parser" where
  "after_identifier n t toks =
     ebind (Parser_Match kColon toks) (\<lambda>(m, toks'). case m of
       Some c \<Rightarrow>
         ebind (Parser_Expect kIdentifier (''expected method name after '' @ quoted '':'') toks')
           (\<lambda>(callee, toks''). ParseCallExpression n (t_loc t) (Some (t_text t)) (t_text callee) toks'')
     | None \<Rightarrow>
         ebind (Parser_Check kLParen toks') (\<lambda>call.
           if call then ParseCallExpression n (t_loc t) None (t_text t) toks'
           else Ok (EIdentifier (t_loc t) (t_text t), toks')))"

lemma ParseExpression_Nil [simp]: "ParseExpression (Suc n) [] = Undef"
  by (simp add: ParseExpression.simps)

lemma ParseExpression_Cons:
  "ParseExpression (Suc n) (t # ts) =
     (if t_kind t = kNumber then
        (case stoll (t_text t) of None \<Rightarrow> Fail ''stoll'' | Some v \<Rightarrow> Ok (ENumber (t_loc t) v, ts))
      else if t_kind t = kString then Ok (EString (t_loc t) (t_text t), ts)
      else if t_kind t = kLBrace then ParseMapExpression n (t_loc t) ts
      else if t_kind t = kIdentifier then after_identifier n t ts
      else Fail (ParserError (t_loc t) ''expected expression''))"
  by (simp add: ParseExpression.simps after_identifier_def)

section \<open>The grammar\<close>

fun is_method_call :: "Expression \<Rightarrow> bool" where
  "is_method_call (ECall l (Some r) c args) = True"
| "is_method_call e = False"

text \<open>
  The declarative grammar: which token sequences an expression can be written as. A positional
  argument cannot be a method call, because \<open>name :\<close> in argument position starts a named argument.
\<close>

inductive expr_toks :: "Expression \<Rightarrow> Token list \<Rightarrow> bool"
  and map_toks :: "(string \<times> Expression) list \<Rightarrow> Token list \<Rightarrow> bool"
  and arg_toks :: "string option \<times> Expression \<Rightarrow> Token list \<Rightarrow> bool"
  and args_toks :: "(string option \<times> Expression) list \<Rightarrow> Token list \<Rightarrow> bool" where
  number: "t_kind t = kNumber \<Longrightarrow> stoll (t_text t) = Some v \<Longrightarrow> expr_toks (ENumber (t_loc t) v) [t]"
| str: "t_kind t = kString \<Longrightarrow> expr_toks (EString (t_loc t) (t_text t)) [t]"
| ident: "t_kind t = kIdentifier \<Longrightarrow> expr_toks (EIdentifier (t_loc t) (t_text t)) [t]"
| map_empty: "t_kind lb = kLBrace \<Longrightarrow> t_kind rb = kRBrace \<Longrightarrow> expr_toks (EMap (t_loc lb) []) [lb, rb]"
| map_entries: "t_kind lb = kLBrace \<Longrightarrow> map_toks es us \<Longrightarrow> t_kind rb = kRBrace \<Longrightarrow>
    expr_toks (EMap (t_loc lb) es) (lb # us @ [rb])"
| call_empty: "t_kind t = kIdentifier \<Longrightarrow> t_kind lp = kLParen \<Longrightarrow> t_kind rp = kRParen \<Longrightarrow>
    expr_toks (ECall (t_loc t) None (t_text t) []) [t, lp, rp]"
| call_args: "t_kind t = kIdentifier \<Longrightarrow> t_kind lp = kLParen \<Longrightarrow> args_toks args us \<Longrightarrow> t_kind rp = kRParen \<Longrightarrow>
    expr_toks (ECall (t_loc t) None (t_text t) args) (t # lp # us @ [rp])"
| method_empty: "t_kind t = kIdentifier \<Longrightarrow> t_kind c = kColon \<Longrightarrow> t_kind m = kIdentifier \<Longrightarrow>
    t_kind lp = kLParen \<Longrightarrow> t_kind rp = kRParen \<Longrightarrow>
    expr_toks (ECall (t_loc t) (Some (t_text t)) (t_text m) []) [t, c, m, lp, rp]"
| method_args: "t_kind t = kIdentifier \<Longrightarrow> t_kind c = kColon \<Longrightarrow> t_kind m = kIdentifier \<Longrightarrow>
    t_kind lp = kLParen \<Longrightarrow> args_toks args us \<Longrightarrow> t_kind rp = kRParen \<Longrightarrow>
    expr_toks (ECall (t_loc t) (Some (t_text t)) (t_text m) args) (t # c # m # lp # us @ [rp])"
| map_last: "t_kind k = kString \<or> t_kind k = kIdentifier \<Longrightarrow> t_kind c = kColon \<Longrightarrow> expr_toks e us \<Longrightarrow>
    map_toks [(t_text k, e)] (k # c # us)"
| map_more: "t_kind k = kString \<or> t_kind k = kIdentifier \<Longrightarrow> t_kind c = kColon \<Longrightarrow> expr_toks e us \<Longrightarrow>
    t_kind m = kComma \<Longrightarrow> map_toks es vs \<Longrightarrow> map_toks ((t_text k, e) # es) (k # c # us @ m # vs)"
| arg_named: "t_kind t = kIdentifier \<Longrightarrow> t_kind c = kColon \<Longrightarrow> expr_toks e us \<Longrightarrow>
    arg_toks (Some (t_text t), e) (t # c # us)"
| arg_positional: "expr_toks e us \<Longrightarrow> \<not> is_method_call e \<Longrightarrow> arg_toks (None, e) us"
| args_last: "arg_toks a us \<Longrightarrow> args_toks [a] us"
| args_more: "arg_toks a us \<Longrightarrow> t_kind m = kComma \<Longrightarrow> args_toks as vs \<Longrightarrow> args_toks (a # as) (us @ m # vs)"

lemma ParseMapExpression_Ok:
  assumes "ParseMapExpression n l toks = Ok (e, rest)" "t_kind lb = kLBrace" "t_loc lb = l"
    and "\<And>toks es rest. parse_map_loop n toks = Ok (es, rest) \<Longrightarrow> \<exists>us. toks = us @ rest \<and> map_toks es us"
  shows "\<exists>us. lb # toks = us @ rest \<and> expr_toks e us"
proof (cases toks)
  case (Cons t ts)
  show ?thesis
  proof (cases "t_kind t = kRBrace")
    case True
    with assms(1-3) Cons map_empty [of lb t] show ?thesis
      by (auto simp: ParseMapExpression.simps intro!: exI [of _ "[lb, t]"])
  next
    case False
    with assms(1) Cons obtain es rb where m: "parse_map_loop n toks = Ok (es, rb # rest)"
      "t_kind rb = kRBrace" "e = EMap l es"
      by (auto simp: ParseMapExpression.simps)
    from assms(4) [OF m(1)] obtain us where "toks = us @ rb # rest" "map_toks es us" by blast
    with m assms(2,3) map_entries [of lb es us rb] show ?thesis
      by (auto intro!: exI [of _ "lb # us @ [rb]"])
  qed
qed (use assms(1) in \<open>simp add: ParseMapExpression.simps\<close>)

lemma ParseCallExpression_Ok:
  assumes "ParseCallExpression n l r c toks = Ok (e, rest)"
    and "\<And>toks es rest. parse_args_loop n toks = Ok (es, rest) \<Longrightarrow> \<exists>us. toks = us @ rest \<and> args_toks es us"
  shows "\<exists>lp us rp args. toks = lp # us @ rp # rest \<and> t_kind lp = kLParen \<and> t_kind rp = kRParen \<and>
    e = ECall l r c args \<and> (us = [] \<and> args = [] \<or> args_toks args us)"
proof -
  from assms(1) obtain lp toks1 where t: "toks = lp # toks1" "t_kind lp = kLParen"
    by (auto simp: ParseCallExpression.simps)
  show ?thesis
  proof (cases toks1)
    case (Cons t ts)
    show ?thesis
    proof (cases "t_kind t = kRParen")
      case True
      with assms(1) t Cons show ?thesis
        by (auto simp: ParseCallExpression.simps intro!: exI [of _ "[]"])
    next
      case False
      with assms(1) t Cons obtain es rp where m: "parse_args_loop n toks1 = Ok (es, rp # rest)"
        "t_kind rp = kRParen" "e = ECall l r c es"
        by (auto simp: ParseCallExpression.simps)
      from assms(2) [OF m(1)] obtain us where "toks1 = us @ rp # rest" "args_toks es us" by blast
      with m t show ?thesis by (intro exI [of _ lp] exI [of _ us] exI [of _ rp] exI [of _ es]) auto
    qed
  qed (use assms(1) t in \<open>simp add: ParseCallExpression.simps\<close>)
qed

lemma after_identifier_Ok:
  assumes "after_identifier n t toks = Ok (e, rest)" "t_kind t = kIdentifier"
    and "\<And>toks es rest. parse_args_loop n toks = Ok (es, rest) \<Longrightarrow> \<exists>us. toks = us @ rest \<and> args_toks es us"
  shows "\<exists>us. t # toks = us @ rest \<and> expr_toks e us"
proof -
  from assms(1) obtain t1 ts where toks: "toks = t1 # ts"
    by (cases toks) (auto simp: after_identifier_def)
  consider (mcall) "t_kind t1 = kColon" | (call) "t_kind t1 = kLParen"
    | (var) "t_kind t1 \<noteq> kColon" "t_kind t1 \<noteq> kLParen" by blast
  then show ?thesis
  proof cases
    case mcall
    with assms(1) toks obtain m ts' where ts: "ts = m # ts'" "t_kind m = kIdentifier"
      and c: "ParseCallExpression n (t_loc t) (Some (t_text t)) (t_text m) ts' = Ok (e, rest)"
      by (auto simp: after_identifier_def)
    from ParseCallExpression_Ok [OF c assms(3)] obtain lp us rp args where
      "ts' = lp # us @ rp # rest" "t_kind lp = kLParen" "t_kind rp = kRParen"
      "e = ECall (t_loc t) (Some (t_text t)) (t_text m) args" "us = [] \<and> args = [] \<or> args_toks args us"
      by blast
    with mcall toks ts assms(2) show ?thesis
      by (intro exI [of _ "t # t1 # m # lp # us @ [rp]"]) (auto intro: expr_toks_map_toks_arg_toks_args_toks.intros)
  next
    case call
    with assms(1) toks have c: "ParseCallExpression n (t_loc t) None (t_text t) toks = Ok (e, rest)"
      by (auto simp: after_identifier_def)
    from ParseCallExpression_Ok [OF c assms(3)] obtain lp us rp args where
      "toks = lp # us @ rp # rest" "t_kind lp = kLParen" "t_kind rp = kRParen"
      "e = ECall (t_loc t) None (t_text t) args" "us = [] \<and> args = [] \<or> args_toks args us"
      by blast
    with assms(2) show ?thesis
      by (intro exI [of _ "t # lp # us @ [rp]"]) (auto intro: expr_toks_map_toks_arg_toks_args_toks.intros)
  next
    case var
    with assms(1,2) toks ident [of t] show ?thesis by (auto simp: after_identifier_def)
  qed
qed

text \<open>One turn of each loop: an argument, an entry of an object literal, and what follows it.\<close>

definition named_start :: "Token list \<Rightarrow> bool" where
  "named_start toks \<longleftrightarrow> 2 \<le> length toks \<and> t_kind (toks ! 0) = kIdentifier \<and> t_kind (toks ! 1) = kColon"

definition parse_arg :: "nat \<Rightarrow> (string option \<times> Expression) parser" where
  "parse_arg n toks =
     (if toks = [] then Undef
      else if named_start toks
      then ebind (ParseExpression n (drop 2 toks)) (\<lambda>(e, r). Ok ((Some (t_text (hd toks)), e), r))
      else ebind (ParseExpression n toks) (\<lambda>(e, r). Ok ((None, e), r)))"

definition parse_entry :: "nat \<Rightarrow> (string \<times> Expression) parser" where
  "parse_entry n toks =
     ebind (Parser_Peek toks) (\<lambda>key.
       if t_kind key \<noteq> kString \<and> t_kind key \<noteq> kIdentifier
       then Fail (ParserError (t_loc key) ''expected string or identifier key in object literal'')
       else
         ebind (Parser_Expect kColon (''expected '' @ quoted '':'' @ '' after object literal key'') (tl toks))
           (\<lambda>(c, toks').
         ebind (ParseExpression n toks') (\<lambda>(e, r). Ok ((t_text key, e), r))))"

definition comma_more :: "'a list parser \<Rightarrow> 'a \<Rightarrow> 'a list parser" where
  "comma_more loop a toks =
     ebind (Parser_Match kComma toks) (\<lambda>(m, toks'). case m of
       None \<Rightarrow> Ok ([a], toks')
     | Some t \<Rightarrow> ebind (loop toks') (\<lambda>(as, r). Ok (a # as, r)))"

lemma parse_args_loop_Suc:
  "parse_args_loop (Suc n) toks =
     ebind (parse_arg n toks) (\<lambda>(a, toks'). comma_more (parse_args_loop n) a toks')"
proof (cases toks rule: list.exhaust [case_product list.exhaust [of "tl toks"]])
  case (Cons_Cons t ts t1 ts1)
  then show ?thesis
    by (auto simp: parse_args_loop.simps parse_arg_def named_start_def Parser_PeekAt_def comma_more_def
        ebind_assoc split_beta cong: ebind_cong option.case_cong)
next
  case (Cons_Nil t ts)
  then show ?thesis
    by (auto simp: parse_args_loop.simps parse_arg_def named_start_def Parser_PeekAt_def comma_more_def
        ebind_assoc split_beta cong: ebind_cong option.case_cong)
qed (simp_all add: parse_args_loop.simps parse_arg_def)

lemma parse_map_loop_Suc:
  "parse_map_loop (Suc n) toks =
     ebind (parse_entry n toks) (\<lambda>(a, toks'). comma_more (parse_map_loop n) a toks')"
  by (cases toks)
     (auto simp: parse_map_loop.simps parse_entry_def comma_more_def ebind_assoc split_beta
       cong: ebind_cong option.case_cong)

lemma comma_more_eq_Ok:
  "comma_more loop a toks = Ok (as, rest) \<longleftrightarrow>
   (\<exists>t ts. toks = t # ts \<and>
     (if t_kind t = kComma then \<exists>as'. loop ts = Ok (as', rest) \<and> as = a # as'
      else as = [a] \<and> rest = toks))"
  by (cases toks) (auto simp: comma_more_def)

lemma parse_arg_eq_Ok:
  "parse_arg n toks = Ok (a, rest) \<longleftrightarrow>
   (if named_start toks
    then \<exists>t c ts e. toks = t # c # ts \<and> t_kind t = kIdentifier \<and> t_kind c = kColon \<and>
      ParseExpression n ts = Ok (e, rest) \<and> a = (Some (t_text t), e)
    else toks \<noteq> [] \<and> (\<exists>e. ParseExpression n toks = Ok (e, rest) \<and> a = (None, e)))"
proof (cases toks)
  case (Cons t ts)
  then show ?thesis by (cases ts) (auto simp: parse_arg_def named_start_def)
qed (simp add: parse_arg_def named_start_def)

lemma parse_entry_eq_Ok:
  "parse_entry n toks = Ok (a, rest) \<longleftrightarrow>
   (\<exists>k c ts e. toks = k # c # ts \<and> (t_kind k = kString \<or> t_kind k = kIdentifier) \<and> t_kind c = kColon \<and>
      ParseExpression n ts = Ok (e, rest) \<and> a = (t_text k, e))"
  by (cases toks) (auto simp: parse_entry_def)

lemma method_call_starts:
  "expr_toks e us \<Longrightarrow> is_method_call e \<Longrightarrow> named_start us"
  by (cases rule: expr_toks.cases) (auto simp: named_start_def)

lemma map_toks_append:
  "map_toks [a] us \<Longrightarrow> t_kind m = kComma \<Longrightarrow> map_toks es vs \<Longrightarrow> map_toks (a # es) (us @ m # vs)"
  by (auto elim!: map_toks.cases [of "[a]"] intro: map_more) (auto elim: map_toks.cases [of "[]"])

lemma parse_entry_sound:
  assumes "parse_entry n toks = Ok (a, rest)"
    and ih: "\<And>toks e rest. ParseExpression n toks = Ok (e, rest) \<Longrightarrow> \<exists>us. toks = us @ rest \<and> expr_toks e us"
  shows "\<exists>us. toks = us @ rest \<and> map_toks [a] us"
proof -
  from assms(1) obtain k c ts e where k: "toks = k # c # ts" "t_kind k = kString \<or> t_kind k = kIdentifier"
    "t_kind c = kColon" "ParseExpression n ts = Ok (e, rest)" "a = (t_text k, e)"
    by (auto simp: parse_entry_eq_Ok)
  from ih [OF k(4)] obtain us where "ts = us @ rest" "expr_toks e us" by blast
  with k map_last [of k c e us] show ?thesis by (intro exI [of _ "k # c # us"]) auto
qed

lemma parse_arg_sound:
  assumes "parse_arg n toks = Ok (a, rest)"
    and ih: "\<And>toks e rest. ParseExpression n toks = Ok (e, rest) \<Longrightarrow> \<exists>us. toks = us @ rest \<and> expr_toks e us"
  shows "\<exists>us. toks = us @ rest \<and> arg_toks a us"
proof (cases "named_start toks")
  case True
  with assms(1) obtain t c ts e where t: "toks = t # c # ts" "t_kind t = kIdentifier" "t_kind c = kColon"
    "ParseExpression n ts = Ok (e, rest)" "a = (Some (t_text t), e)"
    by (auto simp: parse_arg_eq_Ok)
  from ih [OF t(4)] obtain us where "ts = us @ rest" "expr_toks e us" by blast
  with t arg_named [of t c e us] show ?thesis by (intro exI [of _ "t # c # us"]) auto
next
  case False
  with assms(1) obtain e where e: "ParseExpression n toks = Ok (e, rest)" "a = (None, e)"
    by (auto simp: parse_arg_eq_Ok)
  from ih [OF e(1)] obtain us where us: "toks = us @ rest" "expr_toks e us" by blast
  with False method_call_starts [of e us] have "\<not> is_method_call e"
    by (cases us; cases "tl us") (auto simp: named_start_def)
  with e us arg_positional [of e us] show ?thesis by blast
qed

lemma comma_more_sound:
  assumes "comma_more loop a toks = Ok (as, rest)" "G [a] us"
    and "\<And>ts as'. loop ts = Ok (as', rest) \<Longrightarrow> \<exists>vs. ts = vs @ rest \<and> G as' vs"
    and "\<And>m as' vs. t_kind m = kComma \<Longrightarrow> G as' vs \<Longrightarrow> G (a # as') (us @ m # vs)"
  shows "\<exists>ws. us @ toks = ws @ rest \<and> G as ws"
proof -
  from assms(1) obtain t ts where t: "toks = t # ts"
    "if t_kind t = kComma then \<exists>as'. loop ts = Ok (as', rest) \<and> as = a # as' else as = [a] \<and> rest = toks"
    by (auto simp: comma_more_eq_Ok)
  show ?thesis
  proof (cases "t_kind t = kComma")
    case True
    with t obtain as' where as': "as = a # as'" "loop ts = Ok (as', rest)" by auto
    from assms(3) [OF as'(2)] obtain vs where "ts = vs @ rest" "G as' vs" by blast

    with True t as'(1) assms(4) show ?thesis by (intro exI [of _ "us @ t # vs"]) auto
  next
    case False
    with t assms(2) show ?thesis by auto
  qed
qed

lemma parse_sound:
  shows "ParseExpression n toks = Ok (e, rest) \<Longrightarrow> \<exists>us. toks = us @ rest \<and> expr_toks e us"
    and "parse_map_loop n toks = Ok (es, rest) \<Longrightarrow> \<exists>us. toks = us @ rest \<and> map_toks es us"
    and "parse_args_loop n toks = Ok (as, rest) \<Longrightarrow> \<exists>us. toks = us @ rest \<and> args_toks as us"
proof (induction n arbitrary: toks rest e es as)
  case (Suc n)
  note ih = Suc.IH
  {
    case 1
    then obtain t ts where toks: "toks = t # ts" by (cases toks) auto
    consider "t_kind t = kNumber" | "t_kind t = kString" | "t_kind t = kLBrace" | "t_kind t = kIdentifier"
      using 1 toks by (auto simp: ParseExpression_Cons split: if_splits)
    then show ?case
    proof cases
      case 3
      with 1 toks ParseMapExpression_Ok [OF _ _ refl ih(2)] show ?thesis
        by (auto simp: ParseExpression_Cons)
    next
      case 4
      with 1 toks after_identifier_Ok [OF _ _ ih(3)] show ?thesis
        by (auto simp: ParseExpression_Cons)
    qed (use 1 toks number str in \<open>fastforce simp: ParseExpression_Cons split: option.splits\<close>)+
  next
    case 2
    then obtain a toks1 where "parse_entry n toks = Ok (a, toks1)"
      and m: "comma_more (parse_map_loop n) a toks1 = Ok (es, rest)"
      by (auto simp: parse_map_loop_Suc)
    then obtain us where us: "toks = us @ toks1" "map_toks [a] us"
      using parse_entry_sound [OF _ ih(1)] by blast
    show ?case unfolding us(1)
      by (rule comma_more_sound [where G = map_toks, OF m us(2) ih(2)])
         (auto intro: map_toks_append [OF us(2)])
  next
    case 3
    then obtain a toks1 where "parse_arg n toks = Ok (a, toks1)"
      and m: "comma_more (parse_args_loop n) a toks1 = Ok (as, rest)"
      by (auto simp: parse_args_loop_Suc)
    then obtain us where us: "toks = us @ toks1" "arg_toks a us"
      using parse_arg_sound [OF _ ih(1)] by blast
    show ?case unfolding us(1)
      by (rule comma_more_sound [where G = args_toks, OF m args_last [OF us(2)] ih(3)])
         (auto intro: args_more [OF us(2)])
  }
qed (simp_all add: ParseExpression.simps parse_map_loop.simps parse_args_loop.simps)

section \<open>Safety and termination\<close>

text \<open>The suffixes of a token vector: the last token, and only it, is the end-of-file token.\<close>

definition wf_toks :: "Token list \<Rightarrow> bool" where
  "wf_toks toks \<longleftrightarrow> toks \<noteq> [] \<and> t_kind (last toks) = kEndOfFile \<and>
     list_all (\<lambda>t. t_kind t \<noteq> kEndOfFile) (butlast toks)"

lemma wf_toks_Nil [simp]: "\<not> wf_toks []"
  by (simp add: wf_toks_def)

lemma wf_toks_Cons: "wf_toks (t # ts) \<longleftrightarrow> (if t_kind t = kEndOfFile then ts = [] else wf_toks ts)"
  by (auto simp: wf_toks_def)

lemma wf_toks_tl [simp]: "wf_toks (t # ts) \<Longrightarrow> t_kind t \<noteq> kEndOfFile \<Longrightarrow> wf_toks ts"
  by (simp add: wf_toks_Cons)

lemma wf_toks_append:
  "wf_toks (us @ ts) \<Longrightarrow> list_all (\<lambda>t. t_kind t \<noteq> kEndOfFile) us \<Longrightarrow> wf_toks ts"
  by (induction us) (auto simp: wf_toks_Cons)

lemma grammar_toks:
  shows "expr_toks e us \<Longrightarrow> us \<noteq> [] \<and> list_all (\<lambda>t. t_kind t \<noteq> kEndOfFile) us"
    and "map_toks es us \<Longrightarrow> us \<noteq> [] \<and> list_all (\<lambda>t. t_kind t \<noteq> kEndOfFile) us"
    and "arg_toks a us \<Longrightarrow> us \<noteq> [] \<and> list_all (\<lambda>t. t_kind t \<noteq> kEndOfFile) us"
    and "args_toks as us \<Longrightarrow> us \<noteq> [] \<and> list_all (\<lambda>t. t_kind t \<noteq> kEndOfFile) us"
  by (induction rule: expr_toks_map_toks_arg_toks_args_toks.inducts) auto

lemma wf_toks_after:
  "ParseExpression n toks = Ok (e, rest) \<Longrightarrow> wf_toks toks \<Longrightarrow> wf_toks rest \<and> length rest < length toks"
  "parse_map_loop n toks = Ok (es, rest) \<Longrightarrow> wf_toks toks \<Longrightarrow> wf_toks rest \<and> length rest < length toks"
  "parse_args_loop n toks = Ok (as, rest) \<Longrightarrow> wf_toks toks \<Longrightarrow> wf_toks rest \<and> length rest < length toks"
proof -
  have *: "wf_toks rest \<and> length rest < length toks"
    if "\<exists>us. toks = us @ rest \<and> G us" "\<And>us. G us \<Longrightarrow> us \<noteq> [] \<and> list_all (\<lambda>t. t_kind t \<noteq> kEndOfFile) us"
      "wf_toks toks" for G :: "Token list \<Rightarrow> bool"
    using that by (auto dest: wf_toks_append)
  show "ParseExpression n toks = Ok (e, rest) \<Longrightarrow> wf_toks toks \<Longrightarrow> wf_toks rest \<and> length rest < length toks"
    by (rule * [OF parse_sound(1) grammar_toks(1)])
  show "parse_map_loop n toks = Ok (es, rest) \<Longrightarrow> wf_toks toks \<Longrightarrow> wf_toks rest \<and> length rest < length toks"
    by (rule * [OF parse_sound(2) grammar_toks(2)])
  show "parse_args_loop n toks = Ok (as, rest) \<Longrightarrow> wf_toks toks \<Longrightarrow> wf_toks rest \<and> length rest < length toks"
    by (rule * [OF parse_sound(3) grammar_toks(4)])
qed

lemma wf_toks_Expect: "wf_toks toks \<Longrightarrow> k \<noteq> kEndOfFile \<Longrightarrow> returns (Parser_Expect k msg toks)"
  by (cases toks) auto

lemma comma_more_returns:
  assumes "wf_toks toks" "\<And>t ts. toks = t # ts \<Longrightarrow> wf_toks ts \<Longrightarrow> returns (loop ts)"
  shows "returns (comma_more loop a toks)"
  using assms by (cases toks) (auto simp: comma_more_def)

lemma ParseMapExpression_returns:
  assumes "wf_toks toks" "returns (parse_map_loop n toks)"
  shows "returns (ParseMapExpression n l toks)"
  using assms wf_toks_after(2) [of n toks]
  by (cases toks) (auto simp: ParseMapExpression.simps intro!: returns_ebind wf_toks_Expect)

lemma ParseCallExpression_returns:
  assumes "wf_toks toks" "\<And>t ts. toks = t # ts \<Longrightarrow> wf_toks ts \<Longrightarrow> returns (parse_args_loop n ts)"
  shows "returns (ParseCallExpression n l r c toks)"
proof (cases toks)
  case (Cons t ts)
  show ?thesis
  proof (cases "t_kind t = kLParen")
    case True
    with Cons assms have ts: "wf_toks ts" "returns (parse_args_loop n ts)" by auto
    then show ?thesis using Cons True wf_toks_after(3) [of n ts]
      by (cases ts) (auto simp: ParseCallExpression.simps intro!: returns_ebind wf_toks_Expect)
  qed (simp add: Cons ParseCallExpression.simps)
qed (use assms in simp)

lemma after_identifier_returns:
  assumes "wf_toks toks" "\<And>ts. wf_toks ts \<Longrightarrow> length ts < length toks \<Longrightarrow> returns (parse_args_loop n ts)"
  shows "returns (after_identifier n t toks)"
proof -
  obtain t1 ts where toks: "toks = t1 # ts" using assms(1) by (cases toks) auto
  have c: "returns (ParseCallExpression n l r c ts')" if "wf_toks ts'" "length ts' \<le> length toks" for l r c ts'
    using that assms(2) by (intro ParseCallExpression_returns) auto
  show ?thesis
  proof (cases "t_kind t1 = kColon")
    case True
    with toks assms(1) have "wf_toks ts" by simp
    then obtain t2 ts2 where "ts = t2 # ts2" by (cases ts) auto
    with True toks \<open>wf_toks ts\<close> show ?thesis by (auto simp: after_identifier_def intro!: c)
  next
    case False
    with toks assms(1) show ?thesis by (auto simp: after_identifier_def intro!: c)
  qed
qed

lemma parse_returns:
  shows "wf_toks toks \<Longrightarrow> length toks < n \<Longrightarrow> returns (ParseExpression n toks)"
    and "wf_toks toks \<Longrightarrow> length toks < n \<Longrightarrow> returns (parse_map_loop n toks)"
    and "wf_toks toks \<Longrightarrow> length toks + 1 < n \<Longrightarrow> returns (parse_args_loop n toks)"
proof (induction n arbitrary: toks)
  case (Suc n)
  {
    case 1
    then obtain t ts where toks: "toks = t # ts" by (cases toks) auto
    have "returns (ParseMapExpression n l ts)" "returns (after_identifier n t ts)"
      if "t_kind t \<noteq> kEndOfFile" for l
      using that 1 toks
      by (auto intro!: ParseMapExpression_returns after_identifier_returns Suc.IH)
    with toks show ?case by (auto simp: ParseExpression_Cons split: option.split)
  next
    case 2
    then obtain k ts where toks: "toks = k # ts" by (cases toks) auto
    have "returns (parse_entry n toks)"
    proof (cases "t_kind k = kString \<or> t_kind k = kIdentifier")
      case True
      with 2 toks have "wf_toks ts" by auto
      with True 2 toks show ?thesis
        by (cases ts) (auto simp: parse_entry_def wf_toks_Cons intro!: returns_ebind Suc.IH)
    qed (auto simp: toks parse_entry_def)
    moreover have "wf_toks toks' \<and> length toks' < length toks"
      if "parse_entry n toks = Ok (a, toks')" for a toks'
      using parse_entry_sound [OF that parse_sound(1) [of n]] 2(1)
      by (auto dest: grammar_toks(2) wf_toks_append)
    ultimately show ?case using 2
      by (auto simp: parse_map_loop_Suc intro!: returns_ebind comma_more_returns Suc.IH)
  next
    case 3
    have "returns (parse_arg n toks)"
    proof (cases "named_start toks")
      case True
      then obtain t c ts where "toks = t # c # ts" "t_kind t \<noteq> kEndOfFile" "t_kind c \<noteq> kEndOfFile"
        by (cases toks; cases "tl toks") (auto simp: named_start_def)
      with True 3 show ?thesis by (auto simp: parse_arg_def wf_toks_Cons intro!: returns_ebind Suc.IH)
    qed (use 3 in \<open>auto simp: parse_arg_def intro!: returns_ebind Suc.IH\<close>)
    moreover have "wf_toks toks' \<and> length toks' < length toks"
      if "parse_arg n toks = Ok (a, toks')" for a toks'
      using parse_arg_sound [OF that parse_sound(1) [of n]] 3(1)
      by (auto dest: grammar_toks(3) wf_toks_append)
    ultimately show ?case using 3
      by (auto simp: parse_args_loop_Suc intro!: returns_ebind comma_more_returns Suc.IH)
  }
qed simp_all

section \<open>Grammar of statements and programs\<close>

definition opt_semi :: "Token list \<Rightarrow> bool" where
  "opt_semi us \<longleftrightarrow> us = [] \<or> (\<exists>t. us = [t] \<and> t_kind t = kSemicolon)"

inductive stmt_toks :: "Statement \<Rightarrow> Token list \<Rightarrow> bool" where
  assign: "t_kind l = kLocal \<Longrightarrow> t_kind x = kIdentifier \<Longrightarrow> t_kind q = kEqual \<Longrightarrow> expr_toks e us \<Longrightarrow>
    stmt_toks (LocalAssignment (t_loc l) (t_text x) e) (l # x # q # us)"
| expr: "expr_toks e (t # us) \<Longrightarrow> stmt_toks (ExpressionStatement (t_loc t) e) (t # us)"

inductive body_toks :: "Statement list \<Rightarrow> Token list \<Rightarrow> bool" where
  body_nil: "body_toks [] []"
| body_cons: "stmt_toks s us \<Longrightarrow> opt_semi ss \<Longrightarrow> body_toks bs vs \<Longrightarrow> body_toks (s # bs) (us @ ss @ vs)"

inductive import_toks :: "ImportDeclaration \<Rightarrow> Token list \<Rightarrow> bool" where
  "t_kind i = kImport \<Longrightarrow> t_kind lp = kLParen \<Longrightarrow> t_kind m = kString \<Longrightarrow> t_kind rp = kRParen \<Longrightarrow>
   t_kind a = kAs \<Longrightarrow> t_kind x = kIdentifier \<Longrightarrow> opt_semi ss \<Longrightarrow>
   import_toks \<lparr>import_loc = t_loc i, import_module = t_text m, import_alias = t_text x\<rparr>
     (i # lp # m # rp # a # x # ss)"

inductive function_toks :: "FunctionDeclaration \<Rightarrow> Token list \<Rightarrow> bool" where
  "as = [] \<or> (\<exists>t. as = [t] \<and> t_kind t = kAsync) \<Longrightarrow> t_kind f = kIdentifier \<Longrightarrow> t_kind lp = kLParen \<Longrightarrow>
   t_kind rp = kRParen \<Longrightarrow> t_kind ar = kArrow \<Longrightarrow> t_kind th = kThen \<Longrightarrow> t_kind lb = kLBrace \<Longrightarrow>
   body_toks bs us \<Longrightarrow> t_kind rb = kRBrace \<Longrightarrow> t_kind en = kEnd \<Longrightarrow> opt_semi ss \<Longrightarrow>
   function_toks \<lparr>function_loc = t_loc f, is_async = (as \<noteq> []), function_name = t_text f, function_body = bs\<rparr>
     (as @ f # lp # rp # ar # th # lb # us @ rb # en # ss)"

text \<open>\<open>program_toks p toks p'\<close>: reading the tokens extends the program \<open>p\<close> to \<open>p'\<close>.\<close>

inductive program_toks :: "Program \<Rightarrow> Token list \<Rightarrow> Program \<Rightarrow> bool" where
  prog_eof: "t_kind t = kEndOfFile \<Longrightarrow> program_toks p [t] p"
| prog_import: "import_toks d us \<Longrightarrow> program_toks (p\<lparr>prog_imports := prog_imports p @ [d]\<rparr>) toks p' \<Longrightarrow>
    program_toks p (us @ toks) p'"
| prog_function: "function_toks f us \<Longrightarrow>
    program_toks (p\<lparr>prog_functions := prog_functions p @ [f]\<rparr>) toks p' \<Longrightarrow> program_toks p (us @ toks) p'"
| prog_statement: "stmt_toks s us \<Longrightarrow> opt_semi ss \<Longrightarrow>
    program_toks (p\<lparr>prog_statements := prog_statements p @ [s]\<rparr>) toks p' \<Longrightarrow>
    program_toks p (us @ ss @ toks) p'"

lemma ConsumeOptionalSemicolon_Ok:
  "ConsumeOptionalSemicolon toks = Ok rest \<Longrightarrow>
   \<exists>ss. toks = ss @ rest \<and> opt_semi ss \<and> (wf_toks toks \<longrightarrow> wf_toks rest)"
  by (cases toks) (auto simp: opt_semi_def split: if_splits)

lemma ParseStatement_Ok:
  assumes "ParseStatement n toks = Ok (s, rest)"
  shows "\<exists>us. toks = us @ rest \<and> stmt_toks s us"
proof -
  from assms obtain t ts where toks: "toks = t # ts" by (cases toks) (auto simp: ParseStatement_def)
  show ?thesis
  proof (cases "t_kind t = kLocal")
    case True
    with assms toks obtain x q ts' e where "ts = x # q # ts'" "t_kind x = kIdentifier" "t_kind q = kEqual"
      "ParseExpression n ts' = Ok (e, rest)" "s = LocalAssignment (t_loc t) (t_text x) e"
      by (auto simp: ParseStatement_def)
    moreover from this parse_sound(1) [of n ts' e rest] obtain us where "ts' = us @ rest" "expr_toks e us"
      by blast
    ultimately show ?thesis using True toks assign [of t x q e us]
      by (intro exI [of _ "t # x # q # us"]) auto
  next
    case False
    with assms toks obtain e where e: "ParseExpression n toks = Ok (e, rest)"
      "s = ExpressionStatement (t_loc t) e" by (auto simp: ParseStatement_def)
    from parse_sound(1) [OF e(1)] obtain us where us: "toks = us @ rest" "expr_toks e us" by blast
    with toks grammar_toks(1) [OF us(2)] e(2) expr [of e t "tl us"] show ?thesis
      by (cases us) auto
  qed
qed

lemma stmt_toks_wf: "stmt_toks s us \<Longrightarrow> us \<noteq> [] \<and> list_all (\<lambda>t. t_kind t \<noteq> kEndOfFile) us"
  by (induction rule: stmt_toks.induct) (auto dest: grammar_toks(1))

lemma wf_toks_ParseStatement:
  "ParseStatement n toks = Ok (s, rest) \<Longrightarrow> wf_toks toks \<Longrightarrow> wf_toks rest \<and> length rest < length toks"
  by (fastforce dest: ParseStatement_Ok stmt_toks_wf wf_toks_append)

lemma wf_toks_Consume:
  "ConsumeOptionalSemicolon toks = Ok rest \<Longrightarrow> wf_toks toks \<Longrightarrow> wf_toks rest \<and> length rest \<le> length toks"
  by (cases toks) (auto split: if_splits)

lemma Consume_returns: "wf_toks toks \<Longrightarrow> returns (ConsumeOptionalSemicolon toks)"
  by (cases toks) auto

lemma ParseStatement_returns:
  assumes "wf_toks toks" "length toks < n"
  shows "returns (ParseStatement n toks)"
proof -
  from assms obtain t ts where toks: "toks = t # ts" by (cases toks) auto
  show ?thesis
  proof (cases "t_kind t = kLocal")
    case True
    with assms toks have ts: "wf_toks ts" by simp
    have "returns (ebind (Parser_Expect kEqual m ts') (\<lambda>(t, toks3). ebind (ParseExpression n toks3) (\<lambda>(e, toks4).
        Ok (LocalAssignment l x e, toks4))))"
      if "wf_toks ts'" "length ts' < length ts" for m ts' l x
      using that assms toks by (cases ts') (auto intro!: returns_ebind parse_returns)
    with ts True toks show ?thesis
      by (cases ts) (auto simp: ParseStatement_def intro!: returns_ebind)
  next
    case False
    with assms toks show ?thesis
      by (auto simp: ParseStatement_def intro!: returns_ebind parse_returns)
  qed
qed

lemma parse_body_loop_Ok:
  "parse_body_loop n toks = Ok (bs, rest) \<Longrightarrow> \<exists>us. toks = us @ rest \<and> body_toks bs us"
proof (induction n arbitrary: toks bs)
  case (Suc n)
  from Suc.prems obtain t ts where toks: "toks = t # ts" by (cases toks) auto
  show ?case
  proof (cases "t_kind t = kRBrace \<or> t_kind t = kEndOfFile")
    case True
    with Suc.prems toks show ?thesis by (auto intro: body_nil)
  next
    case False
    with Suc.prems toks obtain s toks1 toks2 ss where
      s: "ParseStatement n toks = Ok (s, toks1)" and c: "ConsumeOptionalSemicolon toks1 = Ok toks2"
      and b: "parse_body_loop n toks2 = Ok (ss, rest)" and bs: "bs = s # ss" by auto
    from ParseStatement_Ok [OF s] ConsumeOptionalSemicolon_Ok [OF c] Suc.IH [OF b]
    obtain us vs ws where "toks = us @ toks1" "stmt_toks s us" "toks1 = vs @ toks2" "opt_semi vs"
      "toks2 = ws @ rest" "body_toks ss ws" by blast
    with bs show ?thesis by (intro exI [of _ "us @ vs @ ws"]) (auto intro: body_cons)
  qed
qed simp

lemma body_toks_wf: "body_toks bs us \<Longrightarrow> list_all (\<lambda>t. t_kind t \<noteq> kEndOfFile) us"
  by (induction rule: body_toks.induct) (auto simp: opt_semi_def dest: stmt_toks_wf)

lemma parse_body_loop_returns:
  "wf_toks toks \<Longrightarrow> length toks + 1 < n \<Longrightarrow> returns (parse_body_loop n toks)"
proof (induction n arbitrary: toks)
  case (Suc n)
  then obtain t ts where toks: "toks = t # ts" by (cases toks) auto
  have next_stmt: "returns (ebind (ConsumeOptionalSemicolon toks1) (\<lambda>toks2.
      ebind (parse_body_loop n toks2) (\<lambda>(ss, toks3). Ok (s # ss, toks3))))"
    if "ParseStatement n toks = Ok (s, toks1)" for s toks1
  proof (rule returns_ebind)
    have w: "wf_toks toks1" "length toks1 < length toks"
      using wf_toks_ParseStatement [OF that] Suc.prems by auto
    then show "returns (ConsumeOptionalSemicolon toks1)" by (intro Consume_returns)
    show "returns (ebind (parse_body_loop n toks2) (\<lambda>(ss, toks3). Ok (s # ss, toks3)))"
      if "ConsumeOptionalSemicolon toks1 = Ok toks2" for toks2
      using wf_toks_Consume [OF that w(1)] w(2) Suc.prems by (auto intro!: returns_ebind Suc.IH)
  qed
  with Suc.prems toks show ?case
    by (auto intro!: returns_ebind [OF ParseStatement_returns] next_stmt)
qed simp

lemma ParseImportDeclaration_Ok:
  assumes "ParseImportDeclaration (t_loc i) toks = Ok (d, rest)" "t_kind i = kImport"
  shows "\<exists>us. i # toks = us @ rest \<and> import_toks d us"
proof -
  from assms(1) obtain lp m rp a x toks1 where
    t: "toks = lp # m # rp # a # x # toks1" "t_kind lp = kLParen" "t_kind m = kString" "t_kind rp = kRParen"
      "t_kind a = kAs" "t_kind x = kIdentifier" and c: "ConsumeOptionalSemicolon toks1 = Ok rest"
      and d: "d = \<lparr>import_loc = t_loc i, import_module = t_text m, import_alias = t_text x\<rparr>"
    by (auto simp: ParseImportDeclaration_def)
  from ConsumeOptionalSemicolon_Ok [OF c] obtain ss where "toks1 = ss @ rest" "opt_semi ss" by blast
  with t d assms(2) show ?thesis
    by (intro exI [of _ "i # lp # m # rp # a # x # ss"]) (auto intro: import_toks.intros)
qed

lemma ParseFunctionDeclaration_Ok:
  assumes "ParseFunctionDeclaration n toks = Ok (f, rest)"
  shows "\<exists>us. toks = us @ rest \<and> function_toks f us"
proof -
  from assms obtain m toks1 where m: "Parser_Match kAsync toks = Ok (m, toks1)"
    by (auto simp: ParseFunctionDeclaration_def)
  then have as: "toks = (case m of None \<Rightarrow> [] | Some t \<Rightarrow> [t]) @ toks1"
    "case m of None \<Rightarrow> True | Some t \<Rightarrow> t_kind t = kAsync"
    by (auto simp: Parser_Match_eq_Ok split: if_splits)
  from assms m obtain nm lp rp ar th lb toks7 bs rb en toks10 where
    t: "toks1 = nm # lp # rp # ar # th # lb # toks7" "t_kind nm = kIdentifier" "t_kind lp = kLParen"
      "t_kind rp = kRParen" "t_kind ar = kArrow" "t_kind th = kThen" "t_kind lb = kLBrace"
    and b: "parse_body_loop n toks7 = Ok (bs, rb # en # toks10)"
    and e: "t_kind rb = kRBrace" "t_kind en = kEnd"
    and c: "ConsumeOptionalSemicolon toks10 = Ok rest"
    and f: "f = \<lparr>function_loc = t_loc nm, is_async = (m \<noteq> None), function_name = t_text nm, function_body = bs\<rparr>"
    by (auto simp: ParseFunctionDeclaration_def)
  from parse_body_loop_Ok [OF b] obtain us where us: "toks7 = us @ rb # en # toks10" "body_toks bs us" by blast
  from ConsumeOptionalSemicolon_Ok [OF c] obtain ss where ss: "toks10 = ss @ rest" "opt_semi ss" by blast
  let ?as = "case m of None \<Rightarrow> [] | Some t \<Rightarrow> [t]"
  have "function_toks \<lparr>function_loc = t_loc nm, is_async = (?as \<noteq> []), function_name = t_text nm,
      function_body = bs\<rparr> (?as @ nm # lp # rp # ar # th # lb # us @ rb # en # ss)"
    using as(2) t e us(2) ss(2) by (intro function_toks.intros) (auto split: option.splits)
  moreover have "?as \<noteq> [] \<longleftrightarrow> m \<noteq> None" by (cases m) auto
  ultimately show ?thesis using as(1) t(1) us(1) ss(1) f
    by (intro exI [of _ "?as @ nm # lp # rp # ar # th # lb # us @ rb # en # ss"]) simp
qed

lemma import_toks_wf: "import_toks d us \<Longrightarrow> us \<noteq> [] \<and> list_all (\<lambda>t. t_kind t \<noteq> kEndOfFile) us"
  by (induction rule: import_toks.induct) (auto simp: opt_semi_def)

lemma function_toks_wf: "function_toks f us \<Longrightarrow> us \<noteq> [] \<and> list_all (\<lambda>t. t_kind t \<noteq> kEndOfFile) us"
  by (induction rule: function_toks.induct) (auto simp: opt_semi_def dest: body_toks_wf)

lemma parse_program_loop_Ok:
  "parse_program_loop n p toks = Ok p' \<Longrightarrow> wf_toks toks \<Longrightarrow> program_toks p toks p'"
proof (induction n arbitrary: p toks)
  case (Suc n)
  then obtain t ts where toks: "toks = t # ts" by (cases toks) auto
  have IsF: "\<exists>b. IsFunctionDeclarationStart toks = Ok b"
    using toks by (simp add: IsFunctionDeclarationStart_def Parser_PeekAt_def Let_def)
  consider (eof) "t_kind t = kEndOfFile" | (imp) "t_kind t = kImport"
    | (fn) "t_kind t \<noteq> kEndOfFile" "t_kind t \<noteq> kImport" "IsFunctionDeclarationStart toks = Ok True"
    | (st) "t_kind t \<noteq> kEndOfFile" "t_kind t \<noteq> kImport" "IsFunctionDeclarationStart toks = Ok False"
    using IsF by (metis (full_types))
  then show ?case
  proof cases
    case eof
    with Suc.prems toks prog_eof [of t p] show ?thesis by (auto simp: wf_toks_Cons)
  next
    case imp
    with Suc.prems toks obtain d toks1 where d: "ParseImportDeclaration (t_loc t) ts = Ok (d, toks1)"
      and r: "parse_program_loop n (p\<lparr>prog_imports := prog_imports p @ [d]\<rparr>) toks1 = Ok p'" by auto
    from ParseImportDeclaration_Ok [OF d imp] obtain us where us: "toks = us @ toks1" "import_toks d us"
      using toks by blast
    with Suc.prems import_toks_wf have "wf_toks toks1" by (auto dest: wf_toks_append)
    from prog_import [OF us(2) Suc.IH [OF r this]] us(1) show ?thesis by simp
  next
    case fn
    with Suc.prems toks obtain f toks1 where f: "ParseFunctionDeclaration n toks = Ok (f, toks1)"
      and r: "parse_program_loop n (p\<lparr>prog_functions := prog_functions p @ [f]\<rparr>) toks1 = Ok p'" by auto
    from ParseFunctionDeclaration_Ok [OF f] obtain us where us: "toks = us @ toks1" "function_toks f us" by blast
    with Suc.prems function_toks_wf have "wf_toks toks1" by (auto dest: wf_toks_append)
    from prog_function [OF us(2) Suc.IH [OF r this]] us(1) show ?thesis by simp
  next
    case st
    with Suc.prems toks obtain s toks1 toks2 where s: "ParseStatement n toks = Ok (s, toks1)"
      and c: "ConsumeOptionalSemicolon toks1 = Ok toks2"
      and r: "parse_program_loop n (p\<lparr>prog_statements := prog_statements p @ [s]\<rparr>) toks2 = Ok p'" by auto
    from ParseStatement_Ok [OF s] obtain us where us: "toks = us @ toks1" "stmt_toks s us" by blast
    from ConsumeOptionalSemicolon_Ok [OF c] obtain ss where ss: "toks1 = ss @ toks2" "opt_semi ss" by blast
    from wf_toks_Consume [OF c] wf_toks_ParseStatement [OF s] Suc.prems have "wf_toks toks2" by blast
    from prog_statement [OF us(2) ss(2) Suc.IH [OF r this]] us(1) ss(1) show ?thesis by simp
  qed
qed simp

lemma Expect_bind_returns:
  assumes "wf_toks toks" "k \<noteq> kEndOfFile"
    and "\<And>t ts. toks = t # ts \<Longrightarrow> wf_toks ts \<Longrightarrow> returns (f (t, ts))"
  shows "returns (ebind (Parser_Expect k m toks) f)"
  using assms by (cases toks) auto

lemma ParseImportDeclaration_returns: "wf_toks toks \<Longrightarrow> returns (ParseImportDeclaration l toks)"
  unfolding ParseImportDeclaration_def
  by (auto intro!: Expect_bind_returns returns_ebind [OF Consume_returns])

lemma ParseFunctionDeclaration_returns:
  assumes "wf_toks toks" "length toks < n"
  shows "returns (ParseFunctionDeclaration n toks)"
proof -
  obtain t ts where toks: "toks = t # ts" using assms by (cases toks) auto
  have tail: "returns (ebind (Parser_Expect kRBrace m1 toks8) (\<lambda>(t, toks9).
      ebind (Parser_Expect kEnd m2 toks9) (\<lambda>(t, toks10).
      ebind (ConsumeOptionalSemicolon toks10) (\<lambda>toks11. Ok (fd, toks11)))))"
    if "wf_toks toks8" for m1 m2 toks8 and fd :: FunctionDeclaration
    using that by (auto intro!: Expect_bind_returns returns_ebind [OF Consume_returns])
  have body: "returns (ebind (parse_body_loop n toks7) (\<lambda>(body, toks8).
      ebind (Parser_Expect kRBrace m1 toks8) (\<lambda>(t, toks9).
      ebind (Parser_Expect kEnd m2 toks9) (\<lambda>(t, toks10).
      ebind (ConsumeOptionalSemicolon toks10) (\<lambda>toks11. Ok (fd body, toks11))))))"
    if "wf_toks toks7" "length toks7 + 1 < n" for m1 m2 toks7 and fd :: "Statement list \<Rightarrow> FunctionDeclaration"
  proof (rule returns_ebind [OF parse_body_loop_returns [OF that]])
    fix x assume "parse_body_loop n toks7 = Ok x"
    then have "wf_toks (snd x)" using parse_body_loop_Ok [of n toks7 "fst x" "snd x"] that(1)
      by (auto dest: wf_toks_append body_toks_wf)
    then show "returns (case x of (body, toks8) \<Rightarrow> ebind (Parser_Expect kRBrace m1 toks8) (\<lambda>(t, toks9).
      ebind (Parser_Expect kEnd m2 toks9) (\<lambda>(t, toks10).
      ebind (ConsumeOptionalSemicolon toks10) (\<lambda>toks11. Ok (fd body, toks11)))))"
      by (cases x) (simp add: tail)
  qed
  have head: "returns (case x of (async, toks1) \<Rightarrow> ebind (Parser_Peek toks1) (\<lambda>first.
     ebind (Parser_Expect kIdentifier m1 toks1) (\<lambda>(name, toks2).
     ebind (Parser_Expect kLParen m2 toks2) (\<lambda>(t, toks3).
     ebind (Parser_Expect kRParen m3 toks3) (\<lambda>(t, toks4).
     ebind (Parser_Expect kArrow m4 toks4) (\<lambda>(t, toks5).
     ebind (Parser_Expect kThen m5 toks5) (\<lambda>(t, toks6).
     ebind (Parser_Expect kLBrace m6 toks6) (\<lambda>(t, toks7). g async first name toks7))))))))"
    if "wf_toks (snd x)" "length (snd x) \<le> length toks"
      "\<And>async first name toks7. wf_toks toks7 \<Longrightarrow> length toks7 + 1 < n \<Longrightarrow> returns (g async first name toks7)"
    for x m1 m2 m3 m4 m5 m6 and g :: "Token option \<Rightarrow> Token \<Rightarrow> Token \<Rightarrow> FunctionDeclaration parser"
    using that assms(2) by (cases x; cases "snd x") (auto intro!: Expect_bind_returns)
  have m: "returns (Parser_Match kAsync toks)" using toks by simp
  have w: "wf_toks (snd x)" "length (snd x) \<le> length toks" if "Parser_Match kAsync toks = Ok x" for x
    using that toks assms(1) by (auto simp: wf_toks_Cons split: if_splits)
  show ?thesis unfolding ParseFunctionDeclaration_def
    by (rule returns_ebind [OF m], rule head, erule w, erule w, rule body)
qed

lemma parse_program_loop_returns:
  "wf_toks toks \<Longrightarrow> length toks + 1 < n \<Longrightarrow> returns (parse_program_loop n p toks)"
proof (induction n arbitrary: p toks)
  case (Suc n)
  then obtain t ts where toks: "toks = t # ts" by (cases toks) auto
  have after: "wf_toks r \<and> length r < length toks"
    if "\<exists>us. toks = us @ r \<and> G us" "\<And>us. G us \<Longrightarrow> us \<noteq> [] \<and> list_all (\<lambda>t. t_kind t \<noteq> kEndOfFile) us"
    for G :: "Token list \<Rightarrow> bool" and r
    using that Suc.prems(1) by (auto dest: wf_toks_append)
  have imp: "returns (ebind (ParseImportDeclaration (t_loc t) ts) (\<lambda>(d, toks2). parse_program_loop n (p' d) toks2))"
    if "t_kind t = kImport" for p'
  proof (rule returns_ebind)
    show "returns (ParseImportDeclaration (t_loc t) ts)"
      using that Suc.prems toks by (intro ParseImportDeclaration_returns) simp
    show "returns (case x of (d, toks2) \<Rightarrow> parse_program_loop n (p' d) toks2)"
      if "ParseImportDeclaration (t_loc t) ts = Ok x" for x
    proof (cases x)
      case (Pair d r)
      with that ParseImportDeclaration_Ok [of t ts d r] \<open>t_kind t = kImport\<close> toks
      have "wf_toks r \<and> length r < length toks" by (intro after [OF _ import_toks_wf]) auto
      with Pair Suc.prems show ?thesis by (auto intro!: Suc.IH)
    qed
  qed
  have fn: "returns (ebind (ParseFunctionDeclaration n toks) (\<lambda>(f, toks2). parse_program_loop n (p' f) toks2))"
    for p'
  proof (rule returns_ebind)
    show "returns (ParseFunctionDeclaration n toks)"
      using Suc.prems by (intro ParseFunctionDeclaration_returns) auto
    show "returns (case x of (f, toks2) \<Rightarrow> parse_program_loop n (p' f) toks2)"
      if "ParseFunctionDeclaration n toks = Ok x" for x
    proof (cases x)
      case (Pair f r)
      with that ParseFunctionDeclaration_Ok [of n toks f r]
      have "wf_toks r \<and> length r < length toks" by (intro after [OF _ function_toks_wf]) auto
      with Pair Suc.prems show ?thesis by (auto intro!: Suc.IH)
    qed
  qed
  have st: "returns (ebind (ParseStatement n toks) (\<lambda>(s, toks2).
      ebind (ConsumeOptionalSemicolon toks2) (\<lambda>toks3. parse_program_loop n (p' s) toks3)))" for p'
  proof (rule returns_ebind)
    show "returns (ParseStatement n toks)" using Suc.prems by (intro ParseStatement_returns) auto
    show "returns (case x of (s, toks2) \<Rightarrow>
        ebind (ConsumeOptionalSemicolon toks2) (\<lambda>toks3. parse_program_loop n (p' s) toks3))"
      if "ParseStatement n toks = Ok x" for x
    proof (cases x)
      case (Pair s r)
      with that Suc.prems wf_toks_ParseStatement have r: "wf_toks r" "length r < length toks" by auto
      have "returns (parse_program_loop n (p' s) r')" if "ConsumeOptionalSemicolon r = Ok r'" for r'
        using wf_toks_Consume [OF that r(1)] r(2) Suc.prems by (intro Suc.IH) auto
      with Pair r(1) show ?thesis by (auto intro!: returns_ebind [OF Consume_returns])
    qed
  qed
  have "\<exists>b. IsFunctionDeclarationStart toks = Ok b"
    using toks by (simp add: IsFunctionDeclarationStart_def Parser_PeekAt_def Let_def)
  then show ?case using imp fn st toks by auto
qed simp

text \<open>
  C18. The parser is total and memory safe: on every token vector that the lexer yields it returns
  a program or a \<open>ParserError\<close>; it never reads outside the vector and terminates.
\<close>

theorem ParseProgram_returns:
  assumes "Script_Tokenize source = Ok toks"
  shows "returns (ParseProgram toks)"
proof -
  from sl.ends_with_eof [OF assms] have "wf_toks toks" by (auto simp: wf_toks_def list_all_iff)
  then show ?thesis unfolding ParseProgram_def by (intro parse_program_loop_returns) auto
qed

theorem ParseProgram_returns_witness:
  "\<exists>toks. Script_Tokenize '')'' = Ok toks \<and> returns (ParseProgram toks) \<and>
     ParseProgram toks = Fail ''1:1: expected expression''"
proof -
  let ?toks = "[mk_tok kRParen '')'' \<lparr>line = 1, column = 1\<rparr>, mk_tok kEndOfFile [] \<lparr>line = 1, column = 2\<rparr>]"
  have t: "Script_Tokenize '')'' = Ok ?toks" by code_simp
  have p: "ParseProgram ?toks = Fail ''1:1: expected expression''" by code_simp
  from t ParseProgram_returns [OF t] p show ?thesis by (intro exI conjI)
qed

end
