(* ===== verification/XerScriptGrammar.thy ===== *)
theory XerScriptGrammar
  imports XerScriptParser
begin

text \<open>
  The parser of the script interpreter accepts exactly the declarative grammar of theory
  \<open>XerScriptParser\<close>, and printed programs are read back by lexer and parser.
\<close>

section \<open>Completeness of the parser\<close>

text \<open>What may stand after an expression: an identifier there must not look like a call.\<close>

definition follow :: "Token list \<Rightarrow> bool" where
  "follow rest \<longleftrightarrow> rest \<noteq> [] \<and> t_kind (hd rest) \<noteq> kColon \<and> t_kind (hd rest) \<noteq> kLParen"

lemma follow_Nil [simp]: "\<not> follow []"
  by (simp add: follow_def)

lemma follow_Cons [simp]: "follow (t # ts) \<longleftrightarrow> t_kind t \<noteq> kColon \<and> t_kind t \<noteq> kLParen"
  by (simp add: follow_def)

lemma positional_not_named:
  assumes "expr_toks e us" "\<not> is_method_call e" "follow rest"
  shows "\<not> named_start (us @ rest)"
  using assms by (cases rule: expr_toks.cases) (cases rest; force simp: named_start_def)+

definition expr_start :: "TokenKind \<Rightarrow> bool" where
  "expr_start k \<longleftrightarrow> k = kNumber \<or> k = kString \<or> k = kIdentifier \<or> k = kLBrace"

lemma first_toks:
  shows "expr_toks e us \<Longrightarrow> us \<noteq> [] \<and> expr_start (t_kind (hd us))"
    and "map_toks es us \<Longrightarrow> us \<noteq> [] \<and> expr_start (t_kind (hd us))"
    and "arg_toks a us \<Longrightarrow> us \<noteq> [] \<and> expr_start (t_kind (hd us))"
    and "args_toks as us \<Longrightarrow> us \<noteq> [] \<and> expr_start (t_kind (hd us))"
  by (induction rule: expr_toks_map_toks_arg_toks_args_toks.inducts) (auto simp: expr_start_def)

lemma args_toks_first: "args_toks as us \<Longrightarrow> t_kind (hd us) \<noteq> kRParen"
  by (auto dest: first_toks(4) simp: expr_start_def)

lemma map_toks_first: "map_toks es us \<Longrightarrow> t_kind (hd us) \<noteq> kRBrace"
  by (auto dest: first_toks(2) simp: expr_start_def)

lemma ParseMapExpression_complete:
  assumes "parse_map_loop n (us @ rb # rest) = Ok (es, rb # rest)" "t_kind rb = kRBrace"
    "map_toks es us"
  shows "ParseMapExpression n l (us @ rb # rest) = Ok (EMap l es, rest)"
  using assms map_toks_first [OF assms(3)] grammar_toks(2) [OF assms(3)]
  by (cases us) (auto simp: ParseMapExpression.simps)

lemma ParseCallExpression_complete:
  assumes "t_kind lp = kLParen" "t_kind rp = kRParen"
    "us = [] \<and> as = [] \<or> args_toks as us \<and> parse_args_loop n (us @ rp # rest) = Ok (as, rp # rest)"
  shows "ParseCallExpression n l r c (lp # us @ rp # rest) = Ok (ECall l r c as, rest)"
proof (cases us)
  case Nil
  with assms grammar_toks(4) [of as us] show ?thesis by (auto simp: ParseCallExpression.simps)
next
  case (Cons t ts)
  with assms args_toks_first [of as us] show ?thesis by (auto simp: ParseCallExpression.simps)
qed

lemma comma_more_Cons:
  "comma_more loop a (t # ts) =
     (if t_kind t = kComma then ebind (loop ts) (\<lambda>(as, r). Ok (a # as, r)) else Ok ([a], t # ts))"
  by (simp add: comma_more_def)

lemma parse_complete:
  shows "expr_toks e us \<Longrightarrow> length us < n \<Longrightarrow> follow rest \<Longrightarrow> ParseExpression n (us @ rest) = Ok (e, rest)"
    and "map_toks es us \<Longrightarrow> length us < n \<Longrightarrow> t_kind rb = kRBrace \<Longrightarrow>
      parse_map_loop n (us @ rb # rest) = Ok (es, rb # rest)"
    and "arg_toks a us \<Longrightarrow> length us < n \<Longrightarrow> follow rest \<Longrightarrow> parse_arg n (us @ rest) = Ok (a, rest)"
    and "args_toks as us \<Longrightarrow> length us + 1 < n \<Longrightarrow> t_kind rb = kRParen \<Longrightarrow>
      parse_args_loop n (us @ rb # rest) = Ok (as, rb # rest)"
proof (induction arbitrary: n rest and n rb rest and n rest and n rb rest
    rule: expr_toks_map_toks_arg_toks_args_toks.inducts)
  case (number t v)
  then show ?case by (cases n) (auto simp: ParseExpression_Cons)
next
  case (str t)
  then show ?case by (cases n) (auto simp: ParseExpression_Cons)
next
  case (ident t)
  then show ?case by (cases n; cases rest) (auto simp: ParseExpression_Cons after_identifier_def)
next
  case (map_empty lb rb)
  then show ?case by (cases n) (auto simp: ParseExpression_Cons ParseMapExpression.simps)
next
  case (map_entries lb es us rb)
  then show ?case by (cases n) (auto simp: ParseExpression_Cons intro!: ParseMapExpression_complete)
next
  case (call_empty t lp rp)
  then show ?case using ParseCallExpression_complete [of lp rp "[]" "[]"]
    by (cases n) (auto simp: ParseExpression_Cons after_identifier_def)
next
  case (call_args t lp args us rp)
  then show ?case using ParseCallExpression_complete [of lp rp us args]
    by (cases n) (auto simp: ParseExpression_Cons after_identifier_def)
next
  case (method_empty t c m lp rp)
  then show ?case using ParseCallExpression_complete [of lp rp "[]" "[]"]
    by (cases n) (auto simp: ParseExpression_Cons after_identifier_def)
next
  case (method_args t c m lp args us rp)
  then show ?case using ParseCallExpression_complete [of lp rp us args]
    by (cases n) (auto simp: ParseExpression_Cons after_identifier_def)
next
  case (map_last k c e us)
  then show ?case by (cases n) (auto simp: parse_map_loop_Suc parse_entry_def comma_more_Cons)
next
  case (map_more k c e us m es vs)
  then show ?case by (cases n) (auto simp: parse_map_loop_Suc parse_entry_def comma_more_Cons)
next
  case (arg_named t c e us)
  then show ?case by (auto simp: parse_arg_def named_start_def)
next
  case (arg_positional e us)
  then show ?case using positional_not_named [of e us rest] grammar_toks(1) [of e us]
    by (auto simp: parse_arg_def)
next
  case (args_last a us)
  then show ?case by (cases n) (auto simp: parse_args_loop_Suc comma_more_Cons)
next
  case (args_more a us m as vs)
  then show ?case by (cases n) (auto simp: parse_args_loop_Suc comma_more_Cons)
qed

definition item_start :: "TokenKind \<Rightarrow> bool" where
  "item_start k \<longleftrightarrow> expr_start k \<or> k = kLocal \<or> k = kImport \<or> k = kAsync \<or> k = kEndOfFile \<or> k = kRBrace"

lemma stmt_toks_first: "stmt_toks s us \<Longrightarrow> us \<noteq> [] \<and> (expr_start (t_kind (hd us)) \<or> t_kind (hd us) = kLocal)"
  by (induction rule: stmt_toks.induct) (auto dest: first_toks(1))

lemma body_toks_first:
  "body_toks bs us \<Longrightarrow> t_kind rb = kRBrace \<Longrightarrow> item_start (t_kind (hd (us @ rb # rest)))"
  by (induction rule: body_toks.induct) (auto simp: item_start_def dest: stmt_toks_first)

lemma program_toks_first: "program_toks p toks p' \<Longrightarrow> toks \<noteq> [] \<and> item_start (t_kind (hd toks))"
  by (induction rule: program_toks.induct)
     (auto simp: item_start_def expr_start_def import_toks.simps function_toks.simps dest!: stmt_toks_first)

lemma item_start_follow:
  "toks \<noteq> [] \<Longrightarrow> item_start (t_kind (hd toks)) \<Longrightarrow> opt_semi ss \<Longrightarrow> follow (ss @ toks)"
  by (cases toks) (auto simp: follow_def item_start_def expr_start_def opt_semi_def)

lemma Consume_complete:
  "toks \<noteq> [] \<Longrightarrow> item_start (t_kind (hd toks)) \<Longrightarrow> opt_semi ss \<Longrightarrow>
   ConsumeOptionalSemicolon (ss @ toks) = Ok toks"
  by (cases toks) (auto simp: item_start_def expr_start_def opt_semi_def)

lemma ParseStatement_complete:
  assumes "stmt_toks s us" "length us < n" "follow rest"
  shows "ParseStatement n (us @ rest) = Ok (s, rest)"
  using assms
proof cases
  case (assign l x q e vs)
  with assms show ?thesis by (auto simp: ParseStatement_def parse_complete)
next
  case (expr e t vs)
  with assms first_toks(1) [of e us] parse_complete(1) [of e us n rest] show ?thesis
    by (auto simp: ParseStatement_def expr_start_def)
qed

lemma parse_body_loop_complete:
  "body_toks bs us \<Longrightarrow> length us + 1 < n \<Longrightarrow> t_kind rb = kRBrace \<Longrightarrow>
   parse_body_loop n (us @ rb # rest) = Ok (bs, rb # rest)"
proof (induction arbitrary: n rule: body_toks.induct)
  case body_nil
  then show ?case by (cases n) auto
next
  case (body_cons s us ss bs vs)
  obtain m where n: "n = Suc m" using body_cons.prems by (cases n) auto
  let ?r = "vs @ rb # rest"
  have r: "?r \<noteq> []" "item_start (t_kind (hd ?r))"
    using body_toks_first [OF body_cons(3)] body_cons.prems by auto
  from body_cons n r have "ParseStatement m (us @ ss @ ?r) = Ok (s, ss @ ?r)"
    "ConsumeOptionalSemicolon (ss @ ?r) = Ok ?r"
    by (auto intro!: ParseStatement_complete item_start_follow Consume_complete)
  moreover have "parse_body_loop m ?r = Ok (bs, rb # rest)"
    using body_cons.prems n stmt_toks_first [OF body_cons(1)] by (intro body_cons.IH) (cases us; auto)+
  moreover obtain t ts where "us = t # ts" "t_kind t \<noteq> kRBrace" "t_kind t \<noteq> kEndOfFile"
    using stmt_toks_first [OF body_cons(1)] by (cases us) (auto simp: expr_start_def)
  ultimately show ?case using n by simp
qed

lemma ParseFunctionDeclaration_complete:
  assumes "function_toks f us" "length us < n" "toks \<noteq> []" "item_start (t_kind (hd toks))"
  shows "ParseFunctionDeclaration n (us @ toks) = Ok (f, toks)"
    "IsFunctionDeclarationStart (us @ toks) = Ok True" "t_kind (hd us) \<noteq> kEndOfFile" "t_kind (hd us) \<noteq> kImport"
  using assms(1,2) Consume_complete [OF assms(3,4)]
  by (cases rule: function_toks.cases;
      auto simp: ParseFunctionDeclaration_def IsFunctionDeclarationStart_def Parser_PeekAt_def nth_Cons'
        parse_body_loop_complete; fail)+

lemma stmt_not_function:
  assumes "stmt_toks s us" "rest \<noteq> []" "t_kind (hd rest) \<noteq> kArrow" "t_kind (hd rest) \<noteq> kLParen"
  shows "IsFunctionDeclarationStart (us @ rest) = Ok False"
  using assms(1)
proof cases
  case (assign l x q e vs)
  then show ?thesis by (simp add: IsFunctionDeclarationStart_def Parser_PeekAt_def Let_def)
next
  case (expr e t vs)
  obtain r rs where r: "rest = r # rs" using assms(2) by (cases rest) auto
  from expr(3) show ?thesis
  proof cases
    case (call_args lp args ws rp)
    then obtain w ws' where "ws = w # ws'" "t_kind w \<noteq> kRParen"
      using args_toks_first [of args ws] grammar_toks(4) [of args ws] by (cases ws) auto
    with call_args expr r show ?thesis
      by (simp add: IsFunctionDeclarationStart_def Parser_PeekAt_def Let_def)
  qed (use assms(3,4) r expr in \<open>auto simp: IsFunctionDeclarationStart_def Parser_PeekAt_def Let_def\<close>)
qed

lemma ParseImportDeclaration_complete:
  assumes "import_toks d us" "toks \<noteq> []" "item_start (t_kind (hd toks))"
  shows "\<exists>i vs. us = i # vs \<and> t_kind i = kImport \<and> ParseImportDeclaration (t_loc i) (vs @ toks) = Ok (d, toks)"
  using assms(1) Consume_complete [OF assms(2,3)]
  by (cases rule: import_toks.cases) (auto simp: ParseImportDeclaration_def)

lemma parse_program_loop_complete:
  "program_toks p toks p' \<Longrightarrow> length toks + 1 < n \<Longrightarrow> parse_program_loop n p toks = Ok p'"
proof (induction arbitrary: n rule: program_toks.induct)
  case (prog_eof t p)
  then show ?case by (cases n) auto
next
  case (prog_import d us p toks p')
  obtain m where n: "n = Suc m" using prog_import.prems by (cases n) auto
  from program_toks_first [OF prog_import(2)] ParseImportDeclaration_complete [OF prog_import(1)]
  obtain i vs where "us = i # vs" "t_kind i = kImport"
    "ParseImportDeclaration (t_loc i) (vs @ toks) = Ok (d, toks)" by blast
  with n prog_import show ?case by auto
next
  case (prog_function f us p toks p')
  obtain m where n: "n = Suc m" using prog_function.prems by (cases n) auto
  from prog_function.prems n have l: "length us < m"
    using program_toks_first [OF prog_function(2)] by (cases toks) auto
  note c = ParseFunctionDeclaration_complete [OF prog_function(1) l program_toks_first [OF prog_function(2), THEN conjunct1]
      program_toks_first [OF prog_function(2), THEN conjunct2]]
  obtain t ts where us: "us = t # ts" using function_toks_wf [OF prog_function(1)] by (cases us) auto
  with c n prog_function.prems prog_function.IH [of m] show ?case by auto
next
  case (prog_statement s us ss p toks p')
  obtain m where n: "n = Suc m" using prog_statement.prems by (cases n) auto
  note f = program_toks_first [OF prog_statement(3)]
  have fl: "follow (ss @ toks)" using f prog_statement(2) by (intro item_start_follow) auto
  have "IsFunctionDeclarationStart (us @ ss @ toks) = Ok False"
    using f prog_statement(1,2)
    by (intro stmt_not_function) (auto simp: opt_semi_def item_start_def expr_start_def)
  moreover have "ParseStatement m (us @ ss @ toks) = Ok (s, ss @ toks)"
    using prog_statement n fl f by (intro ParseStatement_complete) (auto simp: neq_Nil_conv)
  moreover have "ConsumeOptionalSemicolon (ss @ toks) = Ok toks"
    using f prog_statement(2) by (intro Consume_complete) auto
  moreover have "parse_program_loop m (p\<lparr>prog_statements := prog_statements p @ [s]\<rparr>) toks = Ok p'"
    using n prog_statement.prems stmt_toks_first [OF prog_statement(1)]
    by (intro prog_statement.IH) (cases us; simp)
  moreover obtain t ts where t: "us @ ss @ toks = t # ts" "t_kind t \<noteq> kEndOfFile" "t_kind t \<noteq> kImport"
    using stmt_toks_first [OF prog_statement(1)] by (cases us) (auto simp: expr_start_def)
  ultimately show ?case using n unfolding t(1) by simp
qed

text \<open>
  C6. The parser decides the grammar: on a token vector of the lexer, \<open>ParseProgram\<close> returns the
  program \<open>p\<close> exactly when the grammar derives \<open>p\<close> from the tokens.
\<close>

theorem ParseProgram_iff_grammar:
  assumes "Script_Tokenize source = Ok toks"
  shows "ParseProgram toks = Ok p \<longleftrightarrow> program_toks empty_program toks p"
proof -
  from sl.ends_with_eof [OF assms] have "wf_toks toks" by (auto simp: wf_toks_def list_all_iff)
  then show ?thesis unfolding ParseProgram_def
    by (intro iffI; elim parse_program_loop_Ok parse_program_loop_complete) simp_all
qed

theorem ParseProgram_iff_grammar_witness:
  "\<exists>toks p. Script_Tokenize ''f();'' = Ok toks \<and> program_toks empty_program toks p \<and>
     prog_statements p = [ExpressionStatement start_location (ECall start_location None ''f'' [])]"
proof -
  let ?l = "\<lambda>n. \<lparr>line = 1, column = n\<rparr>"
  let ?toks = "[mk_tok kIdentifier ''f'' (?l 1), mk_tok kLParen ''('' (?l 2), mk_tok kRParen '')'' (?l 3),
    mk_tok kSemicolon '';'' (?l 4), mk_tok kEndOfFile [] (?l 5)]"
  let ?p = "empty_program\<lparr>prog_statements :=
    [ExpressionStatement start_location (ECall start_location None ''f'' [])]\<rparr>"
  have t: "Script_Tokenize ''f();'' = Ok ?toks" by code_simp
  have "ParseProgram ?toks = Ok ?p" by code_simp
  with ParseProgram_iff_grammar [OF t] have "program_toks empty_program ?toks ?p" by (rule iffD1)
  with t show ?thesis by (intro exI [of _ ?toks] exI [of _ ?p] conjI) simp_all
qed

section \<open>Printing programs\<close>

fun comma_sep :: "lexeme list list \<Rightarrow> lexeme list" where
  "comma_sep [] = []"
| "comma_sep [x] = x"
| "comma_sep (x # y # ys) = x @ (kComma, '','') # comma_sep (y # ys)"

fun expr_lexemes :: "Expression \<Rightarrow> lexeme list" where
  "expr_lexemes (ENumber l v) = [(kNumber, show_nat (nat v))]"
| "expr_lexemes (EString l s) = [(kString, s)]"
| "expr_lexemes (EIdentifier l x) = [(kIdentifier, x)]"
| "expr_lexemes (ECall l r f args) =
     (case r of None \<Rightarrow> [] | Some x \<Rightarrow> [(kIdentifier, x), (kColon, '':'')]) @
     (kIdentifier, f) # (kLParen, ''('') #
     comma_sep (map (\<lambda>a. (case fst a of None \<Rightarrow> [] | Some x \<Rightarrow> [(kIdentifier, x), (kColon, '':'')]) @
                         expr_lexemes (snd a)) args) @ [(kRParen, '')'')]"
| "expr_lexemes (EMap l es) =
     (kLBrace, ''{'') #
     comma_sep (map (\<lambda>en. (kString, fst en) # (kColon, '':'') # expr_lexemes (snd en)) es) @ [(kRBrace, ''}'')]"

definition wf_name :: "string \<Rightarrow> bool" where
  "wf_name x \<longleftrightarrow> wf_ident x \<and> keyword_kind x = kIdentifier"

text \<open>The expressions the language can write.\<close>

fun wf_expr :: "Expression \<Rightarrow> bool" where
  "wf_expr (ENumber l v) = (0 \<le> v \<and> v \<le> int64_max)"
| "wf_expr (EString l s) = True"
| "wf_expr (EIdentifier l x) = wf_name x"
| "wf_expr (ECall l r f args) = ((case r of None \<Rightarrow> True | Some x \<Rightarrow> wf_name x) \<and> wf_name f \<and>
     list_all (\<lambda>a. wf_expr (snd a) \<and>
       (case fst a of None \<Rightarrow> \<not> is_method_call (snd a) | Some x \<Rightarrow> wf_name x)) args)"
| "wf_expr (EMap l es) = list_all (\<lambda>en. wf_expr (snd en)) es"

text \<open>An expression with every source location replaced by the start location.\<close>

fun unloc :: "Expression \<Rightarrow> Expression" where
  "unloc (ENumber l v) = ENumber start_location v"
| "unloc (EString l s) = EString start_location s"
| "unloc (EIdentifier l x) = EIdentifier start_location x"
| "unloc (ECall l r f args) = ECall start_location r f (map (\<lambda>a. (fst a, unloc (snd a))) args)"
| "unloc (EMap l es) = EMap start_location (map (\<lambda>en. (fst en, unloc (snd en))) es)"

lemma lexeme_of_eq [simp]: "lexeme_of t = (k, x) \<longleftrightarrow> t_kind t = k \<and> t_text t = x"
  by (simp add: lexeme_of_def)

lemma eq_lexeme_of [simp]: "(k, x) = lexeme_of t \<longleftrightarrow> t_kind t = k \<and> t_text t = x"
  by (auto simp: lexeme_of_def)

lemma unloc_method_call [simp]: "is_method_call (unloc e) = is_method_call e"
  by (cases e rule: is_method_call.cases) auto

lemma entries_lexemes:
  assumes "map lexeme_of toks = comma_sep (map (\<lambda>en. (kString, fst en) # (kColon, '':'') # expr_lexemes (snd en)) es)"
    and "es \<noteq> []"
    and "\<And>en ts. en \<in> set es \<Longrightarrow> map lexeme_of ts = expr_lexemes (snd en) \<Longrightarrow>
      \<exists>e'. expr_toks e' ts \<and> unloc e' = unloc (snd en)"
  shows "\<exists>es'. map_toks es' toks \<and> map (\<lambda>en. (fst en, unloc (snd en))) es' = map (\<lambda>en. (fst en, unloc (snd en))) es"
  using assms
proof (induction es arbitrary: toks rule: induct_list012)
  case (2 en)
  then obtain k c ts where t: "toks = k # c # ts" "t_kind k = kString" "t_text k = fst en" "t_kind c = kColon"
    "map lexeme_of ts = expr_lexemes (snd en)" by auto
  from "2.prems"(3) [OF _ t(5)] obtain e' where "expr_toks e' ts" "unloc e' = unloc (snd en)" by auto
  with t map_last [of k c e' ts] show ?case by (intro exI [of _ "[(t_text k, e')]"]) auto
next
  case (3 en en2 es)
  then obtain k c ts m us where t: "toks = k # c # ts @ m # us" "t_kind k = kString" "t_text k = fst en"
    "t_kind c = kColon" "map lexeme_of ts = expr_lexemes (snd en)" "t_kind m = kComma"
    "map lexeme_of us = comma_sep (map (\<lambda>en. (kString, fst en) # (kColon, '':'') # expr_lexemes (snd en)) (en2 # es))"
    by (auto simp: map_eq_append_conv map_eq_Cons_conv)
  from "3.prems"(3) [OF _ t(5)] obtain e' where e: "expr_toks e' ts" "unloc e' = unloc (snd en)" by auto
  from "3.IH"(2) [OF t(7)] "3.prems"(3) obtain es' where es: "map_toks es' us"
    "map (\<lambda>en. (fst en, unloc (snd en))) es' = map (\<lambda>en. (fst en, unloc (snd en))) (en2 # es)" by auto
  with t e map_more [of k c e' ts m es' us] show ?case by (intro exI [of _ "(t_text k, e') # es'"]) auto
qed simp

definition arg_lexemes :: "string option \<times> Expression \<Rightarrow> lexeme list" where
  "arg_lexemes a = (case fst a of None \<Rightarrow> [] | Some x \<Rightarrow> [(kIdentifier, x), (kColon, '':'')]) @ expr_lexemes (snd a)"

lemma arg_lexemes_toks:
  assumes "map lexeme_of toks = arg_lexemes a" "fst a = None \<Longrightarrow> \<not> is_method_call (snd a)"
    and "\<And>ts. map lexeme_of ts = expr_lexemes (snd a) \<Longrightarrow> \<exists>e'. expr_toks e' ts \<and> unloc e' = unloc (snd a)"
  shows "\<exists>a'. arg_toks a' toks \<and> (fst a', unloc (snd a')) = (fst a, unloc (snd a))"
proof (cases "fst a")
  case None
  with assms(1,3) obtain e' where e: "expr_toks e' toks" "unloc e' = unloc (snd a)" by (auto simp: arg_lexemes_def)
  moreover have "\<not> is_method_call e'" using assms(2) None e(2) unloc_method_call by metis
  ultimately show ?thesis using None by (auto intro!: exI [of _ "(None, e')"] arg_positional)
next
  case (Some x)
  with assms(1) obtain t c ts where t: "toks = t # c # ts" "t_kind t = kIdentifier" "t_text t = x" "t_kind c = kColon"
    "map lexeme_of ts = expr_lexemes (snd a)" by (auto simp: arg_lexemes_def)
  from assms(3) [OF t(5)] obtain e' where "expr_toks e' ts" "unloc e' = unloc (snd a)" by blast
  with t Some arg_named [of t c e' ts] show ?thesis by (intro exI [of _ "(Some (t_text t), e')"]) auto
qed

lemma args_lexemes_toks:
  assumes "map lexeme_of toks = comma_sep (map arg_lexemes as)" "as \<noteq> []"
    and "\<And>a ts. a \<in> set as \<Longrightarrow> map lexeme_of ts = arg_lexemes a \<Longrightarrow>
      \<exists>a'. arg_toks a' ts \<and> (fst a', unloc (snd a')) = (fst a, unloc (snd a))"
  shows "\<exists>as'. args_toks as' toks \<and> map (\<lambda>a. (fst a, unloc (snd a))) as' = map (\<lambda>a. (fst a, unloc (snd a))) as"
  using assms
proof (induction as arbitrary: toks rule: induct_list012)
  case (2 a)
  then obtain a' where "arg_toks a' toks" "(fst a', unloc (snd a')) = (fst a, unloc (snd a))" by fastforce
  then show ?case by (intro exI [of _ "[a']"]) (auto intro: args_last)
next
  case (3 a b as)
  then obtain ts m us where t: "toks = ts @ m # us" "map lexeme_of ts = arg_lexemes a" "t_kind m = kComma"
    "map lexeme_of us = comma_sep (map arg_lexemes (b # as))"
    by (auto simp: map_eq_append_conv map_eq_Cons_conv)
  from "3.prems"(3) [OF _ t(2)] obtain a' where a: "arg_toks a' ts"
    "(fst a', unloc (snd a')) = (fst a, unloc (snd a))" by auto
  from "3.IH"(2) [OF t(4)] "3.prems"(3) obtain as' where as: "args_toks as' us"
    "map (\<lambda>a. (fst a, unloc (snd a))) as' = map (\<lambda>a. (fst a, unloc (snd a))) (b # as)" by auto
  with t a args_more [of a' ts m as' us] show ?case by (intro exI [of _ "a' # as'"]) auto
qed simp

lemma call_lexemes:
  "expr_lexemes (ECall l r f args) =
     (case r of None \<Rightarrow> [] | Some x \<Rightarrow> [(kIdentifier, x), (kColon, '':'')]) @
     (kIdentifier, f) # (kLParen, ''('') # comma_sep (map arg_lexemes args) @ [(kRParen, '')'')]"
  by (simp add: arg_lexemes_def [abs_def])

lemma call_toks:
  assumes "t_kind f = kIdentifier" "t_kind lp = kLParen" "t_kind rp = kRParen"
    "us = [] \<and> args = [] \<or> args_toks args us"
    "(r = None \<and> vs = [] \<and> l = t_loc f) \<or> (\<exists>t c. r = Some (t_text t) \<and> vs = [t, c] \<and> t_kind t = kIdentifier \<and> t_kind c = kColon \<and> l = t_loc t)"
  shows "expr_toks (ECall l r (t_text f) args) (vs @ f # lp # us @ [rp])"
  using assms by (auto intro: expr_toks_map_toks_arg_toks_args_toks.intros)

lemma expr_lexemes_toks:
  "wf_expr e \<Longrightarrow> map lexeme_of toks = expr_lexemes e \<Longrightarrow> \<exists>e'. expr_toks e' toks \<and> unloc e' = unloc e"
proof (induction e arbitrary: toks)
  case (ENumber l v)
  then obtain t where t: "toks = [t]" "t_kind t = kNumber" "t_text t = show_nat (nat v)" by auto
  with ENumber number [of t v] stoll_show_nat [of v] show ?case by fastforce
next
  case (EString l s)
  then show ?case by (fastforce intro: str)
next
  case (EIdentifier l x)
  then show ?case by (fastforce intro: ident)
next
  case (ECall l r f args)
  define recv where "recv = (case r of None \<Rightarrow> [] | Some x \<Rightarrow> [(kIdentifier, x), (kColon, '':'')])"
  from ECall.prems(2) have "map lexeme_of toks = recv @ (kIdentifier, f) # (kLParen, ''('') #
      comma_sep (map arg_lexemes args) @ [(kRParen, '')'')]" unfolding call_lexemes recv_def .
  then obtain vs ft lp us rp where t: "toks = vs @ ft # lp # us @ [rp]" "map lexeme_of vs = recv"
    "t_kind ft = kIdentifier" "t_text ft = f" "t_kind lp = kLParen" "t_kind rp = kRParen"
    "map lexeme_of us = comma_sep (map arg_lexemes args)"
    by (auto simp: map_eq_append_conv map_eq_Cons_conv append_eq_map_conv)
  have "\<exists>as'. (us = [] \<and> as' = [] \<or> args_toks as' us) \<and>
      map (\<lambda>a. (fst a, unloc (snd a))) as' = map (\<lambda>a. (fst a, unloc (snd a))) args"
  proof (cases "args = []")
    case False
    have "\<exists>a'. arg_toks a' ts \<and> (fst a', unloc (snd a')) = (fst a, unloc (snd a))"
      if "a \<in> set args" "map lexeme_of ts = arg_lexemes a" for a ts
    proof (rule arg_lexemes_toks [OF that(2)])
      show "\<exists>e'. expr_toks e' us \<and> unloc e' = unloc (snd a)" if "map lexeme_of us = expr_lexemes (snd a)" for us
        using ECall.IH [OF \<open>a \<in> set args\<close>, of "snd a" us] ECall.prems(1) \<open>a \<in> set args\<close> that
        by (cases a) (auto simp: list_all_iff)
    qed (use ECall.prems(1) that(1) in \<open>auto simp: list_all_iff\<close>)
    from args_lexemes_toks [OF t(7) False this] show ?thesis by blast
  qed (use t(7) in simp)
  then obtain as' where as: "us = [] \<and> as' = [] \<or> args_toks as' us"
    "map (\<lambda>a. (fst a, unloc (snd a))) as' = map (\<lambda>a. (fst a, unloc (snd a))) args" by blast
  have "\<exists>l'. (r = None \<and> vs = [] \<and> l' = t_loc ft) \<or> (\<exists>t c. r = Some (t_text t) \<and> vs = [t, c] \<and>
      t_kind t = kIdentifier \<and> t_kind c = kColon \<and> l' = t_loc t)"
    using t(2) by (cases r) (auto simp: recv_def)
  then obtain l' where "expr_toks (ECall l' r (t_text ft) as') (vs @ ft # lp # us @ [rp])"
    using call_toks [OF t(3,5,6) as(1)] by blast
  with t(1,4) as(2) show ?case by (intro exI [of _ "ECall l' r f as'"]) simp
next
  case (EMap l es)
  then obtain lb us rb where t: "toks = lb # us @ [rb]" "t_kind lb = kLBrace" "t_kind rb = kRBrace"
    "map lexeme_of us = comma_sep (map (\<lambda>en. (kString, fst en) # (kColon, '':'') # expr_lexemes (snd en)) es)"
    by (auto simp: map_eq_append_conv map_eq_Cons_conv)
  show ?case
  proof (cases "es = []")
    case True
    with t map_empty [of lb rb] show ?thesis by (auto intro!: exI [of _ "EMap (t_loc lb) []"])
  next
    case False
    have "\<exists>e'. expr_toks e' ts \<and> unloc e' = unloc (snd en)"
      if "en \<in> set es" "map lexeme_of ts = expr_lexemes (snd en)" for en ts
      using EMap.IH [OF that(1), of "snd en" ts] EMap.prems(1) that by (cases en) (auto simp: list_all_iff)
    from entries_lexemes [OF t(4) False this] obtain es' where "map_toks es' us"
      "map (\<lambda>en. (fst en, unloc (snd en))) es' = map (\<lambda>en. (fst en, unloc (snd en))) es" by blast
    with t map_entries [of lb es' us rb] show ?thesis by (intro exI [of _ "EMap (t_loc lb) es'"]) simp
  qed
qed

fun stmt_lexemes :: "Statement \<Rightarrow> lexeme list" where
  "stmt_lexemes (LocalAssignment l x e) =
     (kLocal, ''local'') # (kIdentifier, x) # (kEqual, ''='') # expr_lexemes e @ [(kSemicolon, '';'')]"
| "stmt_lexemes (ExpressionStatement l e) = expr_lexemes e @ [(kSemicolon, '';'')]"

fun wf_stmt :: "Statement \<Rightarrow> bool" where
  "wf_stmt (LocalAssignment l x e) = (wf_name x \<and> wf_expr e)"
| "wf_stmt (ExpressionStatement l e) = wf_expr e"

fun unloc_stmt :: "Statement \<Rightarrow> Statement" where
  "unloc_stmt (LocalAssignment l x e) = LocalAssignment start_location x (unloc e)"
| "unloc_stmt (ExpressionStatement l e) = ExpressionStatement start_location (unloc e)"

definition import_lexemes :: "ImportDeclaration \<Rightarrow> lexeme list" where
  "import_lexemes d = [(kImport, ''@import''), (kLParen, ''(''), (kString, import_module d), (kRParen, '')''),
     (kAs, ''as''), (kIdentifier, import_alias d), (kSemicolon, '';'')]"

definition function_lexemes :: "FunctionDeclaration \<Rightarrow> lexeme list" where
  "function_lexemes f = (if is_async f then [(kAsync, ''async'')] else []) @
     [(kIdentifier, function_name f), (kLParen, ''(''), (kRParen, '')''), (kArrow, ''->''), (kThen, ''then''),
      (kLBrace, ''{'')] @ concat (map stmt_lexemes (function_body f)) @
     [(kRBrace, ''}''), (kEnd, ''end''), (kSemicolon, '';'')]"

definition program_lexemes :: "Program \<Rightarrow> lexeme list" where
  "program_lexemes p = concat (map import_lexemes (prog_imports p)) @
     concat (map function_lexemes (prog_functions p)) @ concat (map stmt_lexemes (prog_statements p))"

definition wf_program :: "Program \<Rightarrow> bool" where
  "wf_program p \<longleftrightarrow> list_all (\<lambda>d. wf_name (import_alias d)) (prog_imports p) \<and>
     list_all (\<lambda>f. wf_name (function_name f) \<and> list_all wf_stmt (function_body f)) (prog_functions p) \<and>
     list_all wf_stmt (prog_statements p)"

definition unloc_import :: "ImportDeclaration \<Rightarrow> ImportDeclaration" where
  "unloc_import d = d\<lparr>import_loc := start_location\<rparr>"

definition unloc_function :: "FunctionDeclaration \<Rightarrow> FunctionDeclaration" where
  "unloc_function f = f\<lparr>function_loc := start_location, function_body := map unloc_stmt (function_body f)\<rparr>"

definition unloc_program :: "Program \<Rightarrow> Program" where
  "unloc_program p = \<lparr>prog_imports = map unloc_import (prog_imports p),
     prog_functions = map unloc_function (prog_functions p),
     prog_statements = map unloc_stmt (prog_statements p)\<rparr>"

lemma stmt_lexemes_toks:
  assumes "wf_stmt s" "map lexeme_of toks = stmt_lexemes s"
  shows "\<exists>us m s'. toks = us @ [m] \<and> t_kind m = kSemicolon \<and> stmt_toks s' us \<and> unloc_stmt s' = unloc_stmt s"
proof (cases s)
  case (LocalAssignment l x e)
  with assms(2) obtain lt xt q us m where t: "toks = lt # xt # q # us @ [m]" "t_kind lt = kLocal"
    "t_kind xt = kIdentifier" "t_text xt = x" "t_kind q = kEqual" "t_kind m = kSemicolon"
    "map lexeme_of us = expr_lexemes e"
    by (auto simp: map_eq_append_conv map_eq_Cons_conv)
  from LocalAssignment assms(1) expr_lexemes_toks [OF _ t(7)] obtain e' where "expr_toks e' us" "unloc e' = unloc e"
    by auto
  with t LocalAssignment assign [of lt xt q e' us] show ?thesis
    by (intro exI [of _ "lt # xt # q # us"] exI [of _ m]) auto
next
  case (ExpressionStatement l e)
  with assms(2) obtain us m where t: "toks = us @ [m]" "t_kind m = kSemicolon" "map lexeme_of us = expr_lexemes e"
    by (auto simp: map_eq_append_conv map_eq_Cons_conv)
  from ExpressionStatement assms(1) expr_lexemes_toks [OF _ t(3)] obtain e' where e: "expr_toks e' us" "unloc e' = unloc e"
    by auto
  then obtain t ts where "us = t # ts" using grammar_toks(1) [OF e(1)] by (cases us) auto
  with t e ExpressionStatement expr [of e' t ts] show ?thesis by (intro exI [of _ us] exI [of _ m]) auto
qed

lemma opt_semi_semi: "t_kind m = kSemicolon \<Longrightarrow> opt_semi [m]"
  by (simp add: opt_semi_def)

lemma body_lexemes_toks:
  "list_all wf_stmt bs \<Longrightarrow> map lexeme_of toks = concat (map stmt_lexemes bs) \<Longrightarrow>
   \<exists>bs'. body_toks bs' toks \<and> map unloc_stmt bs' = map unloc_stmt bs"
proof (induction bs arbitrary: toks)
  case Nil
  then show ?case by (auto intro: body_nil)
next
  case (Cons s bs)
  from Cons.prems(2) obtain us vs where t: "toks = us @ vs" "map lexeme_of us = stmt_lexemes s"
    "map lexeme_of vs = concat (map stmt_lexemes bs)" by (auto simp: map_eq_append_conv)
  from Cons.prems(1) stmt_lexemes_toks [OF _ t(2)] obtain ws m s' where
    s: "us = ws @ [m]" "t_kind m = kSemicolon" "stmt_toks s' ws" "unloc_stmt s' = unloc_stmt s" by auto
  from Cons.IH [OF _ t(3)] Cons.prems(1) obtain bs' where "body_toks bs' vs" "map unloc_stmt bs' = map unloc_stmt bs"
    by auto
  with t s body_cons [OF s(3) opt_semi_semi [OF s(2)], of bs' vs] show ?case
    by (intro exI [of _ "s' # bs'"]) auto
qed

lemma import_lexemes_toks:
  assumes "map lexeme_of toks = import_lexemes d"
  shows "\<exists>d'. import_toks d' toks \<and> unloc_import d' = unloc_import d"
proof -
  from assms obtain i lp m rp a x s where t: "toks = [i, lp, m, rp, a, x, s]"
    "t_kind i = kImport" "t_kind lp = kLParen" "t_kind m = kString" "t_text m = import_module d" "t_kind rp = kRParen"
    "t_kind a = kAs" "t_kind x = kIdentifier" "t_text x = import_alias d" "t_kind s = kSemicolon"
    by (auto simp: import_lexemes_def)
  with import_toks.intros [OF t(2,3,4,6,7,8) opt_semi_semi [OF t(10)]] show ?thesis
    by (auto simp: unloc_import_def)
qed

lemma function_lexemes_toks:
  assumes "list_all wf_stmt (function_body f)" "map lexeme_of toks = function_lexemes f"
  shows "\<exists>f'. function_toks f' toks \<and> unloc_function f' = unloc_function f"
proof -
  from assms(2) obtain as n lp rp ar th lb us rb en s where
    t: "toks = as @ n # lp # rp # ar # th # lb # us @ [rb, en, s]"
      "map lexeme_of as = (if is_async f then [(kAsync, ''async'')] else [])" "t_kind n = kIdentifier"
      "t_text n = function_name f" "t_kind lp = kLParen" "t_kind rp = kRParen" "t_kind ar = kArrow"
      "t_kind th = kThen" "t_kind lb = kLBrace" "map lexeme_of us = concat (map stmt_lexemes (function_body f))"
      "t_kind rb = kRBrace" "t_kind en = kEnd" "t_kind s = kSemicolon"
    unfolding function_lexemes_def
    by (auto simp: map_eq_append_conv map_eq_Cons_conv append_eq_map_conv Cons_eq_map_conv)
  from t(2) have as: "as = [] \<or> (\<exists>t. as = [t] \<and> t_kind t = kAsync)" "(as \<noteq> []) = is_async f"
    by (auto split: if_splits)
  from body_lexemes_toks [OF assms(1) t(10)] obtain bs where
    b: "body_toks bs us" "map unloc_stmt bs = map unloc_stmt (function_body f)" by blast
  from function_toks.intros [OF as(1) t(3,5,6,7,8,9) b(1) t(11,12) opt_semi_semi [OF t(13)]] t(1,4) as(2) b(2)
  show ?thesis by (auto simp: unloc_function_def)
qed

lemma statements_lexemes_toks:
  assumes "list_all wf_stmt ss" "map lexeme_of toks = concat (map stmt_lexemes ss)" "t_kind e = kEndOfFile"
  shows "\<exists>ss'. program_toks p (toks @ [e]) (p\<lparr>prog_statements := prog_statements p @ ss'\<rparr>) \<and>
    map unloc_stmt ss' = map unloc_stmt ss"
  using assms(1,2)
proof (induction ss arbitrary: toks p)
  case Nil
  with prog_eof [OF assms(3), of p] show ?case by simp
next
  case (Cons s ss)
  from Cons.prems(2) obtain us vs where t: "toks = us @ vs" "map lexeme_of us = stmt_lexemes s"
    "map lexeme_of vs = concat (map stmt_lexemes ss)" by (auto simp: map_eq_append_conv)
  from Cons.prems(1) stmt_lexemes_toks [OF _ t(2)] obtain ws m s' where
    s: "us = ws @ [m]" "t_kind m = kSemicolon" "stmt_toks s' ws" "unloc_stmt s' = unloc_stmt s" by auto
  let ?p = "p\<lparr>prog_statements := prog_statements p @ [s']\<rparr>"
  from Cons.IH [OF _ t(3), of ?p] Cons.prems(1) obtain ss' where
    ss: "program_toks ?p (vs @ [e]) (?p\<lparr>prog_statements := prog_statements ?p @ ss'\<rparr>)"
      "map unloc_stmt ss' = map unloc_stmt ss" by auto
  from prog_statement [OF s(3) opt_semi_semi [OF s(2)] ss(1)] t s ss show ?case
    by (intro exI [of _ "s' # ss'"]) auto
qed

lemma functions_lexemes_toks:
  assumes "list_all (\<lambda>f. list_all wf_stmt (function_body f)) fs" "map lexeme_of toks = concat (map function_lexemes fs)"
    and "\<And>p. \<exists>ss'. program_toks p rest (p\<lparr>prog_statements := prog_statements p @ ss'\<rparr>) \<and> map unloc_stmt ss' = ss"
  shows "\<exists>fs' ss'. program_toks p (toks @ rest)
      (p\<lparr>prog_functions := prog_functions p @ fs', prog_statements := prog_statements p @ ss'\<rparr>) \<and>
    map unloc_function fs' = map unloc_function fs \<and> map unloc_stmt ss' = ss"
  using assms(1,2)
proof (induction fs arbitrary: toks p)
  case Nil
  with assms(3) [of p] show ?case by fastforce
next
  case (Cons f fs)
  from Cons.prems(2) obtain us vs where t: "toks = us @ vs" "map lexeme_of us = function_lexemes f"
    "map lexeme_of vs = concat (map function_lexemes fs)" by (auto simp: map_eq_append_conv)
  from Cons.prems(1) function_lexemes_toks [OF _ t(2)] obtain f' where
    f: "function_toks f' us" "unloc_function f' = unloc_function f" by auto
  let ?p = "p\<lparr>prog_functions := prog_functions p @ [f']\<rparr>"
  from Cons.IH [OF _ t(3), of ?p] Cons.prems(1) obtain fs' ss' where
    fs: "program_toks ?p (vs @ rest) (?p\<lparr>prog_functions := prog_functions ?p @ fs',
        prog_statements := prog_statements ?p @ ss'\<rparr>)"
      "map unloc_function fs' = map unloc_function fs" "map unloc_stmt ss' = ss" by auto
  from prog_function [OF f(1) fs(1)] t f fs show ?case
    by (intro exI [of _ "f' # fs'"] exI [of _ ss']) auto
qed

lemma imports_lexemes_toks:
  assumes "map lexeme_of toks = concat (map import_lexemes ds)"
    and "\<And>p. \<exists>fs' ss'. program_toks p rest
      (p\<lparr>prog_functions := prog_functions p @ fs', prog_statements := prog_statements p @ ss'\<rparr>) \<and>
      map unloc_function fs' = fs \<and> map unloc_stmt ss' = ss"
  shows "\<exists>ds' fs' ss'. program_toks p (toks @ rest)
      (p\<lparr>prog_imports := prog_imports p @ ds', prog_functions := prog_functions p @ fs',
        prog_statements := prog_statements p @ ss'\<rparr>) \<and>
    map unloc_import ds' = map unloc_import ds \<and> map unloc_function fs' = fs \<and> map unloc_stmt ss' = ss"
  using assms(1)
proof (induction ds arbitrary: toks p)
  case Nil
  with assms(2) [of p] show ?case by fastforce
next
  case (Cons d ds)
  from Cons.prems obtain us vs where t: "toks = us @ vs" "map lexeme_of us = import_lexemes d"
    "map lexeme_of vs = concat (map import_lexemes ds)" by (auto simp: map_eq_append_conv)
  from import_lexemes_toks [OF t(2)] obtain d' where
    d: "import_toks d' us" "unloc_import d' = unloc_import d" by auto
  let ?p = "p\<lparr>prog_imports := prog_imports p @ [d']\<rparr>"
  from Cons.IH [OF t(3), of ?p] obtain ds' fs' ss' where
    ds: "program_toks ?p (vs @ rest) (?p\<lparr>prog_imports := prog_imports ?p @ ds', prog_functions := prog_functions ?p @ fs',
        prog_statements := prog_statements ?p @ ss'\<rparr>)"
      "map unloc_import ds' = map unloc_import ds" "map unloc_function fs' = fs" "map unloc_stmt ss' = ss" by auto
  from prog_import [OF d(1) ds(1)] t d ds show ?case
    by (intro exI [of _ "d' # ds'"] exI [of _ fs'] exI [of _ ss']) auto
qed

lemma wf_name_lexeme [simp]: "wf_name x \<Longrightarrow> wf_lexeme (kIdentifier, x)"
  by (simp add: wf_name_def)

lemma fixed_lexemes [simp]:
  "wf_lexeme (kComma, '','')" "wf_lexeme (kColon, '':'')" "wf_lexeme (kLParen, ''('')" "wf_lexeme (kRParen, '')'')"
  "wf_lexeme (kLBrace, ''{'')" "wf_lexeme (kRBrace, ''}'')" "wf_lexeme (kSemicolon, '';'')" "wf_lexeme (kEqual, ''='')"
  "wf_lexeme (kAs, ''as'')" "wf_lexeme (kAsync, ''async'')" "wf_lexeme (kLocal, ''local'')" "wf_lexeme (kThen, ''then'')"
  "wf_lexeme (kEnd, ''end'')"
  by (simp_all add: single_char_kind_def wf_ident_def is_ident_start_def is_ident_char_def cctype_defs
      keyword_kind_def)

lemma wf_number_lexeme [simp]: "wf_lexeme (kNumber, show_nat n)"
  by (simp add: show_nat_digits)

lemma comma_sep_wf: "list_all (list_all wf_lexeme) xss \<Longrightarrow> list_all wf_lexeme (comma_sep xss)"
  by (induction xss rule: comma_sep.induct) (auto simp del: wf_lexeme.simps)

lemma expr_lexemes_wf: "wf_expr e \<Longrightarrow> list_all wf_lexeme (expr_lexemes e)"
proof (induction e)
  case (ECall l r f args)
  have "list_all wf_lexeme ((case fst a of None \<Rightarrow> [] | Some x \<Rightarrow> [(kIdentifier, x), (kColon, '':'')]) @ expr_lexemes (snd a))"
    if "a \<in> set args" for a
    using ECall.IH [OF that, of "snd a"] ECall.prems that
    by (cases a) (auto simp: list_all_iff simp del: wf_lexeme.simps split: option.splits)
  then have "list_all wf_lexeme (comma_sep (map (\<lambda>a. (case fst a of None \<Rightarrow> []
      | Some x \<Rightarrow> [(kIdentifier, x), (kColon, '':'')]) @ expr_lexemes (snd a)) args))"
    by (intro comma_sep_wf) (auto simp: list_all_iff)
  with ECall.prems show ?case by (auto simp del: wf_lexeme.simps split: option.splits)
next
  case (EMap l es)
  have "list_all wf_lexeme ((kString, fst en) # (kColon, '':'') # expr_lexemes (snd en))" if "en \<in> set es" for en
    using EMap.IH [OF that, of "snd en"] EMap.prems that
    by (cases en) (auto simp: list_all_iff simp del: wf_lexeme.simps(4-))
  then have "list_all wf_lexeme (comma_sep (map (\<lambda>en. (kString, fst en) # (kColon, '':'') # expr_lexemes (snd en)) es))"
    by (intro comma_sep_wf) (auto simp: list_all_iff)
  then show ?case by (auto simp del: wf_lexeme.simps)
qed (auto simp del: wf_lexeme.simps(2,4-))

lemma stmt_lexemes_wf: "wf_stmt s \<Longrightarrow> list_all wf_lexeme (stmt_lexemes s)"
  by (cases s) (auto simp del: wf_lexeme.simps intro: expr_lexemes_wf)

lemma concat_wf: "(\<And>x. x \<in> set xs \<Longrightarrow> list_all P (f x)) \<Longrightarrow> list_all P (concat (map f xs))"
  by (induction xs) auto

lemma program_lexemes_wf: "wf_program p \<Longrightarrow> list_all wf_lexeme (program_lexemes p)"
proof -
  assume p: "wf_program p"
  have "list_all wf_lexeme (import_lexemes d)" if "d \<in> set (prog_imports p)" for d
    using p that by (auto simp: wf_program_def import_lexemes_def list_all_iff simp del: wf_lexeme.simps(5-))
  moreover have "list_all wf_lexeme (function_lexemes f)" if "f \<in> set (prog_functions p)" for f
  proof -
    from p that have "wf_name (function_name f)" "\<And>s. s \<in> set (function_body f) \<Longrightarrow> wf_stmt s"
      by (auto simp: wf_program_def list_all_iff)
    moreover from this have "list_all wf_lexeme (concat (map stmt_lexemes (function_body f)))"
      by (intro concat_wf stmt_lexemes_wf)
    moreover have "wf_lexeme (kArrow, ''->'')" by simp
    ultimately show ?thesis by (auto simp: function_lexemes_def simp del: wf_lexeme.simps)
  qed
  moreover have "list_all wf_lexeme (stmt_lexemes s)" if "s \<in> set (prog_statements p)" for s
    using p that by (intro stmt_lexemes_wf) (auto simp: wf_program_def list_all_iff)
  ultimately show ?thesis by (simp add: program_lexemes_def concat_wf)
qed

text \<open>
  C10. Source-level round trip: the printed text of every writable program is lexed and parsed back
  to the same program, source locations apart.
\<close>

theorem program_print_parse:
  assumes "wf_program p"
  shows "\<exists>toks p'. Script_Tokenize (render (program_lexemes p)) = Ok toks \<and> ParseProgram toks = Ok p' \<and>
    unloc_program p' = unloc_program p"
proof -
  from script_tokenize_render [OF program_lexemes_wf [OF assms], of start_location] obtain toks
    where t: "Script_Tokenize (render (program_lexemes p)) = Ok toks"
      and l: "map lexeme_of toks = program_lexemes p @ [(kEndOfFile, [])]"
    unfolding Script_Tokenize_def by blast
  from l obtain us vs ws e where u: "toks = us @ vs @ ws @ [e]" "t_kind e = kEndOfFile"
    "map lexeme_of us = concat (map import_lexemes (prog_imports p))"
    "map lexeme_of vs = concat (map function_lexemes (prog_functions p))"
    "map lexeme_of ws = concat (map stmt_lexemes (prog_statements p))"
    unfolding program_lexemes_def
    by (auto simp: map_eq_append_conv map_eq_Cons_conv append_eq_map_conv)
  from assms have w: "list_all wf_stmt (prog_statements p)"
    "list_all (\<lambda>f. list_all wf_stmt (function_body f)) (prog_functions p)"
    by (auto simp: wf_program_def list_all_iff)
  from imports_lexemes_toks [OF u(3) functions_lexemes_toks [OF w(2) u(4)
      statements_lexemes_toks [OF w(1) u(5,2)]], of empty_program]
  obtain p' where p': "program_toks empty_program toks p'" "unloc_program p' = unloc_program p"
    using u(1) by (auto simp: unloc_program_def empty_program_def)
  then have "ParseProgram toks = Ok p'"
    unfolding ParseProgram_def by (elim parse_program_loop_complete) simp
  with t p'(2) show ?thesis by blast
qed

theorem program_print_parse_witness:
  "\<exists>toks p'. Script_Tokenize (render (program_lexemes
      (empty_program\<lparr>prog_statements := [LocalAssignment start_location ''x'' (ENumber start_location 7)]\<rparr>))) = Ok toks \<and>
    ParseProgram toks = Ok p' \<and> unloc_program p' =
      empty_program\<lparr>prog_statements := [LocalAssignment start_location ''x'' (ENumber start_location 7)]\<rparr>"
proof -
  let ?p = "empty_program\<lparr>prog_statements := [LocalAssignment start_location ''x'' (ENumber start_location 7)]\<rparr>"
  have "wf_program ?p" by code_simp
  from program_print_parse [OF this] obtain toks p' where
    x: "Script_Tokenize (render (program_lexemes ?p)) = Ok toks \<and> ParseProgram toks = Ok p' \<and>
      unloc_program p' = unloc_program ?p" by (elim exE)
  have "unloc_program ?p = ?p" by code_simp
  with x show ?thesis by (intro exI [of _ toks] exI [of _ p']) (simp only:)
qed

end
