(* ===== verification/XerCompiler.thy ===== *)
theory XerCompiler
  imports XerScriptGrammar
begin

text \<open>
  The outline compiler: \<^verbatim>\<open>src/src/xer/xer_compiler.cc\<close>, with the AST of \<^verbatim>\<open>xer_ast.h\<close>, its builder
  \<^verbatim>\<open>xer_contrustor.cc\<close> and the path helpers of \<^verbatim>\<open>xer_util.cc\<close>. It scans the token vector for
  imports, functions, local names and calls without parsing. An index into the vector is
  represented by the suffix of the vector that starts there, so \<open>index + k < tokens.size()\<close> is
  \<open>k < length toks\<close>.
\<close>

section \<open>Definitions\<close>

datatype XerAstNodeKind = kProgramNode | kImportNode | kFunctionNode | kLocalNode | kCallNode | kLiteralNode

fun XerAstNodeKindName :: "XerAstNodeKind \<Rightarrow> string" where
  "XerAstNodeKindName kProgramNode = ''program''"
| "XerAstNodeKindName kImportNode = ''import''"
| "XerAstNodeKindName kFunctionNode = ''function''"
| "XerAstNodeKindName kLocalNode = ''local''"
| "XerAstNodeKindName kCallNode = ''call''"
| "XerAstNodeKindName kLiteralNode = ''literal''"

record XerAstImport =
  ast_module_name :: string
  ast_alias :: string
  ast_import_range :: XerSourceRange

record XerAstCall =
  callee :: string
  receiver :: "string option"
  ast_call_range :: XerSourceRange

record XerAstFunction =
  ast_name :: string
  ast_is_async :: bool
  ast_function_range :: XerSourceRange
  locals :: "string list"
  calls :: "XerAstCall list"

record XerAstProgram =
  ast_imports :: "XerAstImport list"
  ast_functions :: "XerAstFunction list"
  top_level_calls :: "XerAstCall list"
  metadata :: XerValue

record XerCompileResult =
  normalized_source :: string
  tokens :: "XerToken list"
  program :: XerAstProgram

subsection \<open>XerContrustor\<close>

definition MakeImport :: "string \<Rightarrow> string \<Rightarrow> XerSourceRange \<Rightarrow> XerAstImport" where
  "MakeImport m a r = \<lparr>ast_module_name = m, ast_alias = a, ast_import_range = r\<rparr>"

definition MakeFunction :: "string \<Rightarrow> bool \<Rightarrow> XerSourceRange \<Rightarrow> XerAstFunction" where
  "MakeFunction n async r =
     \<lparr>ast_name = n, ast_is_async = async, ast_function_range = r, locals = [], calls = []\<rparr>"

definition MakeCall :: "string \<Rightarrow> string option \<Rightarrow> XerSourceRange \<Rightarrow> XerAstCall" where
  "MakeCall c r rng = \<lparr>callee = c, receiver = r, ast_call_range = rng\<rparr>"

definition AddLocal :: "string \<Rightarrow> XerAstFunction \<Rightarrow> XerAstFunction" where
  "AddLocal n f = f\<lparr>locals := locals f @ [n]\<rparr>"

definition AddCall :: "XerAstCall \<Rightarrow> XerAstFunction \<Rightarrow> XerAstFunction" where
  "AddCall c f = f\<lparr>calls := calls f @ [c]\<rparr>"

definition AddTopLevelCall :: "XerAstCall \<Rightarrow> XerAstProgram \<Rightarrow> XerAstProgram" where
  "AddTopLevelCall c p = p\<lparr>top_level_calls := top_level_calls p @ [c]\<rparr>"

subsection \<open>XerCompiler\<close>

definition kind_at :: "XerToken list \<Rightarrow> nat \<Rightarrow> XerTokenKind \<Rightarrow> bool" where
  "kind_at toks i k \<longleftrightarrow> i < length toks \<and> tok_kind (toks ! i) = k"

definition async_offset :: "XerToken list \<Rightarrow> nat" where
  "async_offset toks = (if kind_at toks 0 kAsync then 1 else 0)"

definition IsFunctionStart :: "XerToken list \<Rightarrow> bool" where
  "IsFunctionStart toks =
     (let offset = async_offset toks in
      offset + 4 < length toks \<and> tok_kind (toks ! offset) = kIdentifier \<and>
      tok_kind (toks ! (offset + 1)) = kLParen \<and> tok_kind (toks ! (offset + 2)) = kRParen \<and>
      tok_kind (toks ! (offset + 3)) = kArrow \<and> tok_kind (toks ! (offset + 4)) = kThen)"

definition IsImportStart :: "XerToken list \<Rightarrow> bool" where
  "IsImportStart toks \<longleftrightarrow>
     kind_at toks 0 kImport \<and> 5 < length toks \<and> tok_kind (toks ! 1) = kLParen \<and>
     tok_kind (toks ! 2) = kString \<and> tok_kind (toks ! 3) = kRParen \<and> tok_kind (toks ! 4) = kAs \<and>
     tok_kind (toks ! 5) = kIdentifier"

definition span_range :: "XerToken \<Rightarrow> XerToken \<Rightarrow> XerSourceRange" where
  "span_range t1 t2 = \<lparr>range_begin = range_begin (tok_range t1), range_end = range_end (tok_range t2)\<rparr>"

text \<open>One turn of the loop over a function body, at its first token, and the loop.\<close>

definition body_token :: "XerToken \<Rightarrow> XerToken list \<Rightarrow> XerAstFunction \<Rightarrow> XerAstFunction" where
  "body_token t rest fn =
     (let fn1 = (if tok_kind t = kLocal \<and> kind_at rest 0 kIdentifier then AddLocal (tok_text (rest ! 0)) fn
                 else fn)
      in if tok_kind t = kIdentifier then
           if kind_at rest 0 kLParen then AddCall (MakeCall (tok_text t) None (tok_range t)) fn1
           else if 1 < length rest \<and> kind_at rest 0 kColon \<and> kind_at rest 1 kIdentifier
           then AddCall (MakeCall (tok_text (rest ! 1)) (Some (tok_text t)) (span_range t (rest ! 1))) fn1
           else fn1
         else fn1)"

fun body_loop :: "XerToken list \<Rightarrow> XerAstFunction \<Rightarrow> XerAstFunction \<times> XerToken list" where
  "body_loop [] fn = (fn, [])"
| "body_loop (t # rest) fn =
     (if tok_kind t = kEnd then (fn, t # rest) else body_loop rest (body_token t rest fn))"

lemma body_loop_le: "body_loop toks fn = (fn', rest) \<Longrightarrow> length rest \<le> length toks"
  by (induction toks fn rule: body_loop.induct) (auto split: if_splits)

text \<open>
  The main loop; after a function the loop goes on behind its \<open>end\<close> (\<open>index = body\<close>, then \<open>++index\<close>).
\<close>

function compile_loop :: "XerToken list \<Rightarrow> XerAstProgram \<Rightarrow> XerAstProgram" where
  "compile_loop [] p = p"
| "compile_loop (t # rest) p =
     (let toks = t # rest in
      if IsImportStart toks then
        compile_loop rest (p\<lparr>ast_imports := ast_imports p @
          [MakeImport (tok_text (toks ! 2)) (tok_text (toks ! 5)) (span_range t (toks ! 5))]\<rparr>)
      else if IsFunctionStart toks then
        let offset = async_offset toks;
            fn = MakeFunction (tok_text (toks ! offset)) (tok_kind t = kAsync) (span_range t (toks ! (offset + 4)))
        in (case body_loop (drop (offset + 5) toks) fn of (fn', body) \<Rightarrow>
              compile_loop (drop 1 body) (p\<lparr>ast_functions := ast_functions p @ [fn']\<rparr>))
      else if tok_kind t = kIdentifier \<and> kind_at rest 0 kLParen then
        compile_loop rest (AddTopLevelCall (MakeCall (tok_text t) None (tok_range t)) p)
      else compile_loop rest p)"
  by pat_completeness auto
termination
proof (relation "measure (\<lambda>(toks, p). length toks)")
  fix t rest p x xa xb xc y
  assume "(xc, y) = body_loop (drop (xa + 5) x) xb" "x = t # rest"
  then show "((drop 1 y, p\<lparr>ast_functions := ast_functions p @ [xc]\<rparr>), t # rest, p) \<in> measure (\<lambda>(toks, p). length toks)"
    using body_loop_le [of "drop (xa + 5) x" xb xc y] by auto
qed auto

definition empty_ast :: XerAstProgram where
  "empty_ast = \<lparr>ast_imports = [], ast_functions = [], top_level_calls = [], metadata = VNull\<rparr>"

text \<open>The entries that \<open>CompileFromText\<close> sets in the metadata object.\<close>

definition set_metadata :: "nat \<Rightarrow> XerAstProgram \<Rightarrow> XerAstProgram" where
  "set_metadata token_count p =
     (case AsObject (metadata p) of
        None \<Rightarrow> p
      | Some kvs \<Rightarrow> p\<lparr>metadata := VObject (Some (
          object_set ''import_count'' (VInteger (int (length (ast_imports p))))
           (object_set ''function_count'' (VInteger (int (length (ast_functions p))))
             (object_set ''token_count'' (VInteger (int token_count)) kvs))))\<rparr>)"

text \<open>\<open>CompileFromText\<close>: the result and the text left in \<open>error_out\<close>.\<close>

definition CompileFromText :: "icu \<Rightarrow> string \<Rightarrow> string \<Rightarrow> XerCompileResult \<times> string" where
  "CompileFromText icu source error_out =
     (case NormalizeSource icu source error_out of (normalized, error1) \<Rightarrow>
      case Tokenize icu normalized of (toks, error2) \<Rightarrow>
        if toks = [] then (\<lparr>normalized_source = normalized, tokens = toks, program = empty_ast\<rparr>, error2)
        else let p = compile_loop toks (empty_ast\<lparr>metadata := MakeObject\<rparr>);
                 p' = set_metadata (length toks) p;
                 summary = ''compiled '' @ show_nat (length toks) @ '' tokens, '' @
                   show_nat (length (ast_imports p')) @ '' imports, '' @
                   show_nat (length (ast_functions p')) @ '' functions''
             in (\<lparr>normalized_source = normalized, tokens = toks, program = p'\<rparr>,
                 if error2 = [] then summary else error2))"

subsection \<open>XerUtil\<close>

text \<open>\<open>std::filesystem::path::extension\<close> of a POSIX path.\<close>

definition path_filename :: "string \<Rightarrow> string" where
  "path_filename path = rev (takeWhile (\<lambda>c. c \<noteq> CHR ''/'') (rev path))"

definition path_extension :: "string \<Rightarrow> string" where
  "path_extension path =
     (let name = path_filename path;
          ext = rev (takeWhile (\<lambda>c. c \<noteq> CHR ''.'') (rev name))
      in if name = ''.'' \<or> name = ''..'' \<or> length ext + 1 \<ge> length name then [] else CHR ''.'' # ext)"

definition ExtensionOf :: "string \<Rightarrow> string" where
  "ExtensionOf path = map c_tolower (path_extension path)"

definition IsXerPath :: "string \<Rightarrow> bool" where
  "IsXerPath path \<longleftrightarrow> ExtensionOf path = ''.xer''"

definition FormatLocation :: "XerSourceLocation \<Rightarrow> string" where
  "FormatLocation location = show_nat (line location) @ '':'' @ show_nat (column location)"

text \<open>
  The file system is a parameter: whether a path exists and what \<open>ToolTo::ReadTextFile\<close> (the
  asynchronous reader) returns for it.
\<close>

record file_system =
  exists :: "string \<Rightarrow> bool"
  read_text :: "string \<Rightarrow> string"

definition ReadSourceFile :: "file_system \<Rightarrow> string \<Rightarrow> string \<times> string" where
  "ReadSourceFile fs path =
     (if \<not> exists fs path then ([], ''source file does not exist'') else (read_text fs path, []))"

definition CompileFromFile :: "icu \<Rightarrow> file_system \<Rightarrow> string \<Rightarrow> XerCompileResult \<times> string" where
  "CompileFromFile icu fs path =
     (case ReadSourceFile fs path of (source, error) \<Rightarrow>
        if source = [] \<and> \<not> exists fs path
        then (\<lparr>normalized_source = [], tokens = [], program = empty_ast\<rparr>, error)
        else CompileFromText icu source error)"

section \<open>Agreement with the parser\<close>

text \<open>Token kinds that neither open an import nor occur in a function head after the name.\<close>

definition plain :: "XerTokenKind \<Rightarrow> bool" where
  "plain k \<longleftrightarrow> k \<noteq> kImport \<and> k \<noteq> kAsync \<and> k \<noteq> kArrow \<and> k \<noteq> kThen"

definition quiet_next :: "XerToken list \<Rightarrow> bool" where
  "quiet_next rest \<longleftrightarrow> rest \<noteq> [] \<and> tok_kind (hd rest) \<noteq> kLParen \<and> tok_kind (hd rest) \<noteq> kRParen \<and>
     tok_kind (hd rest) \<noteq> kArrow"

lemma not_function_start:
  assumes "list_all (\<lambda>t. plain (tok_kind t)) (t # us)" "quiet_next rest"
  shows "\<not> IsFunctionStart (t # us @ rest)" "\<not> IsImportStart (t # us @ rest)"
proof -
  obtain r rs where r: "rest = r # rs" "tok_kind r \<noteq> kLParen" "tok_kind r \<noteq> kRParen" "tok_kind r \<noteq> kArrow"
    using assms(2) by (cases rest) (auto simp: quiet_next_def)
  have o: "async_offset (t # us @ rest) = 0" using assms(1) by (auto simp: async_offset_def kind_at_def plain_def)
  consider "us = []" | a where "us = [a]" | a b where "us = [a, b]" | a b c vs where "us = a # b # c # vs"
    by (cases us; cases "tl us"; cases "tl (tl us)") auto
  then show "\<not> IsFunctionStart (t # us @ rest)"
    using assms(1) r o by cases (auto simp: IsFunctionStart_def plain_def)
  show "\<not> IsImportStart (t # us @ rest)" using assms(1) by (auto simp: IsImportStart_def kind_at_def plain_def)
qed

lemma compile_loop_import:
  "IsImportStart toks \<Longrightarrow> compile_loop toks p = compile_loop (tl toks) (p\<lparr>ast_imports := ast_imports p @
     [MakeImport (tok_text (toks ! 2)) (tok_text (toks ! 5)) (span_range (hd toks) (toks ! 5))]\<rparr>)"
  by (cases toks) (simp_all add: Let_def IsImportStart_def kind_at_def)

lemma compile_loop_function:
  "\<not> IsImportStart toks \<Longrightarrow> IsFunctionStart toks \<Longrightarrow> compile_loop toks p =
     (case body_loop (drop (async_offset toks + 5) toks)
        (MakeFunction (tok_text (toks ! async_offset toks)) (tok_kind (hd toks) = kAsync)
          (span_range (hd toks) (toks ! (async_offset toks + 4)))) of (fn', body) \<Rightarrow>
      compile_loop (drop 1 body) (p\<lparr>ast_functions := ast_functions p @ [fn']\<rparr>))"
  by (cases toks) (simp_all add: Let_def IsFunctionStart_def)

lemma compile_loop_other:
  "\<not> IsImportStart (t # rest) \<Longrightarrow> \<not> IsFunctionStart (t # rest) \<Longrightarrow> compile_loop (t # rest) p =
     compile_loop rest (if tok_kind t = kIdentifier \<and> kind_at rest 0 kLParen
       then AddTopLevelCall (MakeCall (tok_text t) None (tok_range t)) p else p)"
  by (simp add: Let_def)

declare compile_loop.simps(2) [simp del]

lemma compile_skip:
  "list_all (\<lambda>t. plain (tok_kind t)) us \<Longrightarrow> quiet_next rest \<Longrightarrow>
   \<exists>cs. compile_loop (us @ rest) p = compile_loop rest (p\<lparr>top_level_calls := top_level_calls p @ cs\<rparr>)"
proof (induction us arbitrary: p)
  case Nil
  show ?case by (intro exI [of _ "[]"]) simp
next
  case (Cons t us)
  have "\<exists>c. compile_loop ((t # us) @ rest) p = compile_loop (us @ rest) (p\<lparr>top_level_calls := top_level_calls p @ c\<rparr>)"
    using not_function_start [OF Cons.prems]
    by (cases "tok_kind t = kIdentifier \<and> kind_at (us @ rest) 0 kLParen")
       (auto simp: compile_loop_other AddTopLevelCall_def intro: exI [of _ "[]"])
  then obtain c where c: "compile_loop ((t # us) @ rest) p =
      compile_loop (us @ rest) (p\<lparr>top_level_calls := top_level_calls p @ c\<rparr>)" ..
  from Cons.IH [of "p\<lparr>top_level_calls := top_level_calls p @ c\<rparr>"] Cons.prems obtain cs where
    "compile_loop (us @ rest) (p\<lparr>top_level_calls := top_level_calls p @ c\<rparr>) =
      compile_loop rest (p\<lparr>top_level_calls := top_level_calls p @ c @ cs\<rparr>)" by auto
  with c show ?case by (intro exI [of _ "c @ cs"]) simp
qed

lemma body_skip:
  "list_all (\<lambda>t. tok_kind t \<noteq> kLocal \<and> tok_kind t \<noteq> kEnd) us \<Longrightarrow>
   \<exists>cs. body_loop (us @ rest) fn = body_loop rest (fn\<lparr>calls := calls fn @ cs\<rparr>)"
proof (induction us arbitrary: fn)
  case Nil
  show ?case by (intro exI [of _ "[]"]) simp
next
  case (Cons t us)
  have "\<exists>c. body_token t (us @ rest) fn = fn\<lparr>calls := calls fn @ c\<rparr>"
    using Cons.prems by (auto simp: body_token_def AddCall_def Let_def intro: exI [of _ "[]"])
  then obtain c where c: "body_token t (us @ rest) fn = fn\<lparr>calls := calls fn @ c\<rparr>" ..
  from Cons.IH [of "fn\<lparr>calls := calls fn @ c\<rparr>"] Cons.prems obtain cs where
    "body_loop (us @ rest) (fn\<lparr>calls := calls fn @ c\<rparr>) = body_loop rest (fn\<lparr>calls := calls fn @ c @ cs\<rparr>)" by auto
  with c Cons.prems show ?case by (intro exI [of _ "c @ cs"]) simp
qed

text \<open>Token kinds inside expressions.\<close>

definition inner :: "XerTokenKind \<Rightarrow> bool" where
  "inner k \<longleftrightarrow> plain k \<and> k \<noteq> kLocal \<and> k \<noteq> kEnd"

lemma inner_toks:
  shows "expr_toks e us \<Longrightarrow> list_all (\<lambda>t. inner (t_kind t)) us"
    and "map_toks es us \<Longrightarrow> list_all (\<lambda>t. inner (t_kind t)) us"
    and "arg_toks a us \<Longrightarrow> list_all (\<lambda>t. inner (t_kind t)) us"
    and "args_toks as us \<Longrightarrow> list_all (\<lambda>t. inner (t_kind t)) us"
  by (induction rule: expr_toks_map_toks_arg_toks_args_toks.inducts) (auto simp: inner_def plain_def)

fun stmt_locals :: "Statement \<Rightarrow> string list" where
  "stmt_locals (LocalAssignment l x e) = [x]"
| "stmt_locals (ExpressionStatement l e) = []"

lemma list_all_erase: "list_all (\<lambda>t. P (t_kind t)) (map erase_range xs) = list_all (\<lambda>t. P (tok_kind t)) xs"
  by (induction xs) auto

lemma body_loop_stmt:
  assumes "stmt_toks s (map erase_range us)"
  shows "\<exists>cs. body_loop (us @ rest) fn =
    body_loop rest (fn\<lparr>locals := locals fn @ stmt_locals s, calls := calls fn @ cs\<rparr>)"
  using assms
proof cases
  case (assign l x q e vs)
  then obtain l' x' q' vs' where us: "us = l' # x' # q' # vs'" "tok_kind l' = kLocal" "tok_kind x' = kIdentifier"
    "tok_text x' = t_text x" "tok_kind q' = kEqual" "vs = map erase_range vs'"
    by (auto simp: map_eq_Cons_conv)
  with assign inner_toks(1) [of e vs] have "list_all (\<lambda>t. tok_kind t \<noteq> kLocal \<and> tok_kind t \<noteq> kEnd) (x' # q' # vs')"
    by (auto simp: list_all_iff inner_def)
  from body_skip [OF this, of rest "fn\<lparr>locals := locals fn @ [t_text x]\<rparr>"] us assign show ?thesis
    by (auto simp: body_token_def kind_at_def AddLocal_def)
next
  case (expr e t vs)
  with inner_toks(1) [of e "t # vs"] have "list_all (\<lambda>t. inner (tok_kind t)) us"
    using list_all_erase [of inner us] by simp
  then have "list_all (\<lambda>t. tok_kind t \<noteq> kLocal \<and> tok_kind t \<noteq> kEnd) us" by (auto simp: list_all_iff inner_def)
  from body_skip [OF this, of rest fn] expr show ?thesis by simp
qed

lemma body_loop_body:
  "body_toks bs us \<Longrightarrow> us = map erase_range xs \<Longrightarrow>
   \<exists>cs. body_loop (xs @ rest) fn =
     body_loop rest (fn\<lparr>locals := locals fn @ concat (map stmt_locals bs), calls := calls fn @ cs\<rparr>)"
proof (induction arbitrary: xs fn rule: body_toks.induct)
  case body_nil
  then show ?case by (intro exI [of _ "[]"]) simp
next
  case (body_cons s us ss bs vs)
  from body_cons.prems obtain xs1 xs2 xs3 where x: "xs = xs1 @ xs2 @ xs3" "us = map erase_range xs1"
    "ss = map erase_range xs2" "vs = map erase_range xs3" by (metis map_eq_append_conv)
  from body_loop_stmt [of s xs1 "xs2 @ xs3 @ rest" fn] body_cons(1) x(2) obtain c1 where
    c1: "body_loop (xs @ rest) fn = body_loop (xs2 @ xs3 @ rest)
      (fn\<lparr>locals := locals fn @ stmt_locals s, calls := calls fn @ c1\<rparr>)" using x(1) by auto
  have "list_all (\<lambda>t. tok_kind t \<noteq> kLocal \<and> tok_kind t \<noteq> kEnd) xs2"
    using body_cons(2) x(3) by (auto simp: opt_semi_def map_eq_Cons_conv)
  from body_skip [OF this, of "xs3 @ rest" "fn\<lparr>locals := locals fn @ stmt_locals s, calls := calls fn @ c1\<rparr>"] c1
  obtain c2 where c2: "body_loop (xs @ rest) fn = body_loop (xs3 @ rest)
      (fn\<lparr>locals := locals fn @ stmt_locals s, calls := calls fn @ c2\<rparr>)" by auto
  from body_cons.IH [OF x(4), of "fn\<lparr>locals := locals fn @ stmt_locals s, calls := calls fn @ c2\<rparr>"]
  obtain c3 where "body_loop (xs3 @ rest) (fn\<lparr>locals := locals fn @ stmt_locals s, calls := calls fn @ c2\<rparr>) =
    body_loop rest (fn\<lparr>locals := locals fn @ stmt_locals s @ concat (map stmt_locals bs), calls := calls fn @ c2 @ c3\<rparr>)"
    by auto
  with c2 show ?case by (intro exI [of _ "c2 @ c3"]) simp
qed

lemma quiet_item:
  "xs \<noteq> [] \<Longrightarrow> item_start (tok_kind (hd xs)) \<Longrightarrow> opt_semi (map erase_range ss) \<Longrightarrow>
   quiet_next xs \<and> list_all (\<lambda>t. plain (tok_kind t)) ss"
  by (auto simp: quiet_next_def item_start_def expr_start_def opt_semi_def plain_def map_eq_Cons_conv)

text \<open>A program of the parser and the outline of the compiler tell the same.\<close>

definition import_outline :: "ImportDeclaration \<Rightarrow> string \<times> string" where
  "import_outline d = (import_module d, import_alias d)"

definition function_outline :: "FunctionDeclaration \<Rightarrow> string \<times> bool \<times> string list" where
  "function_outline f = (function_name f, is_async f, concat (map stmt_locals (function_body f)))"

definition ast_import_outline :: "XerAstImport \<Rightarrow> string \<times> string" where
  "ast_import_outline d = (ast_module_name d, ast_alias d)"

definition ast_function_outline :: "XerAstFunction \<Rightarrow> string \<times> bool \<times> string list" where
  "ast_function_outline f = (ast_name f, ast_is_async f, locals f)"

definition same_outline :: "Program \<Rightarrow> XerAstProgram \<Rightarrow> bool" where
  "same_outline p ast \<longleftrightarrow>
     map ast_import_outline (ast_imports ast) = map import_outline (prog_imports p) \<and>
     map ast_function_outline (ast_functions ast) = map function_outline (prog_functions p)"

lemma compile_import:
  assumes "import_toks d (map erase_range us)" "rest \<noteq> []" "item_start (tok_kind (hd rest))"
  shows "\<exists>cs i. compile_loop (us @ rest) ast = compile_loop rest
      (ast\<lparr>ast_imports := ast_imports ast @ [i], top_level_calls := top_level_calls ast @ cs\<rparr>) \<and>
    ast_import_outline i = import_outline d"
  using assms(1)
proof cases
  case (1 i lp m rp a x ss)
  then obtain i' lp' m' rp' a' x' ss' where us: "us = i' # lp' # m' # rp' # a' # x' # ss'" "tok_kind i' = kImport"
    "tok_kind lp' = kLParen" "tok_kind m' = kString" "tok_text m' = t_text m" "tok_kind rp' = kRParen" "tok_kind a' = kAs"
    "tok_kind x' = kIdentifier" "tok_text x' = t_text x" "ss = map erase_range ss'"
    by (auto simp: map_eq_Cons_conv)
  let ?ast = "ast\<lparr>ast_imports := ast_imports ast @ [MakeImport (tok_text m') (tok_text x') (span_range i' x')]\<rparr>"
  have q: "quiet_next rest" "list_all (\<lambda>t. plain (tok_kind t)) (lp' # m' # rp' # a' # x' # ss')"
    using quiet_item [OF assms(2,3), of ss'] 1 us by (auto simp: plain_def)
  have "compile_loop (us @ rest) ast = compile_loop ((lp' # m' # rp' # a' # x' # ss') @ rest) ?ast"
  proof -
    have "IsImportStart (us @ rest)" using us by (simp add: IsImportStart_def kind_at_def)
    from compile_loop_import [OF this, of ast] us show ?thesis by simp
  qed
  moreover from compile_skip [OF q(2,1), of ?ast] obtain cs where
    "compile_loop ((lp' # m' # rp' # a' # x' # ss') @ rest) ?ast =
       compile_loop rest (?ast\<lparr>top_level_calls := top_level_calls ?ast @ cs\<rparr>)" ..
  moreover have "ast_import_outline (MakeImport (tok_text m') (tok_text x') (span_range i' x')) = import_outline d"
    using 1(1) us(5,9) by (simp add: ast_import_outline_def import_outline_def MakeImport_def)
  ultimately show ?thesis
    by (intro exI [of _ cs] exI [of _ "MakeImport (tok_text m') (tok_text x') (span_range i' x')"]) simp
qed

lemma compile_function:
  assumes "function_toks f (map erase_range us)" "rest \<noteq> []" "item_start (tok_kind (hd rest))"
  shows "\<exists>cs g. compile_loop (us @ rest) ast = compile_loop rest
      (ast\<lparr>ast_functions := ast_functions ast @ [g], top_level_calls := top_level_calls ast @ cs\<rparr>) \<and>
    ast_function_outline g = function_outline f"
  using assms(1)
proof cases
  case (1 as ft lp rp ar th lb bs vs rb en ss)
  from 1(2) obtain as' f' lp' rp' ar' th' lb' vs' rb' en' ss' where
    us0: "us = as' @ f' # lp' # rp' # ar' # th' # lb' # vs' @ rb' # en' # ss'" "as = map erase_range as'"
      "ft = erase_range f'" "lp = erase_range lp'" "rp = erase_range rp'" "ar = erase_range ar'"
      "th = erase_range th'" "lb = erase_range lb'" "vs = map erase_range vs'"
      "rb = erase_range rb'" "en = erase_range en'" "ss = map erase_range ss'"
    by (auto simp: map_eq_append_conv map_eq_Cons_conv Cons_eq_map_conv append_eq_map_conv)
  from us0 1 have us: "us = as' @ f' # lp' # rp' # ar' # th' # lb' # vs' @ rb' # en' # ss'" "as = map erase_range as'"
      "tok_kind f' = kIdentifier" "tok_text f' = t_text ft" "tok_kind lp' = kLParen" "tok_kind rp' = kRParen"
      "tok_kind ar' = kArrow" "tok_kind th' = kThen" "tok_kind lb' = kLBrace" "vs = map erase_range vs'"
      "tok_kind rb' = kRBrace" "tok_kind en' = kEnd" "ss = map erase_range ss'" by auto
  let ?head = "us @ rest"
  define off where "off = async_offset ?head"
  have as: "as' = [] \<and> as = [] \<or> (\<exists>t. as' = [t] \<and> tok_kind t = kAsync \<and> as \<noteq> [])"
    using 1(3) us(2) by (auto simp: map_eq_Cons_conv)
  then have off: "off = length as'" "IsFunctionStart ?head" "\<not> IsImportStart ?head"
    using us by (auto simp: off_def async_offset_def kind_at_def IsFunctionStart_def IsImportStart_def Let_def)
  let ?t = "hd ?head"
  define fn where "fn = MakeFunction (tok_text (?head ! off)) (tok_kind ?t = kAsync) (span_range ?t (?head ! (off + 4)))"
  have fn: "ast_name fn = t_text ft" "ast_is_async fn = (as \<noteq> [])" "locals fn = []"
    using as us off(1) by (auto simp: fn_def MakeFunction_def)
  have drop: "drop (off + 5) ?head = ([lb'] @ vs') @ rb' # en' # ss' @ rest"
    using us(1) off(1) by simp
  from body_loop_body [OF 1(10) us(10), of "rb' # en' # ss' @ rest" fn] obtain cs where
    "body_loop (vs' @ rb' # en' # ss' @ rest) fn = body_loop (rb' # en' # ss' @ rest)
      (fn\<lparr>locals := locals fn @ concat (map stmt_locals bs), calls := calls fn @ cs\<rparr>)" by blast
  then obtain g where g: "body_loop (drop (off + 5) ?head) fn = (g, en' # ss' @ rest)"
    "ast_name g = t_text ft" "ast_is_async g = (as \<noteq> [])" "locals g = concat (map stmt_locals bs)"
    unfolding drop using us fn by (auto simp: body_token_def)
  have "compile_loop ?head ast = compile_loop (ss' @ rest) (ast\<lparr>ast_functions := ast_functions ast @ [g]\<rparr>)"
    using compile_loop_function [OF off(3,2), of ast] g(1) by (simp add: off_def fn_def)
  moreover have "quiet_next rest" "list_all (\<lambda>t. plain (tok_kind t)) ss'"
    using quiet_item [OF assms(2,3), of ss'] 1 us by auto
  ultimately show ?thesis
    using compile_skip [of ss' rest "ast\<lparr>ast_functions := ast_functions ast @ [g]\<rparr>"] g 1
    by (auto simp: ast_function_outline_def function_outline_def)
qed

lemma compile_statement:
  assumes "stmt_toks s (map erase_range us)" "opt_semi (map erase_range ss)" "rest \<noteq> []"
    "item_start (tok_kind (hd rest))"
  shows "\<exists>cs. compile_loop (us @ ss @ rest) ast =
    compile_loop rest (ast\<lparr>top_level_calls := top_level_calls ast @ cs\<rparr>)"
proof -
  from assms(1) have "list_all (\<lambda>t. plain (t_kind t)) (map erase_range us)"
    by cases (auto dest!: inner_toks(1) simp: inner_def plain_def list_all_iff)
  then have "list_all (\<lambda>t. plain (tok_kind t)) us" by (simp only: list_all_erase)
  with quiet_item [OF assms(3,4,2)] compile_skip [of "us @ ss" rest ast] show ?thesis by simp
qed

lemma compile_program:
  "program_toks p toks p' \<Longrightarrow> toks = map erase_range xs \<Longrightarrow> same_outline p ast \<Longrightarrow>
   same_outline p' (compile_loop xs ast)"
proof (induction arbitrary: xs ast rule: program_toks.induct)
  case (prog_eof t p)
  then obtain x where "xs = [x]" "tok_kind x = kEndOfFile" by auto
  then have "compile_loop xs ast = ast"
    by (simp add: compile_loop_other IsImportStart_def IsFunctionStart_def kind_at_def)
  with prog_eof show ?case by simp
next
  case (prog_import d us p toks p')
  from prog_import.prems(1) obtain ys zs where x: "xs = ys @ zs" "us = map erase_range ys" "toks = map erase_range zs"
    by (metis map_eq_append_conv)
  have z: "zs \<noteq> []" "item_start (tok_kind (hd zs))"
    using program_toks_first [OF prog_import(2)] x(3) by (auto simp: hd_map)
  from compile_import [of d ys zs ast] prog_import(1) x z obtain cs i where
    c: "compile_loop xs ast = compile_loop zs
      (ast\<lparr>ast_imports := ast_imports ast @ [i], top_level_calls := top_level_calls ast @ cs\<rparr>)"
      "ast_import_outline i = import_outline d" by auto
  show ?case unfolding c(1)
    by (rule prog_import.IH [OF x(3)]) (use prog_import.prems(2) c(2) in \<open>simp add: same_outline_def\<close>)
next
  case (prog_function f us p toks p')
  from prog_function.prems(1) obtain ys zs where x: "xs = ys @ zs" "us = map erase_range ys" "toks = map erase_range zs"
    by (metis map_eq_append_conv)
  have z: "zs \<noteq> []" "item_start (tok_kind (hd zs))"
    using program_toks_first [OF prog_function(2)] x(3) by (auto simp: hd_map)
  from compile_function [of f ys zs ast] prog_function(1) x z obtain cs g where
    c: "compile_loop xs ast = compile_loop zs
      (ast\<lparr>ast_functions := ast_functions ast @ [g], top_level_calls := top_level_calls ast @ cs\<rparr>)"
      "ast_function_outline g = function_outline f" by auto
  show ?case unfolding c(1)
    by (rule prog_function.IH [OF x(3)]) (use prog_function.prems(2) c(2) in \<open>simp add: same_outline_def\<close>)
next
  case (prog_statement s us ss p toks p')
  from prog_statement.prems(1) obtain ys ws zs where x: "xs = ys @ ws @ zs" "us = map erase_range ys"
    "ss = map erase_range ws" "toks = map erase_range zs" by (metis map_eq_append_conv)
  have z: "zs \<noteq> []" "item_start (tok_kind (hd zs))"
    using program_toks_first [OF prog_statement(3)] x(4) by (auto simp: hd_map)
  from compile_statement [of s ys ws zs ast] prog_statement(1,2) x z obtain cs where
    c: "compile_loop xs ast = compile_loop zs (ast\<lparr>top_level_calls := top_level_calls ast @ cs\<rparr>)" by auto
  show ?case unfolding c
    by (rule prog_statement.IH [OF x(4)]) (use prog_statement.prems(2) in \<open>simp add: same_outline_def\<close>)
qed

text \<open>A text the lexer accepts does not begin with a byte order mark.\<close>

lemma lexable_no_bom:
  assumes "Script_Tokenize source = Ok toks" shows "strip_bom source = source"
proof (rule ccontr)
  assume "strip_bom source \<noteq> source"
  then obtain c cs where s: "source = c # cs" "code c = 0xEF"
    by (cases source) (auto simp: strip_bom_def split: if_splits)
  have n: "c \<noteq> d" if "code d < 128" for d using s(2) that by auto
  have "\<not> c_isspace c" "\<not> (c_isalpha c \<or> c = CHR ''_'')" "\<not> c_isdigit c"
    using s(2) n by (auto simp: cctype_defs)
  moreover have "c \<noteq> CHR ''/''" by (rule n) simp
  moreover have "script_lex_token c cs l = Fail (ParserError l (''unexpected character '' @ quoted [c]))" for l
    using \<open>\<not> (c_isalpha c \<or> c = CHR ''_'')\<close> \<open>\<not> c_isdigit c\<close>
    by (simp add: script_lex_token_def n ch_quote_def)
  ultimately have "Script_Tokenize source = Fail (ParserError start_location (''unexpected character '' @ quoted [c]))"
    unfolding Script_Tokenize_def s(1) by (subst script_tokenize_loop.simps) (simp add: Script_Skip_eq)
  with assms show False by simp
qed

text \<open>
  C8. The compiler's outline is right: whenever the interpreter's lexer and parser accept a source
  text, \<open>CompileFromText\<close> (in a build without ICU) reports exactly the imports, the functions, their
  asynchrony and their local names of the parsed program, and its metadata holds the counts.
\<close>

theorem CompileFromText_outline:
  assumes "Script_Tokenize (strip_bom source) = Ok toks" "ParseProgram toks = Ok p"
  shows "let ast = program (fst (CompileFromText NoIcu source err)) in
    map ast_import_outline (ast_imports ast) = map import_outline (prog_imports p) \<and>
    map ast_function_outline (ast_functions ast) = map function_outline (prog_functions p) \<and>
    metadata ast = VObject (Some [(''token_count'', VInteger (int (length toks))),
      (''function_count'', VInteger (int (length (prog_functions p)))),
      (''import_count'', VInteger (int (length (prog_imports p))))])"
proof -
  from assms(1) obtain xts where x: "Lexer_Tokenize (strip_bom source) = Ok xts" "toks = map erase_range xts"
    unfolding Script_Tokenize_def Lexer_Tokenize_def by (blast dest: script_tokenize_loop_sim)
  have wf: "wf_toks toks" using sl.ends_with_eof [OF assms(1)] by (auto simp: wf_toks_def list_all_iff)
  have "program_toks empty_program toks p"
    using assms(2) wf unfolding ParseProgram_def by (rule parse_program_loop_Ok)
  from compile_program [OF this x(2), of "empty_ast\<lparr>metadata := MakeObject\<rparr>"]
  have o: "same_outline p (compile_loop xts (empty_ast\<lparr>metadata := MakeObject\<rparr>))"
    by (simp add: same_outline_def empty_program_def empty_ast_def)
  have m: "metadata (compile_loop ts a) = metadata a" for ts a
    by (induction ts a rule: compile_loop.induct)
       (auto simp: compile_loop.simps(2) Let_def AddTopLevelCall_def split: prod.splits)
  have "Tokenize NoIcu (strip_bom source) = (xts, [])"
    using x(1) lexable_no_bom [OF assms(1)] by (simp add: Tokenize_def NormalizeSource_def)
  moreover have "xts \<noteq> []" using wf x(2) by auto
  ultimately have "program (fst (CompileFromText NoIcu source err)) =
    set_metadata (length toks) (compile_loop xts (empty_ast\<lparr>metadata := MakeObject\<rparr>))"
    using x(2) by (simp add: CompileFromText_def NormalizeSource_def Let_def)
  with o m [of xts "empty_ast\<lparr>metadata := MakeObject\<rparr>"] show ?thesis
    by (simp add: set_metadata_def AsObject_def MakeObject_def same_outline_def Let_def)
       (metis length_map)
qed

theorem CompileFromText_outline_witness:
  "map ast_function_outline (ast_functions (program (fst (CompileFromText NoIcu ''f()->then{}end'' [])))) =
   [(''f'', False, [])]"
proof -
  let ?s = "''f()->then{}end''"
  let ?l = "\<lambda>n. \<lparr>line = 1, column = n\<rparr>"
  let ?toks = "[mk_tok kIdentifier ''f'' (?l 1), mk_tok kLParen ''('' (?l 2), mk_tok kRParen '')'' (?l 3),
    mk_tok kArrow ''->'' (?l 4), mk_tok kThen ''then'' (?l 6), mk_tok kLBrace ''{'' (?l 10),
    mk_tok kRBrace ''}'' (?l 11), mk_tok kEnd ''end'' (?l 12), mk_tok kEndOfFile [] (?l 15)]"
  let ?f = "\<lparr>function_loc = ?l 1, is_async = False, function_name = ''f'', function_body = []\<rparr>"
  have s: "strip_bom ?s = ?s" by (simp add: strip_bom_def)
  have "Script_Tokenize ?s = Ok ?toks" by code_simp
  then have t: "Script_Tokenize (strip_bom ?s) = Ok ?toks" unfolding s .
  have p: "ParseProgram ?toks = Ok (empty_program\<lparr>prog_functions := [?f]\<rparr>)" by code_simp
  have "map ast_function_outline (ast_functions (program (fst (CompileFromText NoIcu ?s [])))) = map function_outline [?f]"
    using CompileFromText_outline [OF t p, of "[]"] unfolding Let_def
    by (elim conjE) (simp only: empty_program_def Program.simps)
  also have "\<dots> = [(''f'', False, [])]" by code_simp
  finally show ?thesis .
qed

text \<open>
  The call list of a function is not a list of its calls: a method call is recorded a second time
  as a plain call of its method, and the key of an object literal is taken for a receiver.
\<close>

lemma body_calls_overcount:
  "map (\<lambda>c. (receiver c, callee c)) (calls (fst (body_loop (case Lexer_Tokenize ''t:now()'' of Ok ts \<Rightarrow> ts | _ \<Rightarrow> [])
     (MakeFunction ''f'' False \<lparr>range_begin = start_location, range_end = start_location\<rparr>)))) =
   [(Some ''t'', ''now''), (None, ''now'')]"
  "map (\<lambda>c. (receiver c, callee c)) (calls (fst (body_loop (case Lexer_Tokenize ''{k: v}'' of Ok ts \<Rightarrow> ts | _ \<Rightarrow> [])
     (MakeFunction ''f'' False \<lparr>range_begin = start_location, range_end = start_location\<rparr>)))) =
   [(Some ''k'', ''v'')]"
  by code_simp+

end
