(* ===== verification/XerBinary.thy ===== *)
theory XerBinary
  imports XER_Prelude
begin

text \<open>
  Memory images of plain structs on a little-endian target: integers as byte strings, copies
  with their bounds, and the contract (\<open>field_codec\<close>) that the struct images of the container
  format satisfy.
\<close>

section \<open>Little-endian integers\<close>

fun le_bytes :: "nat \<Rightarrow> 'a::len word \<Rightarrow> bytes" where
  "le_bytes 0 w = []"
| "le_bytes (Suc n) w = ucast w # le_bytes n (drop_bit 8 w)"

fun le_word :: "bytes \<Rightarrow> 'a::len word" where
  "le_word [] = 0"
| "le_word (b # bs) = ucast b OR push_bit 8 (le_word bs)"

lemma length_le_bytes [simp]: "length (le_bytes n w) = n"
  by (induction n arbitrary: w) auto

lemma nth_le_bytes: "k < n \<Longrightarrow> le_bytes n w ! k = ucast (drop_bit (8 * k) w)"
  by (induction n arbitrary: w k) (auto simp: nth_Cons drop_bit_drop_bit add.commute split: nat.splits)

lemma bit_le_word:
  "bit (le_word bs :: 'a::len word) i \<longleftrightarrow> i < LENGTH('a) \<and> i div 8 < length bs \<and> bit (bs ! (i div 8)) (i mod 8)"
proof (induction bs arbitrary: i)
  case Nil
  then show ?case by simp
next
  case (Cons b bs)
  show ?case
  proof (cases "i < 8")
    case True
    then show ?thesis by (auto simp: bit_or_iff bit_push_bit_iff bit_ucast_iff)
  next
    case False
    then have i: "i div 8 = Suc ((i - 8) div 8)" "i mod 8 = (i - 8) mod 8"
      by (simp_all add: le_div_geq le_mod_geq)
    have b: "\<not> bit b i" using False bit_imp_le_length [of b i] by auto
    show ?thesis using False Cons.IH [of "i - 8"] b
      by (auto simp: bit_or_iff bit_push_bit_iff bit_ucast_iff i)
  qed
qed

lemma le_word_le_bytes [simp]:
  assumes "LENGTH('a::len) \<le> 8 * n"
  shows "le_word (le_bytes n (w :: 'a word)) = w"
proof (rule bit_word_eqI)
  fix i assume i: "i < LENGTH('a)"
  then have n: "i div 8 < n" using assms by linarith
  have "8 * (i div 8) + i mod 8 = i" by simp
  then show "bit (le_word (le_bytes n w) :: 'a word) i \<longleftrightarrow> bit w i"
    using i n by (simp add: bit_le_word nth_le_bytes bit_ucast_iff bit_drop_bit_eq)
qed

lemma le_bytes_le_word [simp]:
  assumes "length bs = n" "8 * n \<le> LENGTH('a::len)"
  shows "le_bytes n (le_word bs :: 'a word) = bs"
proof (rule nth_equalityI)
  show "length (le_bytes n (le_word bs :: 'a word)) = length bs" using assms by simp
  fix k assume "k < length (le_bytes n (le_word bs :: 'a word))"
  then have k: "k < n" by simp
  show "le_bytes n (le_word bs :: 'a word) ! k = bs ! k"
  proof (rule bit_word_eqI)
    fix j :: nat assume "j < LENGTH(8)"
    then have j: "j < 8" by simp
    have "(8 * k + j) div 8 = k" "(8 * k + j) mod 8 = j" using j by simp_all
    moreover have "8 * k + j < LENGTH('a)" using k j assms by linarith
    ultimately show "bit (le_bytes n (le_word bs :: 'a word) ! k) j \<longleftrightarrow> bit (bs ! k) j"
      using k j assms by (simp add: nth_le_bytes bit_ucast_iff bit_drop_bit_eq bit_le_word)
  qed
qed

section \<open>Copies\<close>

text \<open>\<open>memcpy (dst + off, src, n)\<close> and \<open>memcpy (dst, src + off, n)\<close> with the bounds of the buffer.\<close>

definition memcpy :: "nat \<Rightarrow> bytes \<Rightarrow> bytes \<Rightarrow> ('e, bytes) exec" where
  "memcpy off src dst =
     (if off + length src \<le> length dst then Ok (take off dst @ src @ drop (off + length src) dst) else Undef)"

definition mem_read :: "nat \<Rightarrow> nat \<Rightarrow> bytes \<Rightarrow> ('e, bytes) exec" where
  "mem_read off n src = (if off + n \<le> length src then Ok (take n (drop off src)) else Undef)"

fun memcpys :: "(nat \<times> bytes) list \<Rightarrow> bytes \<Rightarrow> ('e, bytes) exec" where
  "memcpys [] dst = Ok dst"
| "memcpys ((off, src) # ps) dst = ebind (memcpy off src dst) (memcpys ps)"

fun contiguous :: "nat \<Rightarrow> (nat \<times> bytes) list \<Rightarrow> bool" where
  "contiguous o' [] \<longleftrightarrow> True"
| "contiguous o' ((off, src) # ps) \<longleftrightarrow> off = o' \<and> contiguous (o' + length src) ps"

lemma memcpys_contiguous:
  assumes "contiguous (length pre) ps" "length rest = sum_list (map (length \<circ> snd) ps)"
  shows "memcpys ps (pre @ rest) = Ok (pre @ concat (map snd ps))"
  using assms
proof (induction ps arbitrary: pre rest)
  case Nil
  then show ?case by simp
next
  case (Cons p ps)
  obtain off src where p: "p = (off, src)" by (cases p)
  have m: "memcpy off src (pre @ rest) = Ok ((pre @ src) @ drop (length src) rest)"
    using Cons.prems by (simp add: p memcpy_def)
  have c: "contiguous (length (pre @ src)) ps" using Cons.prems by (simp add: p)
  have l: "length (drop (length src) rest) = sum_list (map (length \<circ> snd) ps)"
    using Cons.prems by (simp add: p comp_def)
  show ?case using Cons.IH [OF c l] by (simp add: p m)
qed

section \<open>Struct images\<close>

text \<open>
  \<open>put\<close> writes the image of a value, \<open>get\<close> reads a value from the front of a buffer, \<open>width\<close> is
  \<open>sizeof\<close>, \<open>ok\<close> says that the arrays inside the value have their lengths.
\<close>

locale field_codec =
  fixes put :: "'a \<Rightarrow> bytes" and get :: "bytes \<Rightarrow> 'a" and width :: nat and ok :: "'a \<Rightarrow> bool"
  assumes length_put: "ok x \<Longrightarrow> length (put x) = width"
    and get_put: "ok x \<Longrightarrow> get (put x @ rest) = x"
    and put_get: "width \<le> length bs \<Longrightarrow> put (get bs) = take width bs"
    and ok_get: "width \<le> length bs \<Longrightarrow> ok (get bs)"
begin

lemma put_inject: "ok x \<Longrightarrow> ok y \<Longrightarrow> put x = put y \<longleftrightarrow> x = y"
  using get_put [of _ "[]"] by (metis append_Nil2)

lemma get_take: "width \<le> length bs \<Longrightarrow> get (take width bs) = get bs"
  using get_put [of "get bs" "[]"] put_get [of bs] ok_get [of bs] by simp

text \<open>An array of such structs, written one after the other, is read back by index.\<close>

lemma length_table: "list_all ok xs \<Longrightarrow> length (concat (map put xs)) = width * length xs"
  by (induction xs) (auto simp: length_put)

lemma get_table:
  "list_all ok xs \<Longrightarrow> i < length xs \<Longrightarrow> get (drop (width * i) (concat (map put xs) @ rest)) = xs ! i"
proof (induction xs arbitrary: i)
  case Nil
  then show ?case by simp
next
  case (Cons x xs)
  show ?case
  proof (cases i)
    case 0
    then show ?thesis using Cons.prems by (simp add: get_put)
  next
    case (Suc j)
    then have "drop (width * i) (concat (map put (x # xs)) @ rest) = drop (width * j) (concat (map put xs) @ rest)"
      using Cons.prems length_put [of x] by (simp add: drop_append)
    then show ?thesis using Cons Suc by simp
  qed
qed

lemma read_table:
  assumes "list_all ok xs" "length pre = off"
  shows "map (\<lambda>i. get (drop (off + width * i) (pre @ concat (map put xs) @ rest))) [0..<length xs] = xs"
proof (rule nth_equalityI)
  fix i assume "i < length (map (\<lambda>i. get (drop (off + width * i) (pre @ concat (map put xs) @ rest))) [0..<length xs])"
  moreover have "drop (off + width * i) (pre @ bs) = drop (width * i) bs" for bs i
    by (simp add: assms(2) [symmetric])
  ultimately show "map (\<lambda>i. get (drop (off + width * i) (pre @ concat (map put xs) @ rest))) [0..<length xs] ! i = xs ! i"
    using get_table [OF assms(1), of i rest] by (simp del: drop_append)
qed simp

end

interpretation le32: field_codec "le_bytes 4 :: u32 \<Rightarrow> bytes" "\<lambda>bs. le_word (take 4 bs)" 4 "\<lambda>_. True"
  by unfold_locales simp_all

interpretation le64: field_codec "le_bytes 8 :: u64 \<Rightarrow> bytes" "\<lambda>bs. le_word (take 8 bs)" 8 "\<lambda>_. True"
  by unfold_locales simp_all

end
