(* ===== verification/JsBuffer.thy ===== *)
theory JsBuffer
  imports XerBinary
begin

text \<open>
  The byte-buffer toolbox of \<^verbatim>\<open>src/src/helper/js_buffer.cc\<close>: text conversion, hexadecimal
  encoding, copying, searching, filling, slicing and byte swapping over spans. A mutable span is
  returned updated; sizes are natural numbers. Unicode normalisation is a parameter: \<open>None\<close> when
  ICU reports a failure.
\<close>

section \<open>Definitions\<close>

type_synonym nfc = "string \<Rightarrow> string option"

subsection \<open>Text\<close>

definition NormalizeUtf8 :: "nfc \<Rightarrow> string \<Rightarrow> string" where
  "NormalizeUtf8 icu s = (case icu s of None \<Rightarrow> s | Some normalized \<Rightarrow> normalized)"

definition AppendBytes :: "bytes option \<Rightarrow> bytes \<Rightarrow> bytes option" where
  "AppendBytes target bs = (case target of None \<Rightarrow> None | Some out \<Rightarrow> Some (if bs = [] then out else out @ bs))"

definition AppendString :: "nfc \<Rightarrow> bytes option \<Rightarrow> string \<Rightarrow> bool \<Rightarrow> bytes option" where
  "AppendString icu target s normalize_utf8 =
     (if target = None \<or> s = [] then target
      else AppendBytes target (bytes_of_string (if normalize_utf8 then NormalizeUtf8 icu s else s)))"

definition Js_FromString :: "nfc \<Rightarrow> string \<Rightarrow> bool \<Rightarrow> bytes" where
  "Js_FromString icu s normalize_utf8 = the (AppendString icu (Some []) s normalize_utf8)"

definition Js_ToString :: "nfc \<Rightarrow> bytes \<Rightarrow> bool \<Rightarrow> string" where
  "Js_ToString icu bs normalize_utf8 =
     (let out = string_of_bytes bs in if normalize_utf8 then NormalizeUtf8 icu out else out)"

subsection \<open>Hexadecimal\<close>

definition kHexDigits :: string where
  "kHexDigits = ''0123456789abcdef''"

definition HexNibble :: "char \<Rightarrow> int" where
  "HexNibble ch =
     (if 48 \<le> code ch \<and> code ch \<le> 57 then int (code ch) - 48
      else if 97 \<le> code ch \<and> code ch \<le> 102 then 10 + (int (code ch) - 97)
      else -1)"

definition StripAsciiWhitespace :: "string \<Rightarrow> string" where
  "StripAsciiWhitespace s = filter (\<lambda>c. \<not> c_isspace c) s"

fun HexEncode :: "bytes \<Rightarrow> string" where
  "HexEncode [] = []"
| "HexEncode (b # bs) =
     kHexDigits ! unat (drop_bit 4 b AND 0x0F) # kHexDigits ! unat (b AND 0x0F) # HexEncode bs"

fun hex_decode_loop :: "nat \<Rightarrow> string \<Rightarrow> bytes \<Rightarrow> (string, bytes) exec" where
  "hex_decode_loop index (h # l # rest) out =
     (let high = HexNibble h; low = HexNibble l in
      if high < 0 \<or> low < 0 then Fail (''invalid hex digit at index '' @ show_nat index)
      else hex_decode_loop (index + 2) rest (out @ [word_of_int (push_bit 4 high OR low)]))"
| "hex_decode_loop index [] out = Ok out"
| "hex_decode_loop index [h] out = Fail (''invalid hex digit at index '' @ show_nat index)"

definition HexDecode :: "string \<Rightarrow> bool \<Rightarrow> (string, bytes) exec" where
  "HexDecode hex target_given =
     (if \<not> target_given then Fail ''hex decode target is null''
      else let compact = map c_tolower (StripAsciiWhitespace hex) in
        if length compact mod 2 \<noteq> 0
        then Fail (''hex input must contain an even number of digits: '' @ show_nat (length compact))
        else hex_decode_loop 0 compact [])"

subsection \<open>Copying and comparing\<close>

text \<open>\<open>Copy\<close> returns the number of bytes copied and the destination.\<close>

definition Copy :: "bytes \<Rightarrow> bytes \<Rightarrow> nat \<Rightarrow> nat \<Rightarrow> nat \<Rightarrow> (string, nat \<times> bytes) exec" where
  "Copy source destination source_offset destination_offset max_length =
     (if source_offset \<ge> length source \<or> destination_offset \<ge> length destination then Ok (0, destination)
      else
        let count = min max_length (min (length source - source_offset) (length destination - destination_offset)) in
        if count = 0 then Ok (0, destination)
        else ebind (mem_read source_offset count source) (\<lambda>bs.
             ebind (memcpy destination_offset bs destination) (\<lambda>dst. Ok (count, dst))))"

definition Concat :: "bytes list \<Rightarrow> bytes" where
  "Concat segments = foldl (\<lambda>out segment. the (AppendBytes (Some out) segment)) [] segments"

fun lexicographical_compare :: "bytes \<Rightarrow> bytes \<Rightarrow> bool" where
  "lexicographical_compare [] [] \<longleftrightarrow> False"
| "lexicographical_compare [] (y # ys) \<longleftrightarrow> True"
| "lexicographical_compare (x # xs) [] \<longleftrightarrow> False"
| "lexicographical_compare (x # xs) (y # ys) \<longleftrightarrow>
     (if x < y then True else if y < x then False else lexicographical_compare xs ys)"

definition Compare :: "bytes \<Rightarrow> bytes \<Rightarrow> int" where
  "Compare lhs rhs = (if lhs = rhs then 0 else if lexicographical_compare lhs rhs then -1 else 1)"

subsection \<open>Searching\<close>

text \<open>\<open>ranges::search\<close>: the position of the first match, the length of the window without one.\<close>

fun search :: "bytes \<Rightarrow> bytes \<Rightarrow> nat" where
  "search [] needle = 0"
| "search (b # bs) needle = (if take (length needle) (b # bs) = needle then 0 else Suc (search bs needle))"

definition IndexOf :: "bytes \<Rightarrow> bytes \<Rightarrow> nat \<Rightarrow> int" where
  "IndexOf haystack needle off =
     (if off > length haystack then -1
      else if needle = [] then int off
      else let window = drop off haystack; begin_pos = search window needle in
        if begin_pos = length window then -1 else int off + int begin_pos)"

fun last_index_loop :: "bytes \<Rightarrow> bytes \<Rightarrow> nat \<Rightarrow> (string, int) exec" where
  "last_index_loop haystack needle start =
     ebind (mem_read start (length needle) haystack) (\<lambda>candidate.
       if candidate = needle then Ok (int start)
       else case start of 0 \<Rightarrow> Ok (-1) | Suc m \<Rightarrow> last_index_loop haystack needle m)"

definition LastIndexOf :: "bytes \<Rightarrow> bytes \<Rightarrow> nat \<Rightarrow> (string, int) exec" where
  "LastIndexOf haystack needle off =
     (let clamped_offset = min off (length haystack) in
      if needle = [] then Ok (int clamped_offset)
      else if length needle > length haystack then Ok (-1)
      else last_index_loop haystack needle (min clamped_offset (length haystack - length needle)))"

subsection \<open>Filling, slicing, swapping\<close>

text \<open>A store \<open>bytes[i] = b\<close>.\<close>

definition st :: "bytes \<Rightarrow> nat \<Rightarrow> byte \<Rightarrow> (string, bytes) exec" where
  "st bs i b = (if i < length bs then Ok (bs[i := b]) else Undef)"

function fill_loop :: "bytes \<Rightarrow> nat \<Rightarrow> nat \<Rightarrow> nat \<Rightarrow> bytes \<Rightarrow> (string, nat \<times> bytes) exec" where
  "fill_loop pattern index clamped_end written destination =
     (if index < clamped_end then
        ebind (rd pattern (written mod length pattern)) (\<lambda>b.
        ebind (st destination index b) (\<lambda>destination'.
        fill_loop pattern (index + 1) clamped_end (written + 1) destination'))
      else Ok (written, destination))"
  by pat_completeness auto
termination by (relation "measure (\<lambda>(p, i, e, w, d). e - i)") auto

definition Fill :: "bytes \<Rightarrow> bytes \<Rightarrow> nat \<Rightarrow> nat \<Rightarrow> (string, nat \<times> bytes) exec" where
  "Fill destination pattern off end_pos =
     (if pattern = [] \<or> off \<ge> length destination then Ok (0, destination)
      else let clamped_end = min end_pos (length destination) in
        if off \<ge> clamped_end then Ok (0, destination) else fill_loop pattern off clamped_end 0 destination)"

definition Slice :: "bytes \<Rightarrow> nat \<Rightarrow> nat \<Rightarrow> bytes" where
  "Slice source start end_pos =
     (let clamped_start = min start (length source); clamped_end = min end_pos (length source) in
      if clamped_start \<ge> clamped_end then []
      else take (clamped_end - clamped_start) (drop clamped_start source))"

definition swap_bytes :: "nat \<Rightarrow> nat \<Rightarrow> bytes \<Rightarrow> (string, bytes) exec" where
  "swap_bytes i j bs =
     ebind (rd bs i) (\<lambda>a. ebind (rd bs j) (\<lambda>b. ebind (st bs i b) (\<lambda>bs'. st bs' j a)))"

function swap_pairs :: "nat \<Rightarrow> nat \<Rightarrow> nat \<Rightarrow> bytes \<Rightarrow> (string, bytes) exec" where
  "swap_pairs width chunk index bs =
     (if index < width div 2 then
        ebind (swap_bytes (chunk + index) (chunk + width - 1 - index) bs) (swap_pairs width chunk (index + 1))
      else Ok bs)"
  by pat_completeness auto
termination by (relation "measure (\<lambda>(w, c, i, bs). w - i)") auto

text \<open>The outer loop of \<open>SwapChunks\<close>; \<open>n\<close> is the size of the span.\<close>

function swap_chunk_loop :: "nat \<Rightarrow> nat \<Rightarrow> nat \<Rightarrow> bytes \<Rightarrow> (string, bytes) exec" where
  "swap_chunk_loop width n chunk bs =
     (if chunk < n \<and> width \<noteq> 0 then
        ebind (swap_pairs width chunk 0 bs) (swap_chunk_loop width n (chunk + width))
      else Ok bs)"
  by pat_completeness auto
termination by (relation "measure (\<lambda>(w, n, c, bs). n - c)") auto

definition SwapChunks :: "nat \<Rightarrow> bytes \<Rightarrow> (string, bytes) exec" where
  "SwapChunks width bs =
     (if length bs mod width \<noteq> 0
      then Fail (''buffer size '' @ show_int (sint (of_nat (length bs) :: u32)) @ '' must be a multiple of '' @
        show_int (sint (of_nat width :: u32)))
      else swap_chunk_loop width (length bs) 0 bs)"

definition Swap16 :: "bytes \<Rightarrow> (string, bytes) exec" where "Swap16 = SwapChunks 2"
definition Swap32 :: "bytes \<Rightarrow> (string, bytes) exec" where "Swap32 = SwapChunks 4"
definition Swap64 :: "bytes \<Rightarrow> (string, bytes) exec" where "Swap64 = SwapChunks 8"

declare fill_loop.simps [simp del] swap_pairs.simps [simp del] swap_chunk_loop.simps [simp del]
  last_index_loop.simps [simp del]

section \<open>Hexadecimal round trip\<close>

lemma HexNibble_digit:
  assumes "n < 16"
  shows "HexNibble (kHexDigits ! n) = int n"
proof -
  have "n \<in> set [0..<16]" using assms by simp
  then show ?thesis by (auto simp: upt_rec kHexDigits_def HexNibble_def nth_Cons')
qed

lemma HexNibble_range: "HexNibble c < 16" "-1 \<le> HexNibble c"
  by (auto simp: HexNibble_def)

lemma code_kHexDigits: "n < 16 \<Longrightarrow> code (kHexDigits ! n) = (if n < 10 then 48 + n else 87 + n)"
proof -
  assume "n < 16"
  then have "n \<in> set [0..<16]" unfolding set_upt by simp
  then show ?thesis by (auto simp: upt_rec kHexDigits_def)
qed

lemma HexNibble_inverse:
  assumes "0 \<le> HexNibble c"
  shows "kHexDigits ! nat (HexNibble c) = c"
proof -
  have "nat (HexNibble c) < 16" using HexNibble_range(1) [of c] by simp
  then have "code (kHexDigits ! nat (HexNibble c)) = code c"
    using assms by (simp add: code_kHexDigits) (auto simp: HexNibble_def split: if_splits)
  then show ?thesis by (simp only: code_inject)
qed

lemma nibble_split: "word_of_int (push_bit 4 (int (unat (drop_bit 4 b AND 0x0F))) OR int (unat (b AND 0x0F))) = (b :: byte)"
proof -
  have m: "(0x0F :: byte) = mask 4" "int (unat w) = uint w" for w :: byte by (simp_all add: mask_eq_exp_minus_1)
  show ?thesis
    by (rule bit_word_eqI)
      (auto simp: m bit_simps not_le)
qed

lemma nibble_join:
  assumes "0 \<le> h" "h < 16" "0 \<le> l" "l < (16::int)"
  defines "b \<equiv> word_of_int (push_bit 4 h OR l) :: byte"
  shows "unat (drop_bit 4 b AND 0x0F) = nat h" "unat (b AND 0x0F) = nat l"
proof -
  have "nat h \<in> set [0..<16]" "nat l \<in> set [0..<16]" using assms(1-4) unfolding set_upt by simp_all
  then have hl: "int (nat h) \<in> set (map int [0..<16])" "int (nat l) \<in> set (map int [0..<16])"
    unfolding set_map by (blast intro: imageI)+
  then have hl: "h \<in> set (map int [0..<16])" "l \<in> set (map int [0..<16])" using assms(1-4) by simp_all
  show "unat (drop_bit 4 b AND 0x0F) = nat h" "unat (b AND 0x0F) = nat l"
    using hl unfolding b_def by (auto simp: upt_rec)
qed

lemma length_HexEncode [simp]: "length (HexEncode bs) = 2 * length bs"
  by (induction bs) auto

lemma HexEncode_eq_Cons:
  "h # l # rest = HexEncode bs \<longleftrightarrow>
     (\<exists>b cs. bs = b # cs \<and> h = kHexDigits ! unat (drop_bit 4 b AND 0x0F) \<and>
        l = kHexDigits ! unat (b AND 0x0F) \<and> rest = HexEncode cs)"
  by (cases bs) auto

lemma hex_decode_loop_iff:
  "hex_decode_loop i s out = Ok bs \<longleftrightarrow> (\<exists>bs'. bs = out @ bs' \<and> s = HexEncode bs')"
proof (induction i s out rule: hex_decode_loop.induct)
  case (1 i h l rest out)
  let ?b = "word_of_int (push_bit 4 (HexNibble h) OR HexNibble l) :: byte"
  show ?case
  proof (cases "HexNibble h < 0 \<or> HexNibble l < 0")
    case True
    have "h # l # rest \<noteq> HexEncode bs'" for bs'
    proof
      assume "h # l # rest = HexEncode bs'"
      then obtain b :: byte where "h = kHexDigits ! unat (drop_bit 4 b AND 0x0F)" "l = kHexDigits ! unat (b AND 0x0F)"
        unfolding HexEncode_eq_Cons by blast
      moreover have "unat (w AND 0x0F) < 16" for w :: byte
        using word_and_le1 [of w 15] by (simp add: word_le_nat_alt)
      ultimately show False using True by (auto simp: HexNibble_digit)
    qed
    then show ?thesis using True by (auto simp: Let_def)
  next
    case False
    note j = nibble_join [of "HexNibble h" "HexNibble l", OF _ HexNibble_range(1) _ HexNibble_range(1)]
    have hl: "kHexDigits ! unat (drop_bit 4 ?b AND 0x0F) = h" "kHexDigits ! unat (?b AND 0x0F) = l"
      using False by (simp_all add: j HexNibble_inverse)
    have "(\<exists>bs'. bs = (out @ [?b]) @ bs' \<and> rest = HexEncode bs') \<longleftrightarrow>
      (\<exists>bs'. bs = out @ bs' \<and> h # l # rest = HexEncode bs')" (is "?L \<longleftrightarrow> ?R")
    proof
      assume ?L then show ?R using hl by (metis HexEncode.simps(2) append_Cons append_Nil append_assoc)
    next
      assume ?R
      then obtain b :: byte and cs where b: "bs = out @ b # cs" "h = kHexDigits ! unat (drop_bit 4 b AND 0x0F)"
          "l = kHexDigits ! unat (b AND 0x0F)" "rest = HexEncode cs"
        unfolding HexEncode_eq_Cons by blast
      have lt: "unat (w AND 0x0F) < 16" for w :: byte
        using word_and_le1 [of w 15] by (simp add: word_le_nat_alt)
      have "?b = b" using nibble_split [of b] by (simp only: b(2,3) HexNibble_digit [OF lt])
      then show ?L using b by simp
    qed
    then show ?thesis using 1 False by (simp add: Let_def)
  qed
next
  case (2 i out)
  have "[] = HexEncode bs' \<longleftrightarrow> bs' = []" for bs' by (cases bs') auto
  then show ?case by auto
next
  case (3 i h out)
  have "[h] \<noteq> HexEncode bs'" for bs' by (cases bs') auto
  then show ?case by simp
qed

text \<open>
  \<open>HexDecode\<close> accepts a text exactly when, white space and letter case apart, it is what
  \<open>HexEncode\<close> prints, and then returns those bytes.
\<close>

theorem HexDecode_iff_HexEncode:
  "HexDecode s True = Ok bs \<longleftrightarrow> map c_tolower (StripAsciiWhitespace s) = HexEncode bs"
proof -
  define cs where "cs = map c_tolower (StripAsciiWhitespace s)"
  have "length cs mod 2 = 0" if "cs = HexEncode bs" using that by simp
  then show ?thesis unfolding HexDecode_def Let_def cs_def [symmetric]
    by (cases "length cs mod 2 = 0") (auto simp: hex_decode_loop_iff)
qed

lemma hex_digit_plain: "n < 16 \<Longrightarrow> \<not> c_isspace (kHexDigits ! n) \<and> c_tolower (kHexDigits ! n) = kHexDigits ! n"
proof -
  assume "n < 16"
  then have "n \<in> set [0..<16]" unfolding set_upt by simp
  then show ?thesis by (auto simp: upt_rec kHexDigits_def cctype_defs)
qed

section \<open>Searching\<close>

definition occurs :: "bytes \<Rightarrow> bytes \<Rightarrow> nat \<Rightarrow> bool" where
  "occurs needle haystack p \<longleftrightarrow> p + length needle \<le> length haystack \<and> take (length needle) (drop p haystack) = needle"

definition index_of_find :: "nat option \<Rightarrow> int" where
  "index_of_find r = (case r of None \<Rightarrow> -1 | Some p \<Rightarrow> int p)"

lemma occurs_Suc: "occurs needle (b # bs) (Suc p) \<longleftrightarrow> occurs needle bs p"
  by (simp add: occurs_def)

lemma occurs_take:
  assumes "needle \<noteq> []"
  shows "occurs needle bs p \<longleftrightarrow> take (length needle) (drop p bs) = needle"
proof -
  have "p + length needle \<le> length bs" if t: "take (length needle) (drop p bs) = needle"
  proof -
    have "min (length bs - p) (length needle) = length needle" using arg_cong [OF t, of length] by simp
    then show ?thesis using assms by (cases needle) auto
  qed
  then show ?thesis by (auto simp: occurs_def)
qed

lemma find_upt_shift: "find P [Suc m..<Suc n] = map_option Suc (find (\<lambda>i. P (Suc i)) [m..<n])"
proof -
  have "[Suc m..<Suc n] = map Suc [m..<n]" by (simp add: map_Suc_upt)
  moreover have "find P (map Suc xs) = map_option Suc (find (\<lambda>i. P (Suc i)) xs)" for xs by (induction xs) auto
  ultimately show ?thesis by simp
qed

lemma search_find:
  assumes "needle \<noteq> []"
  shows "search bs needle = (case find (occurs needle bs) [0..<length bs] of None \<Rightarrow> length bs | Some p \<Rightarrow> p)"
proof (induction bs)
  case Nil
  then show ?case by simp
next
  case (Cons b bs)
  have "[0..<length (b # bs)] = 0 # [Suc 0..<Suc (length bs)]" by (simp add: upt_rec)
  moreover have "(\<lambda>i. occurs needle (b # bs) (Suc i)) = occurs needle bs" by (simp add: occurs_Suc fun_eq_iff)
  ultimately show ?case using Cons
    by (auto simp: occurs_take [OF assms] find_upt_shift split: option.splits simp del: upt_Suc)
qed

lemma find_upt_offset: "find P [k..<k + n] = map_option ((+) k) (find (\<lambda>i. P (k + i)) [0..<n])"
proof -
  have "[k..<k + n] = map ((+) k) [0..<n]" by (rule nth_equalityI) auto
  moreover have "find P (map ((+) k) xs) = map_option ((+) k) (find (\<lambda>i. P (k + i)) xs)" for xs by (induction xs) auto
  ultimately show ?thesis by simp
qed

lemma occurs_drop: "off \<le> length h \<Longrightarrow> occurs needle (drop off h) p \<longleftrightarrow> occurs needle h (off + p)"
  by (auto simp: occurs_def add.commute)

lemma find_append: "find P (xs @ ys) = (case find P xs of None \<Rightarrow> find P ys | Some x \<Rightarrow> Some x)"
  by (induction xs) auto

lemma find_upt_last:
  "m \<le> n \<Longrightarrow> \<not> P n \<Longrightarrow> find P [m..<Suc n] = find P [m..<n]"
  by (auto simp: find_append split: option.splits)

lemma IndexOf_find:
  "IndexOf h needle off = index_of_find (find (occurs needle h) [off..<Suc (length h)])"
proof -
  consider "off > length h" | "off \<le> length h" "needle = []" | "off \<le> length h" "needle \<noteq> []" by linarith
  then show ?thesis
  proof cases
    case 1
    then show ?thesis by (simp add: IndexOf_def index_of_find_def)
  next
    case 2
    then show ?thesis by (simp add: IndexOf_def index_of_find_def upt_conv_Cons occurs_def del: upt_Suc)
  next
    case 3
    let ?f = "find (occurs needle (drop off h)) [0..<length (drop off h)]"
    have "\<not> occurs needle h (length h)" using 3 by (simp add: occurs_def)
    then have "find (occurs needle h) [off..<Suc (length h)] = find (occurs needle h) [off..<off + length (drop off h)]"
      using 3 find_upt_last [of off "length h" "occurs needle h"] by (simp del: upt_Suc)
    also have "\<dots> = map_option ((+) off) ?f"
      unfolding find_upt_offset occurs_drop [OF 3(1), abs_def] by (rule refl)
    finally have e: "find (occurs needle h) [off..<Suc (length h)] = map_option ((+) off) ?f" .
    have b: "p < length (drop off h)" if "?f = Some p" for p using that by (auto simp: find_Some_iff)
    show ?thesis unfolding e IndexOf_def Let_def search_find [OF 3(2)]
      using 3 b by (cases ?f) (auto simp: index_of_find_def)
  qed
qed

lemma last_index_loop_find:
  "start + length needle \<le> length h \<Longrightarrow>
   last_index_loop h needle start = Ok (index_of_find (find (occurs needle h) (rev [0..<Suc start])))"
proof (induction start)
  case 0
  then show ?case by (subst last_index_loop.simps) (simp add: mem_read_def occurs_def index_of_find_def)
next
  case (Suc start)
  then show ?case
    by (subst last_index_loop.simps) (simp add: mem_read_def occurs_def [of _ _ "Suc start"] index_of_find_def)
qed

lemma LastIndexOf_find:
  "LastIndexOf h needle off = Ok (index_of_find (find (occurs needle h) (rev [0..<Suc (min off (length h))])))"
proof -
  let ?m = "min off (length h)"
  consider "needle = []" | "needle \<noteq> []" "length needle > length h" | "needle \<noteq> []" "length needle \<le> length h" by linarith
  then show ?thesis
  proof cases
    case 1
    then show ?thesis by (simp add: LastIndexOf_def occurs_def index_of_find_def)
  next
    case 2
    then have "\<not> occurs needle h p" for p by (simp add: occurs_def)
    then have "find (occurs needle h) ps = None" for ps by (simp add: find_None_iff)
    then show ?thesis using 2 by (simp add: LastIndexOf_def index_of_find_def del: upt_Suc)
  next
    case 3
    let ?s = "min ?m (length h - length needle)"
    have n: "find (occurs needle h) (rev [Suc ?s..<Suc ?m]) = None"
      by (auto simp: find_None_iff occurs_def simp del: upt_Suc)
    have split: "[0..<Suc m] = [0..<Suc s] @ [Suc s..<Suc m]" if "s \<le> m" for s m :: nat
      using that upt_add_eq_append [of 0 "Suc s" "m - s"] by (simp del: upt_Suc)
    have "[0..<Suc ?m] = [0..<Suc ?s] @ [Suc ?s..<Suc ?m]" by (rule split) (rule min.cobounded1)
    then have "find (occurs needle h) (rev [0..<Suc ?m]) = find (occurs needle h) (rev [0..<Suc ?s])"
      using n by (simp only: rev_append find_append option.case)
    then show ?thesis using 3 last_index_loop_find [of ?s needle h]
      by (simp add: LastIndexOf_def del: upt_Suc)
  qed
qed

text \<open>
  \<open>IndexOf\<close> returns the first and \<open>LastIndexOf\<close> the last position at which the needle occurs
  in the haystack, from the offset on or up to it, and -1 when there is none; the descending loop
  never reads outside the span.
\<close>

theorem IndexOf_LastIndexOf_correct:
  "IndexOf h needle off = index_of_find (find (occurs needle h) [off..<Suc (length h)]) \<and>
   LastIndexOf h needle off = Ok (index_of_find (find (occurs needle h) (rev [0..<Suc (min off (length h))])))"
  by (simp only: IndexOf_find LastIndexOf_find)

section \<open>Swapping\<close>

text \<open>Where the byte at a position goes: mirrored inside its chunk.\<close>

definition mirror :: "nat \<Rightarrow> nat \<Rightarrow> nat" where
  "mirror width i = i div width * width + (width - 1 - i mod width)"

lemma swap_bytes_Ok:
  "i < length bs \<Longrightarrow> j < length bs \<Longrightarrow> swap_bytes i j bs = Ok (bs[i := bs ! j, j := bs ! i])"
  by (simp add: swap_bytes_def st_def)

text \<open>After \<open>index\<close> turns the outer \<open>index\<close> pairs of the chunk are exchanged.\<close>

lemma swap_pairs_spec:
  assumes "chunk + width \<le> length bs" "0 < width" "index \<le> width div 2"
    and "\<And>i. i < length bs \<Longrightarrow> cur ! i =
      (if chunk \<le> i \<and> i < chunk + width \<and> (i < chunk + index \<or> chunk + width - 1 - index < i)
       then bs ! (chunk + (chunk + width - 1 - i)) else bs ! i)"
    and "length cur = length bs"
  shows "\<exists>out. swap_pairs width chunk index cur = Ok out \<and> length out = length bs \<and>
    (\<forall>i < length bs. out ! i =
      (if chunk \<le> i \<and> i < chunk + width then bs ! (chunk + (chunk + width - 1 - i)) else bs ! i))"
  using assms(3-)
proof (induction "width div 2 - index" arbitrary: index cur)
  case 0
  then have "index = width div 2" by simp
  moreover have "2 * (width div 2) = width \<or> 2 * (width div 2) + 1 = width" by presburger
  ultimately have "\<forall>i < length bs. cur ! i =
      (if chunk \<le> i \<and> i < chunk + width then bs ! (chunk + (chunk + width - 1 - i)) else bs ! i)"
    using 0(3) assms(1,2) by (auto intro: arg_cong [where f = "(!) bs"])
  moreover have "swap_pairs width chunk index cur = Ok cur" using 0 by (subst swap_pairs.simps) simp
  ultimately show ?case using 0(4) by blast
next
  case (Suc n)
  let ?i = "chunk + index" and ?j = "chunk + width - 1 - index"
  have ij: "?i < length bs" "?j < length bs" "?i < ?j" "?j = chunk + (width - 1 - index)" using Suc(2) assms(1,2) by auto
  let ?cur = "cur[?i := cur ! ?j, ?j := cur ! ?i]"
  have "\<exists>out. swap_pairs width chunk (index + 1) ?cur = Ok out \<and> length out = length bs \<and>
    (\<forall>i < length bs. out ! i =
      (if chunk \<le> i \<and> i < chunk + width then bs ! (chunk + (chunk + width - 1 - i)) else bs ! i))"
  proof (rule Suc(1))
    show "n = width div 2 - (index + 1)" "index + 1 \<le> width div 2" using Suc(2) by linarith+
    show "length ?cur = length bs" using Suc by simp
    fix i assume i: "i < length bs"
    have ci: "cur ! ?i = bs ! ?i" "cur ! ?j = bs ! ?j" using Suc(4) [OF ij(1)] Suc(4) [OF ij(2)] ij Suc(2) by auto
    consider "i = ?i" | "i = ?j" | "i \<noteq> ?i" "i \<noteq> ?j" by blast
    then show "?cur ! i = (if chunk \<le> i \<and> i < chunk + width \<and> (i < chunk + (index + 1) \<or> chunk + width - 1 - (index + 1) < i)
       then bs ! (chunk + (chunk + width - 1 - i)) else bs ! i)"
    proof cases
      case 1
      then have "chunk + (chunk + width - 1 - i) = ?j" using ij by simp
      then show ?thesis using 1 ij ci Suc(5) by (auto simp: nth_list_update)
    next
      case 2
      then have "chunk + (chunk + width - 1 - i) = ?i" using ij by simp
      then show ?thesis using 2 ij ci Suc(5) by (auto simp: nth_list_update)
    next
      case 3
      have "?cur ! i = cur ! i" using 3 by simp
      moreover have "i < chunk + (index + 1) \<longleftrightarrow> i < chunk + index" using 3 by linarith
      moreover have "chunk + width - 1 - (index + 1) < i \<longleftrightarrow> ?j < i" using 3 ij by linarith
      ultimately show ?thesis using Suc(4) [OF i] by presburger
    qed
  qed
  moreover have "swap_pairs width chunk index cur = swap_pairs width chunk (index + 1) ?cur"
  proof -
    have "index < width div 2" using Suc(2) by linarith
    then show ?thesis using Suc(5) ij swap_bytes_Ok [of ?i cur ?j] by (subst swap_pairs.simps) simp
  qed
  ultimately show ?case by simp
qed

lemma chunk_mirror:
  assumes "width dvd chunk" "chunk \<le> i" "i < chunk + width"
  shows "mirror width i = chunk + (chunk + width - 1 - i)"
proof -
  obtain k where k: "chunk = width * k" using assms(1) by blast
  have "i = width * k + (i - chunk)" "i - chunk < width" using k assms by auto
  then have "i div width = k" "i mod width = i - chunk" by (metis div_mult_self4 div_less add_0_right mult_is_0 less_nat_zero_code, metis mod_mult_self4 mod_less)
  then show ?thesis using k assms by (simp add: mirror_def mult.commute)
qed

lemma swap_chunk_loop_spec:
  assumes "0 < width" "width dvd length bs" "width dvd chunk" "chunk \<le> length bs" "length cur = length bs"
    and "\<forall>i < length bs. cur ! i = (if i < chunk then bs ! mirror width i else bs ! i)"
  shows "\<exists>out. swap_chunk_loop width (length bs) chunk cur = Ok out \<and> length out = length bs \<and>
    (\<forall>i < length bs. out ! i = bs ! mirror width i)"
  using assms(3-)
proof (induction "length bs - chunk" arbitrary: chunk cur rule: less_induct)
  case less
  show ?case
  proof (cases "chunk < length bs")
    case False
    then show ?thesis using less by (subst swap_chunk_loop.simps) auto
  next
    case True
    then have room: "chunk + width \<le> length bs"
      using assms(2) less(2) by (metis dvd_imp_le dvd_minus_self le_diff_conv2 less_imp_le_nat add.commute dvd_diff_nat zero_less_diff)
    have "\<exists>out. swap_pairs width chunk 0 cur = Ok out \<and> length out = length cur \<and>
      (\<forall>i < length cur. out ! i = (if chunk \<le> i \<and> i < chunk + width then cur ! (chunk + (chunk + width - 1 - i)) else cur ! i))"
      by (rule swap_pairs_spec) (use room assms(1) less(4) in auto)
    then obtain out where out:
      "swap_pairs width chunk 0 cur = Ok out" "length out = length bs"
      "\<forall>i < length bs. out ! i = (if chunk \<le> i \<and> i < chunk + width then cur ! (chunk + (chunk + width - 1 - i)) else cur ! i)"
      unfolding less(4) by blast
    have "\<forall>i < length bs. out ! i = (if i < chunk + width then bs ! mirror width i else bs ! i)"
    proof (intro allI impI)
      fix i assume i: "i < length bs"
      show "out ! i = (if i < chunk + width then bs ! mirror width i else bs ! i)"
      proof (cases "chunk \<le> i \<and> i < chunk + width")
        case True
        then have "chunk + (chunk + width - 1 - i) < length bs" "\<not> chunk + (chunk + width - 1 - i) < chunk"
          using room by linarith+
        then show ?thesis using True out(3) i less(5) chunk_mirror [OF less(2), of i] by auto
      next
        case False
        then show ?thesis using out(3) i less(5) by auto
      qed
    qed
    moreover have "length bs - (chunk + width) < length bs - chunk" using True assms(1) by linarith
    ultimately obtain res where "swap_chunk_loop width (length bs) (chunk + width) out = Ok res" "length res = length bs"
        "\<forall>i < length bs. res ! i = bs ! mirror width i"
      using less(1) [of "chunk + width" out] room assms(1) True less(2) out(2) by auto
    then show ?thesis using True assms(1) out(1) by (subst swap_chunk_loop.simps) simp
  qed
qed

lemma SwapChunks_spec:
  assumes "0 < width" "width dvd length bs"
  shows "\<exists>out. SwapChunks width bs = Ok out \<and> length out = length bs \<and> (\<forall>i < length bs. out ! i = bs ! mirror width i)"
  using swap_chunk_loop_spec [of width bs 0 bs] assms by (auto simp: SwapChunks_def)

lemma mirror_mirror:
  assumes "0 < width" "width dvd n" "i < n"
  shows "mirror width i < n" "mirror width (mirror width i) = i"
proof -
  have m: "i mod width < width" using assms by simp
  then have q: "mirror width i div width = i div width" "mirror width i mod width = width - 1 - i mod width"
    unfolding mirror_def using assms(1) by (simp_all add: div_mult_self3 del: diff_diff_left add_diff_assoc Nat.add_diff_assoc)
  then show "mirror width (mirror width i) = i"
    using m by (simp add: mirror_def [of _ "mirror width i"]) 
  have "i div width < n div width" using assms by (metis dvd_mult_div_cancel less_mult_imp_div_less mult.commute)
  then have "mirror width i div width < n div width" using q by simp
  then show "mirror width i < n" using assms by (metis div_le_mono linorder_not_le)
qed

text \<open>
  Swapping the bytes of every chunk twice restores the buffer, for each of the widths the
  code offers; no access leaves the span.
\<close>

theorem SwapChunks_involution:
  assumes "0 < width" "length bs mod width = 0"
  shows "\<exists>out. SwapChunks width bs = Ok out \<and> SwapChunks width out = Ok bs"
proof -
  have d: "width dvd length bs" using assms by auto
  obtain out where o: "SwapChunks width bs = Ok out" "length out = length bs" "\<forall>i < length bs. out ! i = bs ! mirror width i"
    using SwapChunks_spec [OF assms(1) d] by blast
  obtain out' where o': "SwapChunks width out = Ok out'" "length out' = length bs" "\<forall>i < length bs. out' ! i = out ! mirror width i"
    using SwapChunks_spec [of width out] assms(1) d o(2) by auto
  have "out' = bs" using o o' mirror_mirror [OF assms(1) d] by (intro nth_equalityI) auto
  then show ?thesis using o o' by blast
qed

theorem SwapChunks_involution_witness:
  "\<exists>out. SwapChunks 4 [1, 2, 3, 4, 5, 6, 7, 8] = Ok out \<and> SwapChunks 4 out = Ok [1, 2, 3, 4, 5, 6, 7, 8]"
  by (rule SwapChunks_involution) simp_all

end
