(* ===== verification/XerEncode.thy ===== *)
theory XerEncode
  imports Sxer84321 XerCompiler JsBuffer
begin

text \<open>
  The protected container of \<^verbatim>\<open>src/src/xer/xer_encode.cc\<close>: a header, a table of sections and the
  section bytes (manifest, optional cryptographic parameters, compressed and masked payload),
  with the buffer class of \<^verbatim>\<open>src/src/xer/xer_buffer.cc\<close>. OpenSSL, the clock, memory
  exhaustion, the environment and the file system are parameters (\<open>host\<close>). A reported error and
  a thrown exception are \<open>Fail\<close> with its text. The structs have no padding on an LP64 or LLP64
  little-endian target (56, 40 and 60 bytes).
\<close>

section \<open>Definitions\<close>

subsection \<open>Parameters\<close>

text \<open>
  \<open>RAND_bytes k n\<close> is the outcome of the \<open>k\<close>-th call for \<open>n\<close> bytes. \<open>PBKDF2\<close> takes the secret, its
  length as passed, the salt and the iteration count. The cipher calls between creation and
  release of the context are one parameter each: key, vector, associated data, input buffer and
  the input length as passed (an \<open>int\<close>). \<open>alloc_error n\<close> is the text of the exception that a vector
  of \<open>n\<close> bytes throws, if it throws.
\<close>

record host =
  ticks :: u64
  RAND_bytes :: "nat \<Rightarrow> nat \<Rightarrow> bytes option"
  PBKDF2 :: "string \<Rightarrow> int \<Rightarrow> bytes \<Rightarrow> int \<Rightarrow> bytes option"
  CTX_new :: bool
  GCM_encrypt :: "bytes \<Rightarrow> bytes \<Rightarrow> bytes \<Rightarrow> bytes \<Rightarrow> int \<Rightarrow> (bytes \<times> bytes) option"
  GCM_decrypt :: "bytes \<Rightarrow> bytes \<Rightarrow> bytes \<Rightarrow> bytes \<Rightarrow> int \<Rightarrow> bytes \<Rightarrow> bytes option"
  alloc_error :: "nat \<Rightarrow> string option"

text \<open>What the file system and the environment answer.\<close>

record disk = file_system +
  opens :: "string \<Rightarrow> bool"
  content :: "string \<Rightarrow> bytes"
  read_ok :: "string \<Rightarrow> bool"
  getenv :: "string \<Rightarrow> string option"

definition c_int :: "nat \<Rightarrow> int" where
  "c_int n = sint (of_nat n :: u32)"

subsection \<open>Data\<close>

definition kLegacyContainerVersion :: u32 where "kLegacyContainerVersion = 0x00020001"
definition kContainerMagic :: u32 where "kContainerMagic = 0x32425853"
definition kContainerVersion :: u32 where "kContainerVersion = 0x00030001"
definition kContainerFlagEncrypted :: u32 where "kContainerFlagEncrypted = 1"
definition kMaxSectionCount :: u32 where "kMaxSectionCount = 8"
definition kCryptoSectionMagic :: u32 where "kCryptoSectionMagic = 0x4F525843"
definition kCryptoSectionVersion :: u32 where "kCryptoSectionVersion = 1"
definition kCipherAes256Gcm :: u32 where "kCipherAes256Gcm = 1"
definition kPbkdf2Iterations :: u32 where "kPbkdf2Iterations = 200000"

lemmas container_consts = kLegacyContainerVersion_def kContainerMagic_def kContainerVersion_def
  kContainerFlagEncrypted_def kMaxSectionCount_def kCryptoSectionMagic_def kCryptoSectionVersion_def
  kCipherAes256Gcm_def kPbkdf2Iterations_def

record BinHeader =
  magic :: u32
  version :: u32
  nonce :: u64
  original_size :: u64
  payload_size :: u64
  source_crc :: u32
  payload_crc :: u32
  manifest_crc :: u32
  header_crc :: u32
  section_count :: u32
  flags :: u32

record BinSection =
  section_name :: bytes
  offset :: u64
  section_size :: u64
  crc :: u32
  section_flags :: u32

record CryptoSection =
  crypto_magic :: u32
  crypto_version :: u32
  kdf_iterations :: u32
  cipher :: u32
  salt :: bytes
  iv :: bytes
  tag :: bytes

definition sizeof_BinHeader :: nat where [simp]: "sizeof_BinHeader = 56"
definition sizeof_BinSection :: nat where [simp]: "sizeof_BinSection = 40"
definition sizeof_CryptoSection :: nat where [simp]: "sizeof_CryptoSection = 60"

definition new_header :: BinHeader where
  "new_header = \<lparr>magic = kContainerMagic, version = kContainerVersion, nonce = 0, original_size = 0,
     payload_size = 0, source_crc = 0, payload_crc = 0, manifest_crc = 0, header_crc = 0,
     section_count = 2, flags = 0\<rparr>"

definition new_section :: BinSection where
  "new_section = \<lparr>section_name = replicate 16 0, offset = 0, section_size = 0, crc = 0, section_flags = 0\<rparr>"

definition new_crypto :: CryptoSection where
  "new_crypto = \<lparr>crypto_magic = kCryptoSectionMagic, crypto_version = kCryptoSectionVersion,
     kdf_iterations = kPbkdf2Iterations, cipher = kCipherAes256Gcm,
     salt = replicate 16 0, iv = replicate 12 0, tag = replicate 16 0\<rparr>"

text \<open>The memory images of the three structs and the way back.\<close>

definition header_bytes :: "BinHeader \<Rightarrow> bytes" where
  "header_bytes h =
     le_bytes 4 (magic h) @ le_bytes 4 (version h) @ le_bytes 8 (nonce h) @ le_bytes 8 (original_size h) @
     le_bytes 8 (payload_size h) @ le_bytes 4 (source_crc h) @ le_bytes 4 (payload_crc h) @
     le_bytes 4 (manifest_crc h) @ le_bytes 4 (header_crc h) @ le_bytes 4 (section_count h) @
     le_bytes 4 (flags h)"

definition header_of :: "bytes \<Rightarrow> BinHeader" where
  "header_of bs =
     \<lparr>magic = le_word (take 4 bs), version = le_word (take 4 (drop 4 bs)),
      nonce = le_word (take 8 (drop 8 bs)), original_size = le_word (take 8 (drop 16 bs)),
      payload_size = le_word (take 8 (drop 24 bs)), source_crc = le_word (take 4 (drop 32 bs)),
      payload_crc = le_word (take 4 (drop 36 bs)), manifest_crc = le_word (take 4 (drop 40 bs)),
      header_crc = le_word (take 4 (drop 44 bs)), section_count = le_word (take 4 (drop 48 bs)),
      flags = le_word (take 4 (drop 52 bs))\<rparr>"

definition section_bytes :: "BinSection \<Rightarrow> bytes" where
  "section_bytes s =
     section_name s @ le_bytes 8 (offset s) @ le_bytes 8 (section_size s) @ le_bytes 4 (crc s) @
     le_bytes 4 (section_flags s)"

definition section_of :: "bytes \<Rightarrow> BinSection" where
  "section_of bs =
     \<lparr>section_name = take 16 bs, offset = le_word (take 8 (drop 16 bs)),
      section_size = le_word (take 8 (drop 24 bs)), crc = le_word (take 4 (drop 32 bs)),
      section_flags = le_word (take 4 (drop 36 bs))\<rparr>"

definition crypto_bytes :: "CryptoSection \<Rightarrow> bytes" where
  "crypto_bytes c =
     le_bytes 4 (crypto_magic c) @ le_bytes 4 (crypto_version c) @ le_bytes 4 (kdf_iterations c) @
     le_bytes 4 (cipher c) @ salt c @ iv c @ tag c"

definition crypto_of :: "bytes \<Rightarrow> CryptoSection" where
  "crypto_of bs =
     \<lparr>crypto_magic = le_word (take 4 bs), crypto_version = le_word (take 4 (drop 4 bs)),
      kdf_iterations = le_word (take 4 (drop 8 bs)), cipher = le_word (take 4 (drop 12 bs)),
      salt = take 16 (drop 16 bs), iv = take 12 (drop 32 bs), tag = take 16 (drop 44 bs)\<rparr>"

record XerProtectionOptions =
  encryption_key :: string

definition HasEncryption :: "XerProtectionOptions \<Rightarrow> bool" where
  "HasEncryption options \<longleftrightarrow> encryption_key options \<noteq> []"

record XerEncodedBlock =
  algorithm :: string
  bin_payload :: bytes
  bak_manifest :: string
  block_nonce :: u64
  block_source_crc :: u32
  block_payload_crc :: u32
  encrypted :: bool
  encryption :: string

subsection \<open>XerBuffer\<close>

text \<open>The text conversions run without normalisation, so the Unicode parameter is immaterial.\<close>

definition Buffer_FromString :: "string \<Rightarrow> bytes" where
  "Buffer_FromString s = Js_FromString Some s False"

definition Buffer_ToString :: "bytes \<Rightarrow> string" where
  "Buffer_ToString bs = Js_ToString Some bs False"

definition Buffer_Append :: "bytes \<Rightarrow> bytes option \<Rightarrow> bytes" where
  "Buffer_Append buffer data = (case data of None \<Rightarrow> buffer | Some bs \<Rightarrow> if bs = [] then buffer else the (AppendBytes (Some buffer) bs))"

definition Buffer_AppendText :: "bytes \<Rightarrow> string \<Rightarrow> bytes" where
  "Buffer_AppendText buffer s = the (AppendString Some (Some buffer) s False)"

definition Buffer_FromFile :: "disk \<Rightarrow> string \<Rightarrow> (string, bytes) exec" where
  "Buffer_FromFile d path =
     (if \<not> exists d path then Fail ''buffer source file does not exist''
      else if \<not> opens d path then Fail ''failed to open buffer source file''
      else if content d path \<noteq> [] \<and> \<not> read_ok d path then Fail ''failed to read buffer source file''
      else Ok (content d path))"

subsection \<open>Helpers\<close>

definition ReadTextFile :: "disk \<Rightarrow> string \<Rightarrow> (string, string) exec" where
  "ReadTextFile d path =
     (if \<not> opens d path then Fail (''unable to open '' @ quoted path)
      else if \<not> read_ok d path then Fail (''failed to read '' @ quoted path)
      else Ok (string_of_bytes (content d path)))"

definition TrimAsciiWhitespace :: "string \<Rightarrow> string" where
  "TrimAsciiWhitespace s = rev (dropWhile c_isspace (rev (dropWhile c_isspace s)))"

definition SectionName :: "BinSection \<Rightarrow> string" where
  "SectionName s = string_of_bytes (takeWhile (\<lambda>b. b \<noteq> 0) (section_name s))"

definition MakeNonce :: "host \<Rightarrow> nat \<Rightarrow> u64" where
  "MakeNonce env input_size = ticks env XOR push_bit 17 (of_nat input_size) XOR 0x84321BADC0DE55AA"

definition entry :: "string \<Rightarrow> string \<Rightarrow> string" where
  "entry key v = key @ ''='' @ v @ [ch_newline]"

definition show_word :: "'a::len word \<Rightarrow> string" where
  "show_word w = show_nat (unat w)"

definition BuildManifest ::
  "string \<Rightarrow> nat \<Rightarrow> u64 \<Rightarrow> u32 \<Rightarrow> u32 \<Rightarrow> bool \<Rightarrow> u32 \<Rightarrow> XerCompileResult option \<Rightarrow> string" where
  "BuildManifest logical_name original n scrc pcrc enc iterations compile_result =
     ''SXER84321'' @ [ch_newline] @ entry ''name'' logical_name @ entry ''original_size'' (show_nat original) @
     entry ''nonce'' (show_word n) @ entry ''source_crc'' (show_word scrc) @
     entry ''payload_crc'' (show_word pcrc) @
     entry ''cipher'' (if enc then ''aes-256-gcm'' else ''none'') @
     (if enc then entry ''kdf'' ''pbkdf2-hmac-sha256'' @ entry ''kdf_iterations'' (show_word iterations) else []) @
     (case compile_result of None \<Rightarrow> []
      | Some r \<Rightarrow> entry ''token_count'' (show_nat (length (tokens r))) @
          entry ''import_count'' (show_nat (length (ast_imports (program r)))) @
          entry ''function_count'' (show_nat (length (ast_functions (program r)))))"


definition FillRandomBytes :: "host \<Rightarrow> nat \<Rightarrow> nat \<Rightarrow> (string, bytes) exec" where
  "FillRandomBytes env call n =
     (case RAND_bytes env call n of Some bs \<Rightarrow> Ok bs | None \<Rightarrow> Fail ''OpenSSL RAND_bytes failed'')"

definition DeriveEncryptionKey :: "host \<Rightarrow> string \<Rightarrow> bytes \<Rightarrow> u32 \<Rightarrow> (string, bytes) exec" where
  "DeriveEncryptionKey env secret slt iterations =
     (if secret = [] then Fail ''XER encryption key is empty''
      else case PBKDF2 env secret (c_int (length secret)) slt (sint iterations) of
        Some key \<Rightarrow> Ok key
      | None \<Rightarrow> Fail ''OpenSSL PBKDF2 key derivation failed'')"

definition BuildEncryptionAad :: "u64 \<Rightarrow> u64 \<Rightarrow> u32 \<Rightarrow> u32 \<Rightarrow> bytes" where
  "BuildEncryptionAad n original scrc pcrc = le_bytes 8 n @ le_bytes 8 original @ le_bytes 4 scrc @ le_bytes 4 pcrc"

text \<open>
  The output vector of the cipher has the size of the input; a cipher that wrote more would
  overrun it.
\<close>

definition EncryptPayload ::
  "host \<Rightarrow> bytes \<Rightarrow> XerProtectionOptions \<Rightarrow> u64 \<Rightarrow> u64 \<Rightarrow> u32 \<Rightarrow> u32 \<Rightarrow> CryptoSection \<Rightarrow>
     (string, CryptoSection \<times> bytes) exec" where
  "EncryptPayload env plaintext options n original scrc pcrc crypto =
     ebind (FillRandomBytes env 0 16) (\<lambda>slt.
     ebind (FillRandomBytes env 1 12) (\<lambda>vec.
     ebind (DeriveEncryptionKey env (encryption_key options) slt (kdf_iterations crypto)) (\<lambda>key.
     if \<not> CTX_new env then Fail ''OpenSSL EVP_CIPHER_CTX_new failed''
     else case GCM_encrypt env key vec (BuildEncryptionAad n original scrc pcrc) plaintext
         (c_int (length plaintext)) of
       None \<Rightarrow> Fail ''OpenSSL AES-256-GCM encryption failed''
     | Some (out, tg) \<Rightarrow>
         if length out > length plaintext then Undef
         else Ok (crypto\<lparr>salt := slt, iv := vec, tag := tg\<rparr>, out))))"

definition DecryptPayload ::
  "host \<Rightarrow> bytes \<Rightarrow> XerProtectionOptions \<Rightarrow> u64 \<Rightarrow> u64 \<Rightarrow> u32 \<Rightarrow> u32 \<Rightarrow> CryptoSection \<Rightarrow>
     (string, bytes) exec" where
  "DecryptPayload env ciphertext options n original scrc pcrc crypto =
     (if encryption_key options = [] then Fail ''encrypted XER container requires --xer_key or --xer_key_env''
      else ebind (DeriveEncryptionKey env (encryption_key options) (salt crypto) (kdf_iterations crypto)) (\<lambda>key.
        if \<not> CTX_new env then Fail ''OpenSSL EVP_CIPHER_CTX_new failed''
        else case GCM_decrypt env key (iv crypto) (BuildEncryptionAad n original scrc pcrc) ciphertext
            (c_int (length ciphertext)) (tag crypto) of
          None \<Rightarrow> Fail ''OpenSSL AES-256-GCM decrypt/auth failed''
        | Some out \<Rightarrow> if length out > length ciphertext then Undef else Ok out))"

subsection \<open>Reading a container\<close>

text \<open>\<open>strncmp (section.name, name, 16) == 0\<close>; \<open>name\<close> is a C string.\<close>

definition SectionNameEquals :: "BinSection \<Rightarrow> string \<Rightarrow> bool" where
  "SectionNameEquals s name \<longleftrightarrow>
     takeWhile (\<lambda>b. b \<noteq> 0) (take 16 (section_name s)) = take 16 (bytes_of_string name)"

definition FindSection :: "BinSection list \<Rightarrow> string \<Rightarrow> BinSection option" where
  "FindSection sections name = find (\<lambda>s. SectionNameEquals s name) sections"

text \<open>The name in a message is read up to a zero byte, past the array if it holds none.\<close>

definition name_error :: "BinSection \<Rightarrow> string \<Rightarrow> (string, 'a) exec" where
  "name_error s what =
     (if 0 \<in> set (section_name s) then Fail (''section '' @ quoted (SectionName s) @ what) else Undef)"

text \<open>
  \<open>section.offset + section.size\<close> is a 64-bit sum. When it wraps, the first iterator lies behind
  the second one and outside the vector.
\<close>

definition ReadSectionBytes :: "bytes \<Rightarrow> BinSection \<Rightarrow> (string, bytes) exec" where
  "ReadSectionBytes payload s =
     (let end_pos = offset s + section_size s in
      if unat end_pos > length payload then name_error s '' exceeds container size''
      else if unat (offset s) > unat end_pos then Undef
      else let bs = take (unat end_pos - unat (offset s)) (drop (unat (offset s)) payload) in
        if crc s \<noteq> 0 \<and> sxer84321_checksum (vec_data bs) \<noteq> crc s
        then name_error s '' failed checksum validation''
        else Ok bs)"

definition table_bytes :: "BinHeader \<Rightarrow> nat" where
  "table_bytes h = sizeof_BinHeader + sizeof_BinSection * unat (section_count h)"

definition ValidateHeader :: "bytes \<Rightarrow> BinHeader \<Rightarrow> (string, unit) exec" where
  "ValidateHeader payload h =
     (if magic h \<noteq> kContainerMagic then Fail ''invalid sxer container header''
      else if version h \<noteq> kLegacyContainerVersion \<and> version h \<noteq> kContainerVersion
      then Fail ''unsupported sxer container version''
      else if section_count h < 2 \<or> section_count h > kMaxSectionCount then Fail ''invalid sxer section count''
      else if length payload < table_bytes h then Fail ''container is too small for section table''
      else if header_crc h \<noteq> 0 then
        ebind (mem_read sizeof_BinHeader (table_bytes h - sizeof_BinHeader) payload) (\<lambda>table.
        ebind (memcpys [(0, header_bytes (h\<lparr>header_crc := 0\<rparr>)), (sizeof_BinHeader, table)]
                 (replicate (table_bytes h) 0)) (\<lambda>bs.
        if sxer84321_checksum (vec_data bs) \<noteq> header_crc h then Fail ''container header checksum mismatch''
        else Ok ()))
      else Ok ())"

definition ReadContainerHeaderAndSections :: "bytes \<Rightarrow> (string, BinHeader \<times> BinSection list) exec" where
  "ReadContainerHeaderAndSections payload =
     (if length payload < sizeof_BinHeader + sizeof_BinSection * 2 then Fail ''container is too small''
      else
        ebind (mem_read 0 sizeof_BinHeader payload) (\<lambda>hb.
        let h = header_of hb in
        ebind (ValidateHeader payload h) (\<lambda>_.
        ebind (mem_read sizeof_BinHeader (sizeof_BinSection * unat (section_count h)) payload) (\<lambda>table.
        Ok (h, map (\<lambda>i. section_of (drop (sizeof_BinSection * i) table)) [0..<unat (section_count h)])))))"

definition read_crypto :: "bytes \<Rightarrow> BinSection list \<Rightarrow> (string, CryptoSection) exec" where
  "read_crypto payload sections =
     (case FindSection sections ''crypto'' of
        None \<Rightarrow> Fail ''crypto section is missing for encrypted container''
      | Some s \<Rightarrow>
          ebind (ReadSectionBytes payload s) (\<lambda>bs.
          if length bs \<noteq> sizeof_CryptoSection then Fail ''crypto section has invalid size''
          else Ok (crypto_of bs)))"

definition is_encrypted :: "BinHeader \<Rightarrow> bool" where
  "is_encrypted h \<longleftrightarrow> flags h AND kContainerFlagEncrypted \<noteq> 0"

definition Decode :: "host \<Rightarrow> bytes \<Rightarrow> XerProtectionOptions \<Rightarrow> (string, bytes) exec" where
  "Decode env payload options =
     ebind (ReadContainerHeaderAndSections payload) (\<lambda>(h, sections).
     case FindSection sections ''payload'' of
       None \<Rightarrow> Fail ''payload section is missing''
     | Some s \<Rightarrow>
         ebind (ReadSectionBytes payload s) (\<lambda>stored.
         ebind (if is_encrypted h then
                  ebind (read_crypto payload sections) (\<lambda>c.
                  if crypto_magic c \<noteq> kCryptoSectionMagic \<or> crypto_version c \<noteq> kCryptoSectionVersion \<or>
                     cipher c \<noteq> kCipherAes256Gcm
                  then Fail ''unsupported crypto section metadata''
                  else DecryptPayload env stored options (nonce h) (original_size h) (source_crc h)
                         (payload_crc h) c)
                else Ok stored) (\<lambda>bs.
         if bs \<noteq> [] \<and> sxer84321_checksum (vec_data bs) \<noteq> payload_crc h
         then Fail ''decoded payload checksum mismatch''
         else case alloc_error env (unat (original_size h)) of
           Some what \<Rightarrow> Fail what
         | None \<Rightarrow>
             (case sxer84321_decode (vec_data bs) (nonce h)
                (if original_size h = 0 then None else Some (unat (original_size h))) True
                (source_crc h) (payload_crc h) of
                Ok out \<Rightarrow> Ok out
              | Fail status \<Rightarrow> Fail (''sxer84321 decode failed: '' @ sxer84321_status_string status)
              | Undef \<Rightarrow> Undef
              | OutOfFuel \<Rightarrow> OutOfFuel))))"

subsection \<open>Writing a container\<close>

definition padded_name :: "string \<Rightarrow> bytes" where
  "padded_name name = bytes_of_string name @ replicate (16 - length name) 0"

definition u64_of :: "nat \<Rightarrow> u64" where
  "u64_of n = of_nat n"

text \<open>The section descriptors: manifest, cryptographic parameters if any, payload.\<close>

definition manifest_section :: "BinHeader \<Rightarrow> bytes \<Rightarrow> BinSection" where
  "manifest_section h manifest =
     new_section\<lparr>section_name := padded_name ''manifest'', offset := u64_of (table_bytes h),
       section_size := u64_of (length manifest), crc := manifest_crc h\<rparr>"

definition crypto_section :: "u64 \<Rightarrow> CryptoSection \<Rightarrow> BinSection" where
  "crypto_section next_offset c =
     new_section\<lparr>section_name := padded_name ''crypto'', offset := next_offset,
       section_size := u64_of sizeof_CryptoSection, crc := sxer84321_checksum (Some (crypto_bytes c))\<rparr>"

definition payload_section :: "u64 \<Rightarrow> bytes \<Rightarrow> BinSection" where
  "payload_section next_offset payload =
     new_section\<lparr>section_name := padded_name ''payload'', offset := next_offset,
       section_size := u64_of (length payload),
       crc := (if payload = [] then 0 else sxer84321_checksum (vec_data payload))\<rparr>"

definition crypto_sections :: "u64 \<Rightarrow> CryptoSection option \<Rightarrow> BinSection list" where
  "crypto_sections next_offset crypto =
     (case crypto of None \<Rightarrow> [] | Some c \<Rightarrow> [crypto_section next_offset c])"

definition payload_offset :: "BinHeader \<Rightarrow> bytes \<Rightarrow> CryptoSection option \<Rightarrow> u64" where
  "payload_offset h manifest crypto =
     (let next_offset = offset (manifest_section h manifest) + section_size (manifest_section h manifest)
      in next_offset + sum_list (map section_size (crypto_sections next_offset crypto)))"

text \<open>The copies into the container, in the order the code makes them.\<close>

definition container_writes :: "BinHeader \<Rightarrow> bytes \<Rightarrow> CryptoSection option \<Rightarrow> bytes \<Rightarrow> (nat \<times> bytes) list" where
  "container_writes h manifest crypto payload =
     (let ms = manifest_section h manifest;
          cs = crypto_sections (offset ms + section_size ms) crypto;
          ps = payload_section (payload_offset h manifest crypto) payload;
          section_table_offset = sizeof_BinHeader + sizeof_BinSection
      in [(0, header_bytes h), (sizeof_BinHeader, section_bytes ms)] @
         map (\<lambda>s. (section_table_offset, section_bytes s)) cs @
         [(section_table_offset + sizeof_BinSection * length cs, section_bytes ps),
          (unat (offset ms), manifest)] @
         (case crypto of None \<Rightarrow> [] | Some c \<Rightarrow> [(unat (offset (hd cs)), crypto_bytes c)]) @
         [(unat (offset ps), payload)])"

definition build_container :: "BinHeader \<Rightarrow> bytes \<Rightarrow> CryptoSection option \<Rightarrow> bytes \<Rightarrow> (string, bytes) exec" where
  "build_container h manifest crypto payload =
     (let ps = payload_section (payload_offset h manifest crypto) payload in
      ebind (memcpys (container_writes h manifest crypto payload) (replicate (unat (offset ps + section_size ps)) 0)) (\<lambda>container.
      ebind (mem_read 0 (table_bytes h) container) (\<lambda>table.
      memcpy 0 (header_bytes (h\<lparr>header_crc := sxer84321_checksum (Some table)\<rparr>)) container)))"

definition encode_header :: "u64 \<Rightarrow> nat \<Rightarrow> bytes \<Rightarrow> u32 \<Rightarrow> u32 \<Rightarrow> bool \<Rightarrow> string \<Rightarrow> BinHeader" where
  "encode_header n len payload scrc pcrc enc manifest =
     new_header\<lparr>nonce := n, original_size := u64_of len, payload_size := u64_of (length payload),
       source_crc := scrc, payload_crc := pcrc, section_count := (if enc then 3 else 2),
       flags := (if enc then kContainerFlagEncrypted else 0),
       manifest_crc := sxer84321_checksum (Some (bytes_of_string manifest))\<rparr>"

text \<open>From the manifest on, with the payload as it is stored.\<close>

definition finish_encoding ::
  "u64 \<Rightarrow> nat \<Rightarrow> string \<Rightarrow> bool \<Rightarrow> XerCompileResult option \<Rightarrow> u32 \<Rightarrow> u32 \<Rightarrow> CryptoSection \<Rightarrow> bytes \<Rightarrow>
     (string, XerEncodedBlock) exec" where
  "finish_encoding n len logical_name enc compile_result scrc pcrc crypto payload =
     (let manifest = BuildManifest logical_name len n scrc pcrc enc (kdf_iterations crypto) compile_result;
          h = encode_header n len payload scrc pcrc enc manifest
      in ebind (build_container h (bytes_of_string manifest) (if enc then Some crypto else None) payload) (\<lambda>container.
         Ok \<lparr>algorithm = ''sxer84321'', bin_payload = container, bak_manifest = manifest,
           block_nonce = n, block_source_crc = scrc, block_payload_crc = pcrc, encrypted = enc,
           encryption = (if enc then ''aes-256-gcm'' else ''none'')\<rparr>))"

definition EncodeInternal ::
  "host \<Rightarrow> bytes \<Rightarrow> string \<Rightarrow> XerProtectionOptions \<Rightarrow> XerCompileResult option \<Rightarrow>
     (string, XerEncodedBlock) exec" where
  "EncodeInternal env buffer logical_name options compile_result =
     (let n = MakeNonce env (length buffer); enc = HasEncryption options in
      case sxer84321_encode (vec_data buffer) n (Some (sxer84321_max_encoded_size (length buffer))) True of
        Fail status \<Rightarrow> Fail (''sxer84321 encode failed: '' @ sxer84321_status_string status)
      | Undef \<Rightarrow> Undef
      | OutOfFuel \<Rightarrow> OutOfFuel
      | Ok (encoded, scrc, pcrc) \<Rightarrow>
          ebind (if enc then EncryptPayload env encoded options n (u64_of (length buffer)) scrc pcrc new_crypto
                 else Ok (new_crypto, encoded)) (\<lambda>(crypto, payload).
          finish_encoding n (length buffer) logical_name enc compile_result scrc pcrc crypto payload))"

definition Encode :: "host \<Rightarrow> bytes \<Rightarrow> string \<Rightarrow> XerProtectionOptions \<Rightarrow> (string, XerEncodedBlock) exec" where
  "Encode env buffer logical_name options = EncodeInternal env buffer logical_name options None"

definition Encode_Compile ::
  "host \<Rightarrow> icu \<Rightarrow> disk \<Rightarrow> string \<Rightarrow> XerProtectionOptions \<Rightarrow> (string, XerEncodedBlock) exec" where
  "Encode_Compile env icu d source_path options =
     (case CompileFromFile icu (file_system.truncate d) source_path of (result, compile_error) \<Rightarrow>
        if normalized_source result = [] \<and> \<not> exists d source_path
        then Fail (if compile_error = [] then ''source file does not exist'' else compile_error)
        else EncodeInternal env (Buffer_FromString (normalized_source result)) (path_filename source_path)
               options (Some result))"

definition ResolveProtectionOptionsFromEnvironment :: "disk \<Rightarrow> (string, XerProtectionOptions) exec" where
  "ResolveProtectionOptionsFromEnvironment d =
     (case getenv d ''ENGINE_XER_KEY'' of
        Some (c # key) \<Rightarrow> Ok \<lparr>encryption_key = c # key\<rparr>
      | _ \<Rightarrow> (case getenv d ''ENGINE_XER_KEY_FILE'' of
          Some (c # path) \<Rightarrow>
            ebind (ReadTextFile d (c # path)) (\<lambda>key_text.
            let key = TrimAsciiWhitespace key_text in
            if key = [] then Fail (''XER key file is empty: '' @ c # path) else Ok \<lparr>encryption_key = key\<rparr>)
        | _ \<Rightarrow> (case getenv d ''ENGINE_XER_KEY_ENV'' of
            Some (c # name) \<Rightarrow>
              (case getenv d (c # name) of
                 Some (k # key) \<Rightarrow> Ok \<lparr>encryption_key = k # key\<rparr>
               | _ \<Rightarrow> Fail (''environment variable '' @ quoted (c # name) @ '' is not set''))
          | _ \<Rightarrow> Ok \<lparr>encryption_key = []\<rparr>)))"

subsection \<open>Inspection\<close>

definition show_hex8 :: "u32 \<Rightarrow> string" where
  "show_hex8 w = map (\<lambda>i. ''0123456789ABCDEF'' ! unat (drop_bit (4 * i) w AND 15)) (rev [0..<8])"

fun sections_csv :: "BinSection list \<Rightarrow> string" where
  "sections_csv [] = []"
| "sections_csv [s] = SectionName s"
| "sections_csv (s # ss) = SectionName s @ '','' @ sections_csv ss"

definition inspect_header :: "string \<Rightarrow> BinHeader \<Rightarrow> BinSection list \<Rightarrow> string" where
  "inspect_header artifact_path h sections =
     entry ''artifact'' artifact_path @ entry ''artifact_type'' ''bin'' @ entry ''format'' ''sxer84321-container'' @
     entry ''container_version'' (''0x'' @ show_hex8 (version h)) @
     entry ''encrypted'' (if is_encrypted h then ''true'' else ''false'') @
     entry ''nonce'' (show_word (nonce h)) @ entry ''original_size'' (show_word (original_size h)) @
     entry ''payload_size'' (show_word (payload_size h)) @ entry ''source_crc'' (show_word (source_crc h)) @
     entry ''payload_crc'' (show_word (payload_crc h)) @ entry ''section_count'' (show_word (section_count h)) @
     entry ''sections'' (sections_csv sections)"

definition inspect_crypto :: "CryptoSection \<Rightarrow> string" where
  "inspect_crypto c =
     entry ''cipher'' (if cipher c = kCipherAes256Gcm then ''aes-256-gcm'' else ''unknown'') @
     entry ''kdf'' ''pbkdf2-hmac-sha256'' @ entry ''kdf_iterations'' (show_word (kdf_iterations c))"

definition inspect_container :: "string \<Rightarrow> bytes \<Rightarrow> (string, string) exec" where
  "inspect_container artifact_path payload =
     ebind (ReadContainerHeaderAndSections payload) (\<lambda>(h, sections).
     ebind (case FindSection sections ''manifest'' of None \<Rightarrow> Ok [] | Some s \<Rightarrow> ReadSectionBytes payload s) (\<lambda>manifest_bytes.
     ebind (if is_encrypted h then
              ebind (read_crypto payload sections) (\<lambda>c.
              if crypto_magic c \<noteq> kCryptoSectionMagic \<or> crypto_version c \<noteq> kCryptoSectionVersion
              then Fail ''unsupported crypto section metadata'' else Ok (inspect_crypto c))
            else Ok []) (\<lambda>crypto_report.
     Ok (inspect_header artifact_path h sections @ crypto_report @
       (if manifest_bytes = [] then []
        else [ch_newline] @ ''manifest:'' @ [ch_newline] @ string_of_bytes manifest_bytes)))))"

definition InspectFile :: "disk \<Rightarrow> string \<Rightarrow> bool \<Rightarrow> (string, string) exec" where
  "InspectFile d artifact_path report_given =
     (if \<not> report_given then Fail ''inspection report target is null''
      else let extension = map c_tolower (path_extension artifact_path) in
        if extension = ''.bak'' then
          ebind (ReadTextFile d artifact_path) (\<lambda>manifest.
          Ok (entry ''artifact'' artifact_path @ entry ''artifact_type'' ''bak'' @
            entry ''format'' ''sxer84321-manifest'' @ [ch_newline] @ manifest))
        else if extension \<noteq> ''.bin'' then Fail ''inspect supports only .bin and .bak artifacts''
        else ebind (Buffer_FromFile d artifact_path) (inspect_container artifact_path))"

subsection \<open>Writing artifacts\<close>

text \<open>
  The answers of the file system to a writer; \<open>partial\<close> is what reaches the disk when a write
  fails. The result is the files afterwards and the error, if any.
\<close>

record out_disk =
  create_directories_ok :: "string \<Rightarrow> bool"
  open_out_ok :: "string \<Rightarrow> bool"
  write_out_ok :: "string \<Rightarrow> bool"
  partial :: "string \<Rightarrow> bytes \<Rightarrow> bytes"
  writer_create_ok :: "string \<Rightarrow> bool"
  writer_write_ok :: "string \<Rightarrow> bool"
  writer_error :: string

definition parent_path :: "string \<Rightarrow> string" where
  "parent_path path =
     (let dir = rev (dropWhile (\<lambda>c. c \<noteq> CHR ''/'') (rev path));
          stripped = rev (dropWhile (\<lambda>c. c = CHR ''/'') (rev dir))
      in if stripped = [] then take 1 dir else stripped)"

definition path_stem :: "string \<Rightarrow> string" where
  "path_stem path = take (length (path_filename path) - length (path_extension path)) (path_filename path)"

definition path_append :: "string \<Rightarrow> string \<Rightarrow> string" where
  "path_append dir name = (if dir = [] \<or> last dir = CHR ''/'' then dir @ name else dir @ ''/'' @ name)"

definition WriteTextFile :: "out_disk \<Rightarrow> string \<Rightarrow> string \<Rightarrow> (string \<rightharpoonup> bytes) \<Rightarrow> (string \<rightharpoonup> bytes) \<times> string option" where
  "WriteTextFile d path contents files =
     (if \<not> writer_create_ok d path then (files, Some (writer_error d))
      else if \<not> writer_write_ok d path
      then (files(path \<mapsto> partial d path (bytes_of_string contents)), Some (writer_error d))
      else (files(path \<mapsto> bytes_of_string contents), None))"

definition WriteArtifacts ::
  "out_disk \<Rightarrow> string \<Rightarrow> XerEncodedBlock \<Rightarrow> string \<Rightarrow> (string \<rightharpoonup> bytes) \<Rightarrow> (string \<rightharpoonup> bytes) \<times> string option" where
  "WriteArtifacts d source_path block output_dir files =
     (let destination_dir = (if output_dir = [] then parent_path source_path else output_dir);
          stem = path_stem source_path;
          bin_path = path_append destination_dir (stem @ ''.bin'');
          bak_path = path_append destination_dir (stem @ ''.bak'')
      in if \<not> create_directories_ok d destination_dir then (files, Some ''failed to create output directory'')
         else if \<not> open_out_ok d bin_path then (files, Some ''failed to open .bin output file'')
         else if \<not> write_out_ok d bin_path
         then (files(bin_path \<mapsto> partial d bin_path (bin_payload block)), Some ''failed to write .bin output file'')
         else case WriteTextFile d bak_path (bak_manifest block) (files(bin_path \<mapsto> bin_payload block)) of
           (files', None) \<Rightarrow> (files', None)
         | (files', Some tool_error) \<Rightarrow>
             (files', Some (if tool_error = [] then ''failed to write .bak output file'' else tool_error)))"

end
