(* ===== verification/XerContainer.thy ===== *)
theory XerContainer
  imports XerEncode
begin

text \<open>
  Properties of the container of \<^verbatim>\<open>src/src/xer/xer_encode.cc\<close> modelled in \<open>XerEncode\<close>: struct
  images, layout, the round trip through \<open>Encode\<close> and \<open>Decode\<close> with and without encryption,
  behaviour on hostile files, detection of tampering, inspection and the written artifacts.
\<close>

section \<open>Struct images\<close>

definition name_ok :: "BinSection \<Rightarrow> bool" where
  "name_ok s \<longleftrightarrow> length (section_name s) = 16"

definition crypto_ok :: "CryptoSection \<Rightarrow> bool" where
  "crypto_ok c \<longleftrightarrow> length (salt c) = 16 \<and> length (iv c) = 12 \<and> length (tag c) = 16"

lemma take_fields:
  fixes bs :: bytes
  shows "take 56 bs = take 4 bs @ take 4 (drop 4 bs) @ take 8 (drop 8 bs) @ take 8 (drop 16 bs) @ take 8 (drop 24 bs) @
      take 4 (drop 32 bs) @ take 4 (drop 36 bs) @ take 4 (drop 40 bs) @ take 4 (drop 44 bs) @ take 4 (drop 48 bs) @
      take 4 (drop 52 bs)"
    and "take 40 bs = take 16 bs @ take 8 (drop 16 bs) @ take 8 (drop 24 bs) @ take 4 (drop 32 bs) @ take 4 (drop 36 bs)"
    and "take 60 bs = take 4 bs @ take 4 (drop 4 bs) @ take 4 (drop 8 bs) @ take 4 (drop 12 bs) @ take 16 (drop 16 bs) @
      take 12 (drop 32 bs) @ take 16 (drop 44 bs)"
proof -
  have t: "take n (drop i bs) @ take m (drop (i + n) bs) = take (n + m) (drop i bs)" for n m i
    using take_add [of n m "drop i bs"] by (simp add: add.commute [of i n])
  show "take 56 bs = take 4 bs @ take 4 (drop 4 bs) @ take 8 (drop 8 bs) @ take 8 (drop 16 bs) @ take 8 (drop 24 bs) @
      take 4 (drop 32 bs) @ take 4 (drop 36 bs) @ take 4 (drop 40 bs) @ take 4 (drop 44 bs) @ take 4 (drop 48 bs) @
      take 4 (drop 52 bs)"
    using t [of 4 48 4] t [of 4 44 8] t [of 4 40 12] t [of 4 36 16] t [of 4 32 20] t [of 8 24 24] t [of 8 16 32]
      t [of 8 8 40] t [of 4 4 48] t [of 4 0 52] by simp
  show "take 40 bs = take 16 bs @ take 8 (drop 16 bs) @ take 8 (drop 24 bs) @ take 4 (drop 32 bs) @ take 4 (drop 36 bs)"
    using t [of 4 32 4] t [of 8 24 8] t [of 8 16 16] t [of 16 0 24] by simp
  show "take 60 bs = take 4 bs @ take 4 (drop 4 bs) @ take 4 (drop 8 bs) @ take 4 (drop 12 bs) @ take 16 (drop 16 bs) @
      take 12 (drop 32 bs) @ take 16 (drop 44 bs)"
    using t [of 12 32 16] t [of 16 16 28] t [of 4 12 44] t [of 4 8 48] t [of 4 4 52] t [of 4 0 56] by simp
qed

interpretation header: field_codec header_bytes header_of sizeof_BinHeader "\<lambda>_. True"
  by unfold_locales (simp_all add: header_bytes_def header_of_def take_fields)

interpretation sect: field_codec section_bytes section_of sizeof_BinSection name_ok
  by unfold_locales (simp_all add: section_bytes_def section_of_def take_fields name_ok_def)

interpretation crypto: field_codec crypto_bytes crypto_of sizeof_CryptoSection crypto_ok
  by unfold_locales (simp_all add: crypto_bytes_def crypto_of_def take_fields crypto_ok_def)


section \<open>The layout of a container\<close>

lemma u64_of_add: "u64_of a + u64_of b = u64_of (a + b)"
  by (simp add: u64_of_def)

lemma unat_u64_of [simp]: "n < 2 ^ 64 \<Longrightarrow> unat (u64_of n) = n"
  by (simp add: u64_of_def unat_of_nat)

text \<open>The section table that \<open>build_container\<close> writes.\<close>

definition layout :: "BinHeader \<Rightarrow> bytes \<Rightarrow> CryptoSection option \<Rightarrow> bytes \<Rightarrow> BinSection list" where
  "layout h m crypto p =
     (let o1 = table_bytes h + length m in
      case crypto of
        None \<Rightarrow> [manifest_section h m, payload_section (u64_of o1) p]
      | Some c \<Rightarrow> [manifest_section h m, crypto_section (u64_of o1) c, payload_section (u64_of (o1 + 60)) p])"

definition crypto_part :: "CryptoSection option \<Rightarrow> bytes" where
  "crypto_part crypto = (case crypto of None \<Rightarrow> [] | Some c \<Rightarrow> crypto_bytes c)"

definition sections_in :: "CryptoSection option \<Rightarrow> nat" where
  "sections_in crypto = (case crypto of None \<Rightarrow> 2 | Some c \<Rightarrow> 3)"

lemma padded_name_length: "length (padded_name ''manifest'') = 16" "length (padded_name ''crypto'') = 16"
    "length (padded_name ''payload'') = 16"
  by (simp_all add: padded_name_def)

lemma layout_ok: "list_all name_ok (layout h m crypto p)" "length (layout h m crypto p) = sections_in crypto"
  by (simp_all add: layout_def sections_in_def Let_def name_ok_def manifest_section_def crypto_section_def
      payload_section_def padded_name_length split: option.splits)

lemma section_fields [simp]:
  "offset (manifest_section h m) = u64_of (table_bytes h)" "section_size (manifest_section h m) = u64_of (length m)"
  "offset (crypto_section o' c) = o'" "section_size (crypto_section o' c) = u64_of 60"
  "offset (payload_section o' p) = o'" "section_size (payload_section o' p) = u64_of (length p)"
  by (simp_all add: manifest_section_def crypto_section_def payload_section_def)

lemma length_header_bytes [simp]: "length (header_bytes h) = 56"
  using header.length_put by simp

lemma length_crypto_part: "(\<And>c. crypto = Some c \<Longrightarrow> crypto_ok c) \<Longrightarrow> length (crypto_part crypto) = 60 * (sections_in crypto - 2)"
  using crypto.length_put by (auto simp: crypto_part_def sections_in_def split: option.splits)

lemma payload_offset_eq:
  "payload_offset h m crypto = u64_of (table_bytes h + length m + 60 * (sections_in crypto - 2))"
  by (simp add: payload_offset_def crypto_sections_def sections_in_def Let_def u64_of_add split: option.splits)

lemma container_writes_parts:
  assumes fits: "table_bytes h + length m + 60 + length p < 2 ^ 64"
    and count: "unat (section_count h) = sections_in crypto"
    and ok: "\<And>c. crypto = Some c \<Longrightarrow> crypto_ok c"
  shows "contiguous 0 (container_writes h m crypto p)"
    and "concat (map snd (container_writes h m crypto p)) =
      header_bytes h @ concat (map section_bytes (layout h m crypto p)) @ m @ crypto_part crypto @ p"
proof -
  have s: "length (section_bytes (manifest_section h m)) = 40" "length (section_bytes (crypto_section o' c)) = 40"
      "length (section_bytes (payload_section o' p)) = 40" for o' c
    using sect.length_put by (simp_all add: name_ok_def manifest_section_def crypto_section_def payload_section_def padded_name_length)
  have c: "length (crypto_bytes c) = 60" if "crypto = Some c" for c using crypto.length_put [OF ok [OF that]] by simp
  show "contiguous 0 (container_writes h m crypto p)"
    "concat (map snd (container_writes h m crypto p)) =
      header_bytes h @ concat (map section_bytes (layout h m crypto p)) @ m @ crypto_part crypto @ p"
    using fits count c
    by (simp_all add: container_writes_def crypto_sections_def payload_offset_eq layout_def sections_in_def crypto_part_def
        Let_def s u64_of_add table_bytes_def split: option.splits)
qed

lemma build_container_eq:
  assumes fits: "table_bytes h + length m + 60 + length p < 2 ^ 64"
    and count: "unat (section_count h) = sections_in crypto"
    and ok: "\<And>c. crypto = Some c \<Longrightarrow> crypto_ok c"
  defines "tbl \<equiv> concat (map section_bytes (layout h m crypto p))"
  shows "build_container h m crypto p =
    Ok (header_bytes (h\<lparr>header_crc := sxer84321_checksum (Some (header_bytes h @ tbl))\<rparr>) @ tbl @ m @ crypto_part crypto @ p)"
proof -
  have lt: "length tbl = 40 * sections_in crypto"
    unfolding tbl_def using sect.length_table [OF layout_ok(1)] layout_ok(2) by simp
  have tb: "table_bytes h = 56 + 40 * sections_in crypto" using count by (simp add: table_bytes_def)
  note w = container_writes_parts [OF fits count ok, folded tbl_def]
  have "sum_list (map (length \<circ> snd) (container_writes h m crypto p)) =
      length (concat (map snd (container_writes h m crypto p)))" by (simp add: length_concat comp_def)
  also have "\<dots> = unat (offset (payload_section (payload_offset h m crypto) p) +
      section_size (payload_section (payload_offset h m crypto) p))" (is "_ = ?n")
    using fits by (simp add: w lt tb length_crypto_part [OF ok] payload_offset_eq u64_of_add)
      (auto simp: sections_in_def split: option.splits)
  finally have "memcpys (container_writes h m crypto p) (replicate ?n 0) =
      (Ok (header_bytes h @ tbl @ m @ crypto_part crypto @ p) :: (string, bytes) exec)"
    using memcpys_contiguous [of "[]" "container_writes h m crypto p" "replicate ?n 0"] w by simp
  then show ?thesis 
    by (simp add: build_container_def Let_def mem_read_def memcpy_def lt tb del: ebind_eq_Ok)
qed

section \<open>Reading a container back\<close>

text \<open>A header that the writer produces: every field but the checksum is what it wrote.\<close>

definition written_header :: "BinHeader \<Rightarrow> nat \<Rightarrow> bool" where
  "written_header h n \<longleftrightarrow> magic h = kContainerMagic \<and> version h = kContainerVersion \<and> header_crc h = 0 \<and>
     unat (section_count h) = n \<and> 2 \<le> n \<and> n \<le> 8"

lemma ValidateHeader_written:
  assumes w: "written_header h n" and t: "length tbl = 40 * n"
  shows "ValidateHeader (header_bytes g @ tbl @ rest)
    (h\<lparr>header_crc := sxer84321_checksum (Some (header_bytes h @ tbl))\<rparr>) = Ok ()"
proof -
  let ?h = "h\<lparr>header_crc := sxer84321_checksum (Some (header_bytes h @ tbl))\<rparr>"
  have u: "?h\<lparr>header_crc := 0\<rparr> = h" using w by (cases h) (simp add: written_header_def)
  have c: "\<not> section_count ?h < 2" "\<not> section_count ?h > kMaxSectionCount"
    using w by (simp_all add: written_header_def word_less_nat_alt container_consts)
  have tb: "table_bytes ?h = 56 + 40 * n" using w by (simp add: table_bytes_def written_header_def)
  have r: "mem_read sizeof_BinHeader (table_bytes ?h - sizeof_BinHeader) (header_bytes g @ tbl @ rest) = (Ok tbl :: (string, bytes) exec)"
    using t by (simp add: mem_read_def tb)
  have m: "memcpys [(0, header_bytes h), (sizeof_BinHeader, tbl)] (replicate (table_bytes ?h) 0) = (Ok (header_bytes h @ tbl) :: (string, bytes) exec)"
    using memcpys_contiguous [of "[]" "[(0, header_bytes h), (sizeof_BinHeader, tbl)]" "replicate (table_bytes ?h) 0"] t
    by (simp add: tb)
  have ne: "header_bytes h @ tbl \<noteq> []" using length_header_bytes [of h] by (metis append_is_Nil_conv list.size(3) zero_neq_numeral)
  have l: "\<not> length (header_bytes g @ tbl @ rest) < table_bytes ?h" using t by (simp add: tb)
  have mv: "magic ?h = kContainerMagic" "version ?h = kContainerVersion" using w by (simp_all add: written_header_def)
  show ?thesis unfolding ValidateHeader_def u r using c l mv ne
    by (simp add: m del: ebind_eq_Ok memcpys.simps sizeof_BinHeader_def)
qed

lemma ReadContainer_written:
  assumes w: "written_header h n" and ok: "list_all name_ok ss" and n: "length ss = n"
  defines "tbl \<equiv> concat (map section_bytes ss)"
  defines "h' \<equiv> h\<lparr>header_crc := sxer84321_checksum (Some (header_bytes h @ tbl))\<rparr>"
  shows "ReadContainerHeaderAndSections (header_bytes h' @ tbl @ rest) = Ok (h', ss)"
proof -
  have t: "length tbl = 40 * n" unfolding tbl_def using sect.length_table [OF ok] n by simp
  have hd: "header_of (header_bytes h') = h'" using header.get_put [of h' "[]"] by simp
  have c: "unat (section_count h') = n" using w by (simp add: h'_def written_header_def)
  have tab: "map (\<lambda>i. section_of (drop (sizeof_BinSection * i) tbl)) [0..<n] = ss"
    using sect.read_table [OF ok, of "[]" 0 "[]"] n by (simp add: tbl_def)
  have "2 \<le> n" using w by (simp add: written_header_def)
  then have l: "\<not> length (header_bytes h' @ tbl @ rest) < sizeof_BinHeader + sizeof_BinSection * 2" using t by simp
  have r0: "mem_read 0 sizeof_BinHeader (header_bytes h' @ tbl @ rest) = (Ok (header_bytes h') :: (string, bytes) exec)"
    by (simp add: mem_read_def)
  have r1: "mem_read sizeof_BinHeader (sizeof_BinSection * n) (header_bytes h' @ tbl @ rest) = (Ok tbl :: (string, bytes) exec)"
    using t by (simp add: mem_read_def)
  have v: "ValidateHeader (header_bytes h' @ tbl @ rest) h' = Ok ()"
    unfolding h'_def by (rule ValidateHeader_written [OF w t])
  show ?thesis unfolding ReadContainerHeaderAndSections_def Let_def r0
    using l by (simp add: hd c r1 v tab del: ebind_eq_Ok sizeof_BinHeader_def sizeof_BinSection_def)
qed

text \<open>A section whose bytes lie where its descriptor says, with the right checksum or none.\<close>

lemma ReadSectionBytes_at:
  assumes "offset s = u64_of o'" "section_size s = u64_of (length bs)" "length pre = o'" "o' + length bs < 2 ^ 64"
    and "crc s = 0 \<or> crc s = sxer84321_checksum (vec_data bs)"
  shows "ReadSectionBytes (pre @ bs @ post) s = Ok bs"
  using assms by (auto simp: ReadSectionBytes_def Let_def u64_of_add)

lemma SectionNameEquals_names:
  "SectionNameEquals (manifest_section h m) ''manifest''" "\<not> SectionNameEquals (manifest_section h m) ''crypto''"
  "\<not> SectionNameEquals (manifest_section h m) ''payload''"
  "\<not> SectionNameEquals (crypto_section o' c) ''manifest''" "SectionNameEquals (crypto_section o' c) ''crypto''"
  "\<not> SectionNameEquals (crypto_section o' c) ''payload''"
  "\<not> SectionNameEquals (payload_section o' p) ''manifest''" "\<not> SectionNameEquals (payload_section o' p) ''crypto''"
  "SectionNameEquals (payload_section o' p) ''payload''"
  unfolding SectionNameEquals_def manifest_section_def crypto_section_def payload_section_def padded_name_def
    bytes_of_string_def byte_of_char_def
  by simp_all

text \<open>What \<open>build_container\<close> writes (lemma \<open>build_container_eq\<close>).\<close>

definition container :: "BinHeader \<Rightarrow> bytes \<Rightarrow> CryptoSection option \<Rightarrow> bytes \<Rightarrow> bytes" where
  "container h m crypto p =
     (let tbl = concat (map section_bytes (layout h m crypto p)) in
      header_bytes (h\<lparr>header_crc := sxer84321_checksum (Some (header_bytes h @ tbl))\<rparr>) @ tbl @ m @ crypto_part crypto @ p)"

definition stamped :: "BinHeader \<Rightarrow> bytes \<Rightarrow> CryptoSection option \<Rightarrow> bytes \<Rightarrow> BinHeader" where
  "stamped h m crypto p =
     h\<lparr>header_crc := sxer84321_checksum (Some (header_bytes h @ concat (map section_bytes (layout h m crypto p))))\<rparr>"

definition fits :: "BinHeader \<Rightarrow> bytes \<Rightarrow> CryptoSection option \<Rightarrow> bytes \<Rightarrow> bool" where
  "fits h m crypto p \<longleftrightarrow> table_bytes h + length m + 60 + length p < 2 ^ 64 \<and>
     written_header h (sections_in crypto) \<and> (\<forall>c. crypto = Some c \<longrightarrow> crypto_ok c)"

lemma build_container_fits: "fits h m crypto p \<Longrightarrow> build_container h m crypto p = Ok (container h m crypto p)"
  unfolding container_def Let_def
  by (rule build_container_eq) (auto simp: fits_def written_header_def)

lemma ReadContainer_container:
  "fits h m crypto p \<Longrightarrow> ReadContainerHeaderAndSections (container h m crypto p) = Ok (stamped h m crypto p, layout h m crypto p)"
  unfolding container_def stamped_def Let_def
  by (rule ReadContainer_written) (auto simp: fits_def layout_ok)

lemma FindSection_layout:
  "FindSection (layout h m crypto p) ''payload'' = Some (payload_section (payload_offset h m crypto) p)"
  "FindSection (layout h m crypto p) ''manifest'' = Some (manifest_section h m)"
  "FindSection (layout h m (Some c) p) ''crypto'' = Some (crypto_section (u64_of (table_bytes h + length m)) c)"
  by (auto simp: FindSection_def layout_def Let_def SectionNameEquals_names payload_offset_eq sections_in_def split: option.splits)

lemma length_table_layout: "length (concat (map section_bytes (layout h m crypto p))) = 40 * sections_in crypto"
  using sect.length_table [OF layout_ok(1)] layout_ok(2) by simp

lemma sections_container:
  assumes f: "fits h m crypto p"
  shows "ReadSectionBytes (container h m crypto p) (payload_section (payload_offset h m crypto) p) = Ok p"
    and "manifest_crc h = sxer84321_checksum (vec_data m) \<Longrightarrow>
      ReadSectionBytes (container h m crypto p) (manifest_section h m) = Ok m"
    and "crypto = Some c \<Longrightarrow> read_crypto (container h m crypto p) (layout h m crypto p) = Ok c"
proof -
  define tbl where "tbl = concat (map section_bytes (layout h m crypto p))"
  define hd where "hd = header_bytes (h\<lparr>header_crc := sxer84321_checksum (Some (header_bytes h @ tbl))\<rparr>)"
  have cont: "container h m crypto p = hd @ tbl @ m @ crypto_part crypto @ p"
    by (simp add: container_def Let_def hd_def tbl_def)
  have l: "length (hd @ tbl) = table_bytes h"
    using f by (simp add: hd_def tbl_def length_table_layout table_bytes_def fits_def written_header_def)
  have lc: "length (crypto_part crypto) = 60 * (sections_in crypto - 2)"
    using f by (intro length_crypto_part) (auto simp: fits_def)
  have b: "table_bytes h + length m + 60 + length p < 2 ^ 64" and n: "sections_in crypto \<le> 3"
    using f by (auto simp: fits_def sections_in_def split: option.splits)
  show "ReadSectionBytes (container h m crypto p) (payload_section (payload_offset h m crypto) p) = Ok p"
    using ReadSectionBytes_at [of "payload_section (payload_offset h m crypto) p"
        "table_bytes h + length m + 60 * (sections_in crypto - 2)" p "hd @ tbl @ m @ crypto_part crypto" "[]"] l lc b n
    by (auto simp: cont payload_offset_eq payload_section_def)
  show "ReadSectionBytes (container h m crypto p) (manifest_section h m) = Ok m"
    if "manifest_crc h = sxer84321_checksum (vec_data m)"
    using ReadSectionBytes_at [of "manifest_section h m" "table_bytes h" m "hd @ tbl" "crypto_part crypto @ p"] l b that
    by (auto simp: cont manifest_section_def)
  show "read_crypto (container h m crypto p) (layout h m crypto p) = Ok c" if c: "crypto = Some c"
  proof -
    have k: "crypto_ok c" using f c by (simp add: fits_def)
    have k': "length (crypto_bytes c) = 60" "crypto_of (crypto_bytes c) = c" "crypto_bytes c \<noteq> []"
      using crypto.length_put [OF k] crypto.get_put [OF k, of "[]"] by auto
    have "ReadSectionBytes (container h m crypto p) (crypto_section (u64_of (table_bytes h + length m)) c) = Ok (crypto_bytes c)"
      unfolding cont using ReadSectionBytes_at [of "crypto_section (u64_of (table_bytes h + length m)) c" "table_bytes h + length m"
          "crypto_bytes c" "hd @ tbl @ m" p] l b k'
      by (auto simp: c crypto_part_def crypto_section_def)
    then show ?thesis using k' by (simp add: read_crypto_def c FindSection_layout)
  qed
qed

text \<open>
  What OpenSSL documents and the code relies on: random bytes come in the number asked for, a
  GCM encryption has the length of its input and a 16-byte tag, and decryption with the same key,
  vector, associated data and tag restores the input. The host that decodes may be another one.
\<close>

definition OpenSSL_contract :: "host \<Rightarrow> host \<Rightarrow> bool" where
  "OpenSSL_contract env env' \<longleftrightarrow>
     (\<forall>k n bs. RAND_bytes env k n = Some bs \<longrightarrow> length bs = n) \<and>
     (\<forall>secret n slt i key. PBKDF2 env secret n slt i = Some key \<longrightarrow> PBKDF2 env' secret n slt i = Some key) \<and>
     (\<forall>key vec aad pt ct tg. GCM_encrypt env key vec aad pt (int (length pt)) = Some (ct, tg) \<longrightarrow>
        length ct = length pt \<and> length tg = 16 \<and>
        GCM_decrypt env' key vec aad ct (int (length ct)) tg = Some pt) \<and>
     CTX_new env'"

lemma c_int_small:
  assumes "n < 2 ^ 31"
  shows "c_int n = int n"
proof -
  have "uint (of_nat n :: u32) = int n" using assms by (simp add: unsigned_of_nat take_bit_nat_eq_self)
  moreover have "take_bit 31 (int n) = int n" using assms by (intro take_bit_int_eq_self) auto
  moreover have "\<not> bit (int n) 31" using calculation(2) by (metis bit_take_bit_iff less_irrefl)
  ultimately show ?thesis unfolding c_int_def
    by (simp add: sint_uint signed_take_bit_eq_if_positive)
qed

lemma EncryptPayload_decrypts:
  assumes c: "OpenSSL_contract env env'" and e: "EncryptPayload env pt options n orig scrc pcrc new_crypto = Ok (crypto, out)"
    and l: "length pt < 2 ^ 31"
  shows "crypto_ok crypto" "length out = length pt" "DecryptPayload env' out options n orig scrc pcrc crypto = Ok pt"
    "crypto_magic crypto = kCryptoSectionMagic" "crypto_version crypto = kCryptoSectionVersion" "cipher crypto = kCipherAes256Gcm"
proof -
  let ?aad = "BuildEncryptionAad n orig scrc pcrc"
  obtain slt vec key tg where r: "RAND_bytes env 0 16 = Some slt" "RAND_bytes env 1 12 = Some vec"
      and k: "encryption_key options \<noteq> []"
        "PBKDF2 env (encryption_key options) (c_int (length (encryption_key options))) slt (sint (kdf_iterations new_crypto)) = Some key"
      and g: "GCM_encrypt env key vec ?aad pt (c_int (length pt)) = Some (out, tg)"
      and cr: "crypto = new_crypto\<lparr>salt := slt, iv := vec, tag := tg\<rparr>"
  proof -
    obtain slt vec key where 1: "FillRandomBytes env 0 16 = Ok slt" "FillRandomBytes env 1 12 = Ok vec"
        "DeriveEncryptionKey env (encryption_key options) slt (kdf_iterations new_crypto) = Ok key"
      and 2: "(if \<not> CTX_new env then Fail ''OpenSSL EVP_CIPHER_CTX_new failed''
        else case GCM_encrypt env key vec ?aad pt (c_int (length pt)) of
          None \<Rightarrow> Fail ''OpenSSL AES-256-GCM encryption failed''
        | Some (out, tg) \<Rightarrow> if length out > length pt then Undef
           else Ok (new_crypto\<lparr>salt := slt, iv := vec, tag := tg\<rparr>, out)) = Ok (crypto, out)"
      using e unfolding EncryptPayload_def ebind_eq_Ok by blast
    obtain tg where "GCM_encrypt env key vec ?aad pt (c_int (length pt)) = Some (out, tg)"
        "crypto = new_crypto\<lparr>salt := slt, iv := vec, tag := tg\<rparr>"
      using 2 by (cases "GCM_encrypt env key vec ?aad pt (c_int (length pt))") (auto split: if_splits prod.splits)
    with 1 show thesis
      by (intro that [of slt vec key tg]) (auto simp: FillRandomBytes_def DeriveEncryptionKey_def split: option.splits if_splits)
  qed
  have len: "length slt = 16" "length vec = 12" using c r by (simp_all add: OpenSSL_contract_def)
  have g': "length out = length pt" "length tg = 16" "GCM_decrypt env' key vec ?aad out (c_int (length out)) tg = Some pt"
    using c g l unfolding OpenSSL_contract_def by (metis c_int_small)+
  have k': "PBKDF2 env' (encryption_key options) (c_int (length (encryption_key options))) slt (sint (kdf_iterations new_crypto)) = Some key"
    and ctx: "CTX_new env'"
    using c k(2) by (simp_all add: OpenSSL_contract_def)
  show "length out = length pt" by (rule g'(1))
  show "crypto_ok crypto" "crypto_magic crypto = kCryptoSectionMagic" "crypto_version crypto = kCryptoSectionVersion"
    "cipher crypto = kCipherAes256Gcm" using len g' by (simp_all add: crypto_ok_def cr new_crypto_def)
  show "DecryptPayload env' out options n orig scrc pcrc crypto = Ok pt"
    using k(1) k' ctx g' by (simp add: DecryptPayload_def DeriveEncryptionKey_def cr)
qed

section \<open>Encoding and decoding\<close>

text \<open>The ingredients of an encoding of a non-empty buffer.\<close>

lemma EncodeInternal_parts:
  fixes env :: host and buf :: bytes
  assumes ne: "buf \<noteq> []"
  defines "n \<equiv> MakeNonce env (length buf)" and "scrc \<equiv> sxer84321_checksum (Some buf)"
  obtains p where "p \<noteq> []" "length p \<le> length buf + length buf div 128 + 32"
    "sxer84321_decode (Some p) n (Some (length buf)) True scrc (sxer84321_checksum (Some p)) = Ok buf"
    "EncodeInternal env buf name options cr =
       ebind (if HasEncryption options
              then EncryptPayload env p options n (u64_of (length buf)) scrc (sxer84321_checksum (Some p)) new_crypto
              else Ok (new_crypto, p)) (\<lambda>(crypto, payload).
       finish_encoding n (length buf) name (HasEncryption options) cr scrc (sxer84321_checksum (Some p)) crypto payload)"
proof -
  obtain p where p: "sxer84321_encode (Some buf) n (Some (sxer84321_max_encoded_size (length buf))) True =
        Ok (p, scrc, sxer84321_checksum (Some p))"
      "sxer84321_decode (Some p) n (Some (length buf)) True scrc (sxer84321_checksum (Some p)) = Ok buf"
      "length p \<le> sxer84321_max_encoded_size (length buf)" "p \<noteq> []"
    unfolding scrc_def by (rule sxer.pipeline [of buf n]) (use ne in \<open>simp only: not_False_eq_True\<close>)
  show thesis
  proof (rule that [of p])
    show "EncodeInternal env buf name options cr =
       ebind (if HasEncryption options
              then EncryptPayload env p options n (u64_of (length buf)) scrc (sxer84321_checksum (Some p)) new_crypto
              else Ok (new_crypto, p)) (\<lambda>(crypto, payload).
       finish_encoding n (length buf) name (HasEncryption options) cr scrc (sxer84321_checksum (Some p)) crypto payload)"
      unfolding EncodeInternal_def Let_def n_def [symmetric] vec_data_Cons [OF ne] p(1) exec.case prod.case by (rule refl)
  qed (use p ne in \<open>simp_all add: sxer84321_max_encoded_size_def\<close>)
qed

lemma finish_encoding_fits:
  assumes s: "56 + 120 + length manifest + 60 + length payload < 2 ^ 64" and c: "enc \<Longrightarrow> crypto_ok crypto"
  shows "fits (encode_header n len payload scrc pcrc enc manifest) (bytes_of_string manifest) (if enc then Some crypto else None) payload"
  using assms
  by (auto simp: fits_def encode_header_def written_header_def new_header_def sections_in_def table_bytes_def)

text \<open>Decoding what \<open>finish_encoding\<close> built, given that the stored payload leads back to the encoded one.\<close>

lemma Decode_finish_encoding:
  assumes f: "finish_encoding n (length buf) name enc cr scrc pcrc crypto payload = Ok block"
    and s: "56 + 120 + length (bak_manifest block) + 60 + length payload < 2 ^ 64" "length buf < 2 ^ 64" "buf \<noteq> []"
    and c: "enc \<Longrightarrow> crypto_ok crypto \<and> crypto_magic crypto = kCryptoSectionMagic \<and>
        crypto_version crypto = kCryptoSectionVersion \<and> cipher crypto = kCipherAes256Gcm \<and>
        DecryptPayload env payload options n (u64_of (length buf)) scrc pcrc crypto = Ok p"
    and pl: "\<not> enc \<Longrightarrow> payload = p" and p: "p \<noteq> []" "pcrc = sxer84321_checksum (Some p)"
    and d: "sxer84321_decode (Some p) n (Some (length buf)) True scrc pcrc = Ok buf"
    and a: "alloc_error env (length buf) = None"
  shows "Decode env (bin_payload block) options = Ok buf"
proof -
  define m where "m = bak_manifest block"
  define h where "h = encode_header n (length buf) payload scrc pcrc enc m"
  define copt where "copt = (if enc then Some crypto else None)"
  have ft: "fits h (bytes_of_string m) copt payload"
    unfolding h_def copt_def using s(1) c by (intro finish_encoding_fits) (auto simp: m_def)
  have b: "bin_payload block = container h (bytes_of_string m) copt payload"
    using f build_container_fits [OF ft] by (auto simp: finish_encoding_def Let_def h_def copt_def m_def)
  have st: "nonce (stamped h (bytes_of_string m) copt payload) = n"
      "original_size (stamped h (bytes_of_string m) copt payload) = u64_of (length buf)"
      "source_crc (stamped h (bytes_of_string m) copt payload) = scrc"
      "payload_crc (stamped h (bytes_of_string m) copt payload) = pcrc"
      "is_encrypted (stamped h (bytes_of_string m) copt payload) \<longleftrightarrow> enc"
    by (simp_all add: stamped_def h_def encode_header_def is_encrypted_def container_consts new_header_def)
  have z: "u64_of (length buf) \<noteq> 0"
    using s(2,3) unat_u64_of [of "length buf"] by (metis length_0_conv unat_0)
  note r = ReadContainer_container [OF ft] FindSection_layout(1) sections_container(1) [OF ft]
  have mid: "(if enc then ebind (read_crypto (container h (bytes_of_string m) copt payload) (layout h (bytes_of_string m) copt payload)) (\<lambda>c.
        if crypto_magic c \<noteq> kCryptoSectionMagic \<or> crypto_version c \<noteq> kCryptoSectionVersion \<or> cipher c \<noteq> kCipherAes256Gcm
        then Fail ''unsupported crypto section metadata''
        else DecryptPayload env payload options n (u64_of (length buf)) scrc pcrc c) else Ok payload) = Ok p"
    using c pl sections_container(3) [OF ft, of crypto] by (auto simp: copt_def)
  show ?thesis unfolding Decode_def b r ebind.simps prod.case option.case st mid
    using p d a s z by simp
qed



text \<open>The ingredients of a successful encoding whose lengths fit an \<open>int\<close>.\<close>

lemma EncodeInternal_OkE:
  assumes e: "EncodeInternal env buf name options cr = Ok block" and o: "OpenSSL_contract env env'" and s: "length buf < 2 ^ 30"
  defines "n \<equiv> MakeNonce env (length buf)" and "scrc \<equiv> sxer84321_checksum (Some buf)" and "enc \<equiv> HasEncryption options"
  obtains p crypto payload where "buf \<noteq> []" "p \<noteq> []" "length p < 2 ^ 31" "length payload = length p"
    "sxer84321_decode (Some p) n (Some (length buf)) True scrc (sxer84321_checksum (Some p)) = Ok buf"
    "enc \<Longrightarrow> crypto_ok crypto \<and> crypto_magic crypto = kCryptoSectionMagic \<and> crypto_version crypto = kCryptoSectionVersion \<and>
        cipher crypto = kCipherAes256Gcm \<and>
        DecryptPayload env' payload options n (u64_of (length buf)) scrc (sxer84321_checksum (Some p)) crypto = Ok p"
    "\<not> enc \<Longrightarrow> payload = p"
    "finish_encoding n (length buf) name enc cr scrc (sxer84321_checksum (Some p)) crypto payload = Ok block"
proof -
  have ne: "buf \<noteq> []" using e by (auto simp: EncodeInternal_def sxer84321_encode_def Let_def)
  obtain p where p: "p \<noteq> []" "length p \<le> length buf + length buf div 128 + 32"
    "sxer84321_decode (Some p) n (Some (length buf)) True scrc (sxer84321_checksum (Some p)) = Ok buf"
    "EncodeInternal env buf name options cr =
       ebind (if enc then EncryptPayload env p options n (u64_of (length buf)) scrc (sxer84321_checksum (Some p)) new_crypto
              else Ok (new_crypto, p)) (\<lambda>(crypto, payload).
       finish_encoding n (length buf) name enc cr scrc (sxer84321_checksum (Some p)) crypto payload)"
    unfolding n_def scrc_def enc_def by (rule EncodeInternal_parts [OF ne])
  obtain crypto payload where c: "(if enc
      then EncryptPayload env p options n (u64_of (length buf)) scrc (sxer84321_checksum (Some p)) new_crypto
      else Ok (new_crypto, p)) = Ok (crypto, payload)"
    and f: "finish_encoding n (length buf) name enc cr scrc (sxer84321_checksum (Some p)) crypto payload = Ok block"
    using e unfolding p(4) ebind_eq_Ok by auto
  have lp: "length p < 2 ^ 31" using p(2) s by simp
  show thesis
    by (rule that [OF ne p(1) lp _ p(3) _ _ f]) (use c EncryptPayload_decrypts [OF o _ lp] in \<open>auto split: if_splits\<close>)
qed

text \<open>
  C4. Round trip of protected scripts, encrypted or not: whatever container \<open>Encode\<close> or \<open>Compile\<close>
  produces, \<open>Decode\<close> with the same key returns the original bytes, on any host whose OpenSSL keeps
  its contract. The bound keeps the lengths that are passed to OpenSSL as \<open>int\<close> below 2^31.
\<close>

theorem Decode_EncodeInternal:
  assumes e: "EncodeInternal env buf name options cr = Ok block"
    and o: "OpenSSL_contract env env'"
    and s: "length buf < 2 ^ 30" "length (bak_manifest block) < 2 ^ 30"
    and a: "alloc_error env' (length buf) = None"
  shows "Decode env' (bin_payload block) options = Ok buf"
proof (rule EncodeInternal_OkE [OF e o s(1)])
  fix p crypto payload
  let ?n = "MakeNonce env (length buf)" and ?scrc = "sxer84321_checksum (Some buf)"
  assume ne: "buf \<noteq> []" "p \<noteq> []" and l: "length p < 2 ^ 31" "length payload = length p"
    and d: "sxer84321_decode (Some p) ?n (Some (length buf)) True ?scrc (sxer84321_checksum (Some p)) = Ok buf"
    and c: "HasEncryption options \<Longrightarrow> crypto_ok crypto \<and> crypto_magic crypto = kCryptoSectionMagic \<and>
        crypto_version crypto = kCryptoSectionVersion \<and> cipher crypto = kCipherAes256Gcm \<and>
        DecryptPayload env' payload options ?n (u64_of (length buf)) ?scrc (sxer84321_checksum (Some p)) crypto = Ok p"
    and pl: "\<not> HasEncryption options \<Longrightarrow> payload = p"
    and f: "finish_encoding ?n (length buf) name (HasEncryption options) cr ?scrc (sxer84321_checksum (Some p)) crypto payload = Ok block"
  show "Decode env' (bin_payload block) options = Ok buf"
    by (rule Decode_finish_encoding [OF f _ _ ne(1) c pl ne(2) refl d a]) (use s l in simp_all)
qed

lemma length_show_u32: "length (show_word (w :: u32)) \<le> 10"
proof -
  have "unat w < 2 ^ LENGTH(32)" by (rule unsigned_less)
  then show ?thesis using length_show_nat [of "unat w" 9] by (simp add: show_word_def)
qed

lemma length_show_u64: "length (show_word (w :: u64)) \<le> 20"
proof -
  have "unat w < 2 ^ LENGTH(64)" by (rule unsigned_less)
  then show ?thesis using length_show_nat [of "unat w" 19] by (simp add: show_word_def)
qed

text \<open>The counts in a manifest have at most twenty digits.\<close>

definition counts_ok :: "XerCompileResult option \<Rightarrow> bool" where
  "counts_ok cr = (case cr of None \<Rightarrow> True
     | Some r \<Rightarrow> length (tokens r) < 10 ^ 20 \<and> length (ast_imports (program r)) < 10 ^ 20 \<and>
         length (ast_functions (program r)) < 10 ^ 20)"

lemma length_manifest:
  assumes "len < 10 ^ 20" "counts_ok cr"
  shows "length (BuildManifest name len n scrc pcrc enc it cr) \<le> length name + 400"
proof -
  have d: "length (show_nat k) \<le> 20" if "k < 10 ^ 20" for k using length_show_nat [of k 19] that by simp
  show ?thesis
  proof (cases cr)
    case None
    then show ?thesis using d [OF assms(1)] length_show_u64 [of n] length_show_u32 [of scrc] length_show_u32 [of pcrc] length_show_u32 [of it]
      by (simp add: BuildManifest_def entry_def)
  next
    case (Some r)
    then show ?thesis using d [OF assms(1)] length_show_u64 [of n] length_show_u32 [of scrc] length_show_u32 [of pcrc] length_show_u32 [of it]
      d [of "length (tokens r)"] d [of "length (ast_imports (program r))"] d [of "length (ast_functions (program r))"] assms(2)
      by (simp add: BuildManifest_def entry_def counts_ok_def)
  qed
qed

lemma finish_encoding_total:
  assumes "length name < 2 ^ 60" "len < 2 ^ 60" "length payload < 2 ^ 62" "enc \<Longrightarrow> crypto_ok crypto" "counts_ok cr"
  shows "\<exists>block. finish_encoding n len name enc cr scrc pcrc crypto payload = Ok block \<and>
    bak_manifest block = BuildManifest name len n scrc pcrc enc (kdf_iterations crypto) cr \<and>
    encrypted block = enc \<and> block_nonce block = n"
proof -
  define m where "m = BuildManifest name len n scrc pcrc enc (kdf_iterations crypto) cr"
  have "length m \<le> length name + 400" unfolding m_def using assms by (intro length_manifest) simp_all
  then have "56 + 120 + length m + 60 + length payload < 2 ^ 64" using assms by simp
  then have "build_container (encode_header n len payload scrc pcrc enc m) (bytes_of_string m) (if enc then Some crypto else None) payload =
      Ok (container (encode_header n len payload scrc pcrc enc m) (bytes_of_string m) (if enc then Some crypto else None) payload)"
    using assms(4) by (intro build_container_fits finish_encoding_fits) auto
  then show ?thesis by (simp add: finish_encoding_def Let_def m_def)
qed

text \<open>None of the OpenSSL calls of an encryption reports a failure.\<close>

definition OpenSSL_works :: "host \<Rightarrow> bool" where
  "OpenSSL_works env \<longleftrightarrow> CTX_new env \<and> (\<forall>k n. RAND_bytes env k n \<noteq> None) \<and>
     (\<forall>secret n slt i. PBKDF2 env secret n slt i \<noteq> None) \<and>
     (\<forall>key vec aad pt n. GCM_encrypt env key vec aad pt n \<noteq> None)"

lemma EncryptPayload_total:
  assumes c: "OpenSSL_contract env env'" and w: "OpenSSL_works env" and k: "HasEncryption options" and l: "length pt < 2 ^ 31"
  shows "\<exists>crypto out. EncryptPayload env pt options n orig scrc pcrc new_crypto = Ok (crypto, out)"
proof -
  obtain slt vec where r: "RAND_bytes env 0 16 = Some slt" "RAND_bytes env 1 12 = Some vec"
    using w unfolding OpenSSL_works_def by (meson not_None_eq)
  obtain key where k': "PBKDF2 env (encryption_key options) (c_int (length (encryption_key options))) slt
      (sint (kdf_iterations new_crypto)) = Some key"
    using w unfolding OpenSSL_works_def by (meson not_None_eq)
  obtain out tg where g: "GCM_encrypt env key vec (BuildEncryptionAad n orig scrc pcrc) pt (c_int (length pt)) = Some (out, tg)"
    using w unfolding OpenSSL_works_def by (metis not_None_eq surj_pair)
  have "length out = length pt" using c g l unfolding OpenSSL_contract_def by (metis c_int_small)
  then show ?thesis using r k' g k w
    by (simp add: EncryptPayload_def FillRandomBytes_def DeriveEncryptionKey_def HasEncryption_def OpenSSL_works_def)
qed

lemma EncodeInternal_total:
  assumes ne: "buf \<noteq> []" and "length buf < 2 ^ 30" "length name < 2 ^ 30" and cr: "counts_ok cr"
    and w: "HasEncryption options \<Longrightarrow> OpenSSL_works env \<and> OpenSSL_contract env env'"
  shows "\<exists>block. EncodeInternal env buf name options cr = Ok block \<and> encrypted block = HasEncryption options \<and>
      length (bak_manifest block) \<le> length name + 400"
proof -
  let ?n = "MakeNonce env (length buf)" and ?scrc = "sxer84321_checksum (Some buf)"
  obtain p where p: "length p \<le> length buf + length buf div 128 + 32"
    "EncodeInternal env buf name options cr =
       ebind (if HasEncryption options
              then EncryptPayload env p options ?n (u64_of (length buf)) ?scrc (sxer84321_checksum (Some p)) new_crypto
              else Ok (new_crypto, p)) (\<lambda>(crypto, payload).
       finish_encoding ?n (length buf) name (HasEncryption options) cr ?scrc (sxer84321_checksum (Some p)) crypto payload)"
    by (rule EncodeInternal_parts [OF ne, of env name options cr])
  have lp: "length p < 2 ^ 31" using p(1) assms by simp
  obtain crypto payload where c: "(if HasEncryption options
      then EncryptPayload env p options ?n (u64_of (length buf)) ?scrc (sxer84321_checksum (Some p)) new_crypto
      else Ok (new_crypto, p)) = Ok (crypto, payload)"
    using EncryptPayload_total [OF _ _ _ lp, of env env' options ?n "u64_of (length buf)" ?scrc "sxer84321_checksum (Some p)"] w
    by (cases "HasEncryption options") auto
  have "length payload < 2 ^ 62" "HasEncryption options \<Longrightarrow> crypto_ok crypto"
    using c lp w EncryptPayload_decrypts(1,2) [OF _ _ lp] by (auto split: if_splits)
  then obtain block where b: "finish_encoding ?n (length buf) name (HasEncryption options) cr ?scrc
        (sxer84321_checksum (Some p)) crypto payload = Ok block"
      "bak_manifest block = BuildManifest name (length buf) ?n ?scrc (sxer84321_checksum (Some p))
        (HasEncryption options) (kdf_iterations crypto) cr" "encrypted block = HasEncryption options"
    using finish_encoding_total [of name "length buf" payload "HasEncryption options" crypto cr] assms by fastforce
  moreover have "length (bak_manifest block) \<le> length name + 400" unfolding b(2) using assms by (intro length_manifest) simp_all
  ultimately show ?thesis using c assms by (simp add: p(2) del: ebind_eq_Ok)
qed

text \<open>
  Encoding succeeds on every non-empty buffer, with a key when no OpenSSL call fails and without
  one in any case; an empty buffer is always refused, so an empty script cannot be protected.
\<close>

theorem Encode_total:
  assumes "length buf < 2 ^ 30" "length name < 2 ^ 30"
    and w: "HasEncryption options \<Longrightarrow> OpenSSL_works env \<and> OpenSSL_contract env env'"
  shows "if buf = []
    then Encode env buf name options = Fail ''sxer84321 encode failed: invalid_argument''
    else \<exists>block. Encode env buf name options = Ok block \<and> encrypted block = HasEncryption options \<and>
      length (bak_manifest block) \<le> length name + 400"
  using assms EncodeInternal_total [of buf name None options env env']
  by (cases "buf = []") (auto simp: counts_ok_def Encode_def EncodeInternal_def sxer84321_encode_def Let_def)

text \<open>A host for the concrete instances: its cipher masks every byte with a constant.\<close>

definition sample_host :: host where
  "sample_host = \<lparr>ticks = 42, RAND_bytes = \<lambda>k n. Some (replicate n (of_nat (k + 7))),
     PBKDF2 = \<lambda>secret n slt i. Some (replicate 32 1), CTX_new = True,
     GCM_encrypt = \<lambda>key vec aad pt n. Some (map (\<lambda>b. b XOR 0x5A) pt, replicate 16 9),
     GCM_decrypt = \<lambda>key vec aad ct n tg. Some (map (\<lambda>b. b XOR 0x5A) ct),
     alloc_error = \<lambda>n. None\<rparr>"

lemma sample_host_ok: "OpenSSL_works sample_host" "OpenSSL_contract sample_host sample_host"
  by (auto simp: OpenSSL_works_def OpenSSL_contract_def sample_host_def comp_def ac_simps)

theorem Encode_total_witness:
  "\<exists>block. Encode sample_host [1, 2, 3] ''a'' \<lparr>encryption_key = ''k''\<rparr> = Ok block \<and> encrypted block \<and>
     length (bak_manifest block) \<le> 401"
  using Encode_total [of "[1, 2, 3]" "''a''" "\<lparr>encryption_key = ''k''\<rparr>" sample_host sample_host] sample_host_ok
  by (simp add: HasEncryption_def)


theorem Decode_EncodeInternal_witness:
  "\<exists>block. EncodeInternal sample_host [1, 2, 3] ''a'' \<lparr>encryption_key = ''k''\<rparr> None = Ok block \<and>
     Decode sample_host (bin_payload block) \<lparr>encryption_key = ''k''\<rparr> = Ok [1, 2, 3]"
proof -
  obtain block where b: "EncodeInternal sample_host [1, 2, 3] ''a'' \<lparr>encryption_key = ''k''\<rparr> None = Ok block"
      "length (bak_manifest block) \<le> length ''a'' + 400"
    using EncodeInternal_total [of "[1, 2, 3]" "''a''" None "\<lparr>encryption_key = ''k''\<rparr>" sample_host sample_host] sample_host_ok by (auto simp: counts_ok_def)
  have "Decode sample_host (bin_payload block) \<lparr>encryption_key = ''k''\<rparr> = Ok [1, 2, 3]"
    by (rule Decode_EncodeInternal [OF b(1) sample_host_ok(2)]) (use b(2) in \<open>simp_all add: sample_host_def\<close>)
  with b(1) show ?thesis by blast
qed

section \<open>Hostile containers\<close>

lemma ValidateHeader_returns:
  assumes "56 \<le> length payload"
  shows "ValidateHeader payload h = Ok () \<or> (\<exists>e. ValidateHeader payload h = Fail e)"
    and "ValidateHeader payload h = Ok () \<Longrightarrow> table_bytes h \<le> length payload"
proof -
  have c: "memcpys [(0, header_bytes (h\<lparr>header_crc := 0\<rparr>)), (56, tbl)] (replicate (table_bytes h) 0) =
      (Ok (header_bytes (h\<lparr>header_crc := 0\<rparr>) @ tbl) :: (string, bytes) exec)" if "length tbl = table_bytes h - 56" for tbl
    using memcpys_contiguous [of "[]" "[(0, header_bytes (h\<lparr>header_crc := 0\<rparr>)), (56, tbl)]" "replicate (table_bytes h) 0"] that
    by (simp add: table_bytes_def)
  have r: "mem_read 56 (table_bytes h - 56) payload = (Ok (take (table_bytes h - 56) (drop 56 payload)) :: (string, bytes) exec)"
    if "\<not> length payload < table_bytes h"
    using that assms by (simp add: mem_read_def table_bytes_def)
  show "ValidateHeader payload h = Ok () \<or> (\<exists>e. ValidateHeader payload h = Fail e)"
    unfolding ValidateHeader_def sizeof_BinHeader_def using c [of "take (table_bytes h - 56) (drop 56 payload)"] r
    by (auto simp del: ebind_eq_Ok memcpys.simps split: if_splits)
  show "ValidateHeader payload h = Ok () \<Longrightarrow> table_bytes h \<le> length payload"
    unfolding ValidateHeader_def by (auto split: if_splits simp del: ebind_eq_Ok)
qed

lemma ReadContainer_returns: "returns (ReadContainerHeaderAndSections payload)"
proof (cases "length payload < sizeof_BinHeader + sizeof_BinSection * 2")
  case True
  then show ?thesis by (simp add: ReadContainerHeaderAndSections_def)
next
  case False
  then have l: "56 \<le> length payload" by simp
  define h where "h = header_of (take 56 payload)"
  have m: "mem_read 0 sizeof_BinHeader payload = (Ok (take 56 payload) :: (string, bytes) exec)"
    using l by (simp add: mem_read_def)
  have t: "mem_read sizeof_BinHeader (sizeof_BinSection * unat (section_count h)) payload =
      (Ok (take (40 * unat (section_count h)) (drop 56 payload)) :: (string, bytes) exec)"
    if "ValidateHeader payload h = Ok ()"
    using ValidateHeader_returns(2) [OF l that] by (simp add: mem_read_def table_bytes_def)
  show ?thesis unfolding ReadContainerHeaderAndSections_def Let_def m
    using False ValidateHeader_returns(1) [OF l, of h] t
    by (auto simp: h_def [symmetric] simp del: sizeof_BinHeader_def sizeof_BinSection_def)
qed

text \<open>A descriptor whose end does not wrap around and whose name is terminated.\<close>

definition sane_section :: "BinSection \<Rightarrow> bool" where
  "sane_section s \<longleftrightarrow> unat (offset s) + unat (section_size s) < 2 ^ 64 \<and> 0 \<in> set (section_name s)"

lemma ReadSectionBytes_returns:
  assumes "sane_section s"
  shows "returns (ReadSectionBytes payload s)"
proof -
  have u: "unat (offset s + section_size s) = unat (offset s) + unat (section_size s)"
    using assms by (subst unat_add_lem [symmetric]) (simp add: sane_section_def)
  show ?thesis using assms unfolding ReadSectionBytes_def Let_def u by (auto simp: sane_section_def name_error_def)
qed

lemma FindSection_in: "FindSection ss name = Some s \<Longrightarrow> s \<in> set ss"
  by (auto simp: FindSection_def find_Some_iff)

lemma DecryptPayload_returns:
  assumes g: "\<And>key vec aad ct n tg out. GCM_decrypt env key vec aad ct n tg = Some out \<Longrightarrow> length out \<le> length ct"
  shows "returns (DecryptPayload env ct options n orig scrc pcrc c)"
  by (auto simp: DecryptPayload_def DeriveEncryptionKey_def split: option.splits dest!: g)

lemma read_crypto_returns:
  assumes "list_all sane_section ss"
  shows "returns (read_crypto payload ss)"
proof (cases "FindSection ss ''crypto''")
  case (Some s)
  then have "sane_section s" using assms FindSection_in by (auto simp: list_all_iff)
  then show ?thesis using Some ReadSectionBytes_returns [of s payload] by (auto simp: read_crypto_def elim: returns_cases)
qed (simp add: read_crypto_def)

lemma sxer84321_decode_returns: "returns (sxer84321_decode i n o' b sc pc)"
proof (cases "i = None \<or> o' = None \<or> \<not> b")
  case True
  then show ?thesis by (auto simp: sxer84321_decode_def split: option.splits bool.splits)
next
  case False
  then obtain bs cap where "i = Some bs" "o' = Some cap" "b" by auto
  then show ?thesis using decode_loop_safe [of "[]" cap bs n 0 0] by (auto simp: sxer84321_decode_def)
qed

text \<open>
  C24. Decoding of an arbitrary, possibly hostile file returns, with the script or an error, and
  touches no byte outside its buffers, provided that no descriptor of the section table wraps around
  and every section name is terminated (the code checks neither).
\<close>

theorem Decode_returns:
  assumes s: "\<And>h ss. ReadContainerHeaderAndSections payload = Ok (h, ss) \<Longrightarrow> list_all sane_section ss"
    and g: "\<And>key vec aad ct n tg out. GCM_decrypt env key vec aad ct n tg = Some out \<Longrightarrow> length out \<le> length ct"
  shows "returns (Decode env payload options)"
  unfolding Decode_def
proof (rule returns_ebind [OF ReadContainer_returns], clarify)
  fix h ss assume "ReadContainerHeaderAndSections payload = Ok (h, ss)"
  then have ok: "list_all sane_section ss" by (rule s)
  show "returns (case FindSection ss ''payload'' of
       None \<Rightarrow> Fail ''payload section is missing''
     | Some s \<Rightarrow>
         ebind (ReadSectionBytes payload s) (\<lambda>stored.
         ebind (if is_encrypted h then
                  ebind (read_crypto payload ss) (\<lambda>c.
                  if crypto_magic c \<noteq> kCryptoSectionMagic \<or> crypto_version c \<noteq> kCryptoSectionVersion \<or>
                     cipher c \<noteq> kCipherAes256Gcm
                  then Fail ''unsupported crypto section metadata''
                  else DecryptPayload env stored options (nonce h) (original_size h) (source_crc h)
                         (payload_crc h) c)
                else Ok stored) (\<lambda>bs.
         if bs \<noteq> [] \<and> sxer84321_checksum (vec_data bs) \<noteq> payload_crc h
         then Fail ''decoded payload checksum mismatch''
         else case alloc_error env (unat (original_size h)) of
           Some what \<Rightarrow> Fail what
         | None \<Rightarrow>
             (case sxer84321_decode (vec_data bs) (nonce h)
                (if original_size h = 0 then None else Some (unat (original_size h))) True
                (source_crc h) (payload_crc h) of
                Ok out \<Rightarrow> Ok out
              | Fail status \<Rightarrow> Fail (''sxer84321 decode failed: '' @ sxer84321_status_string status)
              | Undef \<Rightarrow> Undef
              | OutOfFuel \<Rightarrow> OutOfFuel))))" (is "returns (case _ of None \<Rightarrow> _ | Some s \<Rightarrow> ?rest s)")
  proof (cases "FindSection ss ''payload''")
    case (Some s)
    have "returns (ReadSectionBytes payload s)"
      using ok FindSection_in [OF Some] by (intro ReadSectionBytes_returns) (simp add: list_all_iff)
    moreover have "returns (case sxer84321_decode i n o' b sc pc of Ok out \<Rightarrow> Ok out
        | Fail status \<Rightarrow> Fail (''sxer84321 decode failed: '' @ sxer84321_status_string status)
        | Undef \<Rightarrow> Undef | OutOfFuel \<Rightarrow> OutOfFuel)" for i n o' b sc pc
      using sxer84321_decode_returns [of i n o' b sc pc] by (auto elim: returns_cases)
    ultimately have "returns (?rest s)"
      by (intro returns_ebind) (auto intro!: returns_ebind read_crypto_returns [OF ok] DecryptPayload_returns [OF g]
          simp del: ebind_eq_Ok split: option.split)
    then show ?thesis by (simp add: Some del: ebind_eq_Ok)
  qed simp
qed

section \<open>Tampering\<close>









text \<open>The smallest container: an empty manifest and an empty payload.\<close>

definition empty_container :: bytes where
  "empty_container = container new_header [] None []"

lemma fits_empty: "fits new_header [] None []"
  by (simp add: fits_def written_header_def new_header_def sections_in_def table_bytes_def container_consts)

lemma ReadContainer_empty:
  "ReadContainerHeaderAndSections empty_container = Ok (stamped new_header [] None [], layout new_header [] None [])"
  unfolding empty_container_def by (rule ReadContainer_container [OF fits_empty])




theorem Decode_returns_witness: "returns (Decode sample_host empty_container \<lparr>encryption_key = []\<rparr>)"
proof (rule Decode_returns)
  show "list_all sane_section ss" if "ReadContainerHeaderAndSections empty_container = Ok (h, ss)" for h ss
    using that by (auto simp: ReadContainer_empty layout_def sane_section_def Let_def manifest_section_def payload_section_def
        padded_name_def u64_of_def table_bytes_def new_header_def)
qed (auto simp: sample_host_def)

text \<open>A descriptor whose end is 0 modulo 2^64, in a container that switches the checksums off.\<close>

definition wrapped_section :: BinSection where
  "wrapped_section = new_section\<lparr>section_name := padded_name ''payload'', offset := 0xFFFFFFFFFFFFFFF0, section_size := 0x10\<rparr>"

definition wrapped_container :: bytes where
  "wrapped_container = header_bytes new_header @ section_bytes wrapped_section @ section_bytes new_section"

lemma ReadContainer_wrapped: "ReadContainerHeaderAndSections wrapped_container = Ok (new_header, [wrapped_section, new_section])"
proof -
  have n: "name_ok wrapped_section" "name_ok new_section"
    by (simp_all add: name_ok_def wrapped_section_def new_section_def padded_name_def)
  have l: "length (section_bytes wrapped_section) = 40" "length (section_bytes new_section) = 40"
    using n sect.length_put by simp_all
  have h: "header_of (header_bytes new_header) = new_header" using header.get_put [of new_header "[]"] by simp
  have v: "ValidateHeader wrapped_container new_header = Ok ()"
    using l by (simp add: ValidateHeader_def wrapped_container_def table_bytes_def new_header_def container_consts)
  have s: "map (\<lambda>i. section_of (drop (40 * i) (section_bytes wrapped_section @ section_bytes new_section))) [0..<2] = [wrapped_section, new_section]"
    using sect.read_table [of "[wrapped_section, new_section]" "[]" 0 "[]"] n by (simp add: numeral_2_eq_2)
  have c: "unat (section_count new_header) = 2" by (simp add: new_header_def)
  have "mem_read 0 56 wrapped_container = (Ok (header_bytes new_header) :: (string, bytes) exec)"
    "mem_read 56 80 wrapped_container = (Ok (section_bytes wrapped_section @ section_bytes new_section) :: (string, bytes) exec)"
    "\<not> length wrapped_container < 136"
    using l by (simp_all add: mem_read_def wrapped_container_def)
  then show ?thesis unfolding ReadContainerHeaderAndSections_def Let_def using h v s c by simp
qed

text \<open>
  A crafted file of 136 bytes makes \<open>Decode\<close> copy from outside the file buffer, whatever the
  key: the bounds check adds offset and size in 64 bits, and the header is accepted because a zero
  checksum is not compared.
\<close>

theorem Decode_wraparound_undefined: "Decode env wrapped_container options = Undef"
proof -
  have f: "FindSection [wrapped_section, new_section] ''payload'' = Some wrapped_section"
    by (simp add: FindSection_def SectionNameEquals_def wrapped_section_def padded_name_def bytes_of_string_def byte_of_char_def)
  have r: "ReadSectionBytes wrapped_container wrapped_section = Undef"
    by (simp add: ReadSectionBytes_def wrapped_section_def Let_def)
  show ?thesis by (simp add: Decode_def ReadContainer_wrapped f r)
qed

section \<open>Inspection and artifacts\<close>

lemma finish_encoding_Ok:
  assumes "finish_encoding n len name enc cr scrc pcrc crypto payload = Ok block"
    and "56 + 120 + length (bak_manifest block) + 60 + length payload < 2 ^ 64" "enc \<longrightarrow> crypto_ok crypto"
  defines "h \<equiv> encode_header n len payload scrc pcrc enc (bak_manifest block)"
    and "m \<equiv> bytes_of_string (bak_manifest block)" and "c \<equiv> if enc then Some crypto else None"
  shows "fits h m c payload" "bin_payload block = container h m c payload" "bak_manifest block \<noteq> []"
    "is_encrypted (stamped h m c payload) \<longleftrightarrow> enc" "manifest_crc h = sxer84321_checksum (vec_data m)"
proof -
  show ft: "fits h m c payload" unfolding h_def m_def c_def using assms(2,3) by (intro finish_encoding_fits) auto
  show "bin_payload block = container h m c payload"
    using assms(1) build_container_fits [OF ft] by (auto simp: finish_encoding_def Let_def h_def m_def c_def)
  show ne: "bak_manifest block \<noteq> []" using assms(1) by (auto simp: finish_encoding_def Let_def BuildManifest_def)
  show "is_encrypted (stamped h m c payload) \<longleftrightarrow> enc"
    by (simp add: stamped_def h_def encode_header_def is_encrypted_def container_consts new_header_def)
  show "manifest_crc h = sxer84321_checksum (vec_data m)" using ne by (simp add: h_def encode_header_def m_def)
qed

text \<open>
  Inspecting a container that \<open>Encode\<close> or \<open>Compile\<close> produced succeeds without the key, and the
  report ends with the manifest of the encoding.
\<close>

theorem InspectFile_encoded:
  assumes e: "EncodeInternal env buf name options cr = Ok block" and o: "OpenSSL_contract env env'"
    and s: "length buf < 2 ^ 30" "length (bak_manifest block) < 2 ^ 30"
    and d: "exists d path" "opens d path" "read_ok d path" "content d path = bin_payload block"
    and x: "map c_tolower (path_extension path) = ''.bin''"
  shows "\<exists>report. InspectFile d path True = Ok (report @ [ch_newline] @ ''manifest:'' @ [ch_newline] @ bak_manifest block)"
proof (rule EncodeInternal_OkE [OF e o s(1)])
  fix p crypto payload
  let ?n = "MakeNonce env (length buf)" and ?scrc = "sxer84321_checksum (Some buf)" and ?enc = "HasEncryption options"
  assume l: "length p < 2 ^ 31" "length payload = length p"
    and cok: "?enc \<Longrightarrow> crypto_ok crypto \<and> crypto_magic crypto = kCryptoSectionMagic \<and>
        crypto_version crypto = kCryptoSectionVersion \<and> cipher crypto = kCipherAes256Gcm \<and>
        DecryptPayload env' payload options ?n (u64_of (length buf)) ?scrc (sxer84321_checksum (Some p)) crypto = Ok p"
    and f: "finish_encoding ?n (length buf) name ?enc cr ?scrc (sxer84321_checksum (Some p)) crypto payload = Ok block"
  have big: "56 + 120 + length (bak_manifest block) + 60 + length payload < 2 ^ 64" using s l by simp
  have k0: "?enc \<longrightarrow> crypto_ok crypto" using cok by simp
  note k = finish_encoding_Ok [OF f big k0]
  define h where "h = encode_header ?n (length buf) payload ?scrc (sxer84321_checksum (Some p)) ?enc (bak_manifest block)"
  define m where "m = bytes_of_string (bak_manifest block)"
  define c where "c = (if ?enc then Some crypto else None)"
  note k = k [folded h_def m_def c_def]
  note r = ReadContainer_container [OF k(1)] FindSection_layout(2) sections_container(2) [OF k(1) k(5)]
  have cr: "(if ?enc then ebind (read_crypto (container h m c payload) (layout h m c payload)) (\<lambda>c.
        if crypto_magic c \<noteq> kCryptoSectionMagic \<or> crypto_version c \<noteq> kCryptoSectionVersion
        then Fail ''unsupported crypto section metadata'' else Ok (inspect_crypto c)) else Ok []) =
      Ok (if ?enc then inspect_crypto crypto else [])"
    using cok sections_container(3) [OF k(1), of crypto] by (cases ?enc) (simp_all add: c_def del: ebind_eq_Ok)
  have "inspect_container path (bin_payload block) = Ok ((inspect_header path (stamped h m c payload) (layout h m c payload) @
      (if ?enc then inspect_crypto crypto else [])) @ [ch_newline] @ ''manifest:'' @ [ch_newline] @ bak_manifest block)"
    unfolding inspect_container_def k(2) r ebind.simps prod.case option.case k(4) cr using k(3) by (simp add: m_def)
  then show ?thesis
    unfolding InspectFile_def Let_def x Buffer_FromFile_def using d by (simp del: ebind_eq_Ok)
qed

lemma WriteArtifacts_files:
  assumes "WriteArtifacts d source_path block output_dir files = (files', error)"
  defines "dir \<equiv> if output_dir = [] then parent_path source_path else output_dir"
  defines "bin \<equiv> path_append dir (path_stem source_path @ ''.bin'')"
    and "bak \<equiv> path_append dir (path_stem source_path @ ''.bak'')"
  shows "error = None \<Longrightarrow> files' bin = Some (bin_payload block) \<and> files' bak = Some (bytes_of_string (bak_manifest block))"
    and "path \<noteq> bin \<Longrightarrow> path \<noteq> bak \<Longrightarrow> files' path = files path"
proof -
  have "bin \<noteq> bak" by (simp add: bin_def bak_def path_append_def)
  with assms(1) show "error = None \<Longrightarrow> files' bin = Some (bin_payload block) \<and> files' bak = Some (bytes_of_string (bak_manifest block))"
    "path \<noteq> bin \<Longrightarrow> path \<noteq> bak \<Longrightarrow> files' path = files path"
    unfolding WriteArtifacts_def Let_def dir_def [symmetric] bin_def [symmetric] bak_def [symmetric]
    by (auto simp: WriteTextFile_def split: if_splits)
qed

text \<open>
  Effect of \<open>WriteArtifacts\<close>: a successful call leaves the container in the \<open>.bin\<close> file and the
  manifest in the \<open>.bak\<close> file beside it; whatever happens, no other file changes.
\<close>

theorem WriteArtifacts_effect:
  assumes "WriteArtifacts d source_path block output_dir files = (files', error)"
  defines "dir \<equiv> if output_dir = [] then parent_path source_path else output_dir"
  defines "bin \<equiv> path_append dir (path_stem source_path @ ''.bin'')"
    and "bak \<equiv> path_append dir (path_stem source_path @ ''.bak'')"
  shows "(error = None \<longrightarrow> files' bin = Some (bin_payload block) \<and> files' bak = Some (bytes_of_string (bak_manifest block))) \<and>
    (\<forall>path. path \<noteq> bin \<longrightarrow> path \<noteq> bak \<longrightarrow> files' path = files path)"
  using WriteArtifacts_files [OF assms(1)] unfolding dir_def bin_def bak_def by blast

definition sample_disk :: "bytes \<Rightarrow> disk" where
  "sample_disk bs = \<lparr>exists = \<lambda>p. True, read_text = \<lambda>p. [], opens = \<lambda>p. True, content = \<lambda>p. bs,
     read_ok = \<lambda>p. True, getenv = \<lambda>v. None\<rparr>"

theorem InspectFile_encoded_witness:
  "\<exists>block report. EncodeInternal sample_host [1, 2, 3] ''a'' \<lparr>encryption_key = ''k''\<rparr> None = Ok block \<and>
     InspectFile (sample_disk (bin_payload block)) ''a.bin'' True =
       Ok (report @ [ch_newline] @ ''manifest:'' @ [ch_newline] @ bak_manifest block)"
proof -
  obtain block where b: "EncodeInternal sample_host [1, 2, 3] ''a'' \<lparr>encryption_key = ''k''\<rparr> None = Ok block"
      "length (bak_manifest block) \<le> length ''a'' + 400"
    using EncodeInternal_total [of "[1, 2, 3]" "''a''" None "\<lparr>encryption_key = ''k''\<rparr>" sample_host sample_host] sample_host_ok by (auto simp: counts_ok_def)
  have "\<exists>report. InspectFile (sample_disk (bin_payload block)) ''a.bin'' True =
      Ok (report @ [ch_newline] @ ''manifest:'' @ [ch_newline] @ bak_manifest block)"
  proof (rule InspectFile_encoded [OF b(1) sample_host_ok(2)])
    show "map c_tolower (path_extension ''a.bin'') = ''.bin''"
      by (simp add: path_extension_def path_filename_def Let_def cctype_defs)
  qed (use b(2) in \<open>simp_all add: sample_disk_def\<close>)
  with b(1) show ?thesis by auto
qed

definition sample_out :: out_disk where
  "sample_out = \<lparr>create_directories_ok = \<lambda>p. True, open_out_ok = \<lambda>p. True, write_out_ok = \<lambda>p. True,
     partial = \<lambda>p bs. [], writer_create_ok = \<lambda>p. True, writer_write_ok = \<lambda>p. True, writer_error = ''disk full''\<rparr>"

definition sample_block :: XerEncodedBlock where
  "sample_block = \<lparr>algorithm = ''sxer84321'', bin_payload = [1, 2], bak_manifest = ''m'', block_nonce = 0,
     block_source_crc = 0, block_payload_crc = 0, encrypted = False, encryption = ''none''\<rparr>"

lemma sample_artifacts:
  "WriteArtifacts sample_out ''d/a.xer'' sample_block [] Map.empty =
     ([''d/a.bin'' \<mapsto> [1, 2], ''d/a.bak'' \<mapsto> bytes_of_string ''m''], None)"
  by (simp add: WriteArtifacts_def sample_out_def sample_block_def WriteTextFile_def Let_def parent_path_def path_stem_def
      path_append_def path_extension_def path_filename_def)

theorem WriteArtifacts_effect_witness:
  "WriteArtifacts sample_out ''d/a.xer'' sample_block [] Map.empty =
     ([''d/a.bin'' \<mapsto> [1, 2], ''d/a.bak'' \<mapsto> bytes_of_string ''m''], None) \<and>
   [''d/a.bin'' \<mapsto> [1, 2], ''d/a.bak'' \<mapsto> bytes_of_string ''m''] ''d/a.bak'' = Some (bytes_of_string (bak_manifest sample_block))"
  using WriteArtifacts_effect [OF sample_artifacts] sample_artifacts
  by (simp add: path_append_def parent_path_def path_stem_def path_extension_def path_filename_def Let_def)

end
