(* ===== verification/XerScriptRuntime.thy ===== *)
theory XerScriptRuntime
  imports XerScriptParser
begin

text \<open>
  The interpreter proper (struct \<open>RuntimeValue\<close> and class \<open>XerRuntime\<close> of
  \<^verbatim>\<open>src/src/xer/xer_script.cc\<close>). Its state holds the module aliases, the function table, the
  stack of scopes (innermost first) and what the run has done to the outside: the lines written, the
  sleeps, the number of clock readings. The clock, libuv, the iteration order of a hash map and
  \<open>absl::StrReplaceAll\<close> are parameters (\<open>world\<close>). Fuel is spent by calls of script functions only;
  everything else recurses on the syntax.
\<close>

section \<open>Definitions\<close>

datatype RuntimeValue =
    RNull
  | RInteger int
  | RString string
  | RObject "(string \<times> RuntimeValue) list"

fun Runtime_ToString :: "RuntimeValue \<Rightarrow> string" where
  "Runtime_ToString (RInteger i) = show_int i"
| "Runtime_ToString (RString s) = s"
| "Runtime_ToString (RObject ob) = ''{object}''"
| "Runtime_ToString RNull = ''null''"

record world =
  clock :: "nat \<Rightarrow> int"  \<comment> \<open>milliseconds since the epoch at the n-th reading\<close>
  uv_loop_init_ok :: "nat \<Rightarrow> bool"  \<comment> \<open>whether the n-th \<open>uv_loop_init\<close> returns 0\<close>
  hash_order :: "(string \<times> RuntimeValue) list \<Rightarrow> (string \<times> RuntimeValue) list"
  StrReplaceAll :: "string \<Rightarrow> (string \<times> string) list \<Rightarrow> string"

type_synonym scope = "string \<rightharpoonup> RuntimeValue"

record XerRuntime =
  module_aliases :: "string \<rightharpoonup> string"
  function_table :: "string \<rightharpoonup> FunctionDeclaration"
  scopes :: "scope list"
  stdout :: "string list"
  slept :: "int list"
  loops :: nat
  clock_reads :: nat

definition RuntimeError :: "SourceLocation \<Rightarrow> string \<Rightarrow> string" where
  "RuntimeError location message =
     show_nat (line location) @ '':'' @ show_nat (column location) @ '': '' @ message"

definition Runtime_init :: XerRuntime where
  "Runtime_init = \<lparr>module_aliases = [''console'' \<mapsto> ''console''], function_table = Map.empty, scopes = [],
     stdout = [], slept = [], loops = 0, clock_reads = 0\<rparr>"

definition RegisterImport :: "ImportDeclaration \<Rightarrow> XerRuntime \<Rightarrow> (string, XerRuntime) exec" where
  "RegisterImport d rt =
     (let module = map c_tolower (import_module d) in
      if module \<noteq> ''timer''
      then Fail (RuntimeError (import_loc d) (''unsupported module '' @ quoted (import_module d)))
      else Ok (rt\<lparr>module_aliases := (module_aliases rt)(import_alias d \<mapsto> module)\<rparr>))"

fun scopes_lookup :: "scope list \<Rightarrow> string \<Rightarrow> RuntimeValue option" where
  "scopes_lookup [] name = None"
| "scopes_lookup (s # ss) name = (case s name of Some v \<Rightarrow> Some v | None \<Rightarrow> scopes_lookup ss name)"

definition LookupVariable :: "SourceLocation \<Rightarrow> string \<Rightarrow> XerRuntime \<Rightarrow> (string, RuntimeValue) exec" where
  "LookupVariable location name rt =
     (case scopes_lookup (scopes rt) name of
        Some v \<Rightarrow> Ok v
      | None \<Rightarrow> Fail (RuntimeError location (''unknown variable '' @ quoted name)))"

text \<open>\<open>scopes_.back()[name] = value\<close>; \<open>back()\<close> of an empty vector is undefined.\<close>

definition assign_local :: "string \<Rightarrow> RuntimeValue \<Rightarrow> XerRuntime \<Rightarrow> (string, XerRuntime) exec" where
  "assign_local name v rt =
     (case scopes rt of [] \<Rightarrow> Undef | s # ss \<Rightarrow> Ok (rt\<lparr>scopes := s(name \<mapsto> v) # ss\<rparr>))"

definition push_scope :: "XerRuntime \<Rightarrow> XerRuntime" where
  "push_scope rt = rt\<lparr>scopes := Map.empty # scopes rt\<rparr>"

definition pop_scope :: "XerRuntime \<Rightarrow> (string, XerRuntime) exec" where
  "pop_scope rt = (case scopes rt of [] \<Rightarrow> Undef | s # ss \<Rightarrow> Ok (rt\<lparr>scopes := ss\<rparr>))"

definition RequireInteger :: "SourceLocation \<Rightarrow> RuntimeValue \<Rightarrow> string \<Rightarrow> (string, int) exec" where
  "RequireInteger location v name =
     (case v of RInteger i \<Rightarrow> Ok i
      | _ \<Rightarrow> Fail (RuntimeError location (''argument '' @ quoted name @ '' must be an integer'')))"

text \<open>
  \<open>SleepFor\<close>: the event loop runs until its only timer has fired, so a loop that could be created
  sleeps for the timeout.
\<close>

definition SleepFor :: "world \<Rightarrow> int \<Rightarrow> XerRuntime \<Rightarrow> (string, XerRuntime) exec" where
  "SleepFor w timeout_ms rt =
     (let rt' = rt\<lparr>loops := loops rt + 1\<rparr> in
      if \<not> uv_loop_init_ok w (loops rt) then Fail ''uv_loop_init failed''
      else Ok (rt'\<lparr>slept := slept rt @ [timeout_ms]\<rparr>))"

text \<open>The output of \<open>console:log\<close>: the format with \<open>%name%\<close> replaced for every entry.\<close>

definition log_replacements :: "world \<Rightarrow> (string \<times> RuntimeValue) list \<Rightarrow> (string \<times> string) list" where
  "log_replacements w ob =
     map (\<lambda>(k, v). (''%'' @ k @ ''%'', Runtime_ToString v)) (hash_order w ob)"

definition write_line :: "string \<Rightarrow> XerRuntime \<Rightarrow> XerRuntime" where
  "write_line s rt = rt\<lparr>stdout := stdout rt @ [s]\<rparr>"

definition Timer_now :: "world \<Rightarrow> XerRuntime \<Rightarrow> RuntimeValue \<times> XerRuntime" where
  "Timer_now w rt = (RInteger (clock w (clock_reads rt)), rt\<lparr>clock_reads := clock_reads rt + 1\<rparr>)"

text \<open>The argument \<open>ResolveIntegerArgument\<close> evaluates.\<close>

definition integer_argument ::
  "string \<Rightarrow> nat \<Rightarrow> (string option \<times> Expression) list \<Rightarrow> Expression option" where
  "integer_argument name positional_index args =
     (case find (\<lambda>a. fst a = Some name) args of
        Some a \<Rightarrow> Some (snd a)
      | None \<Rightarrow> if positional_index < length args then Some (snd (args ! positional_index)) else None)"

lemma integer_argument_in: "integer_argument name i args = Some e \<Longrightarrow> \<exists>a\<in>set args. e = snd a"
  by (auto simp: integer_argument_def find_Some_iff split: option.splits if_splits intro: nth_mem)

text \<open>Size of the syntax, for the termination of the evaluator.\<close>

fun esize :: "Expression \<Rightarrow> nat" where
  "esize (ECall l r c args) = Suc (sum_list (map (\<lambda>a. Suc (esize (snd a))) args))"
| "esize (EMap l es) = Suc (sum_list (map (\<lambda>en. Suc (esize (snd en))) es))"
| "esize e = 1"

fun ssize :: "Statement \<Rightarrow> nat" where
  "ssize (LocalAssignment l x e) = Suc (esize e)"
| "ssize (ExpressionStatement l e) = Suc (esize e)"

lemma esize_arg: "a \<in> set args \<Longrightarrow> esize (snd a) < sum_list (map (\<lambda>a. Suc (esize (snd a))) args)"
  by (induction args) auto

lemma esize_integer_argument:
  "integer_argument name i args = Some e \<Longrightarrow> esize e < sum_list (map (\<lambda>a. Suc (esize (snd a))) args)"
  using integer_argument_in esize_arg by blast

text \<open>
  \<open>EvaluateExpression\<close> with \<open>EvaluateMap\<close> (its loop is \<open>eval_entries\<close>), \<open>EvaluateCall\<close>,
  \<open>ExecuteModuleCall\<close>, \<open>ExecuteConsoleLog\<close> and \<open>ExecuteStatement\<close>. \<open>RuntimeError\<close>s are \<open>Fail\<close>.
\<close>

function (sequential) EvaluateExpression ::
    "world \<Rightarrow> nat \<Rightarrow> Expression \<Rightarrow> XerRuntime \<Rightarrow> (string, RuntimeValue \<times> XerRuntime) exec"
  and eval_entries ::
    "world \<Rightarrow> nat \<Rightarrow> (string \<times> Expression) list \<Rightarrow> (string \<times> RuntimeValue) list \<Rightarrow> XerRuntime \<Rightarrow>
       (string, RuntimeValue \<times> XerRuntime) exec"
  and EvaluateCall ::
    "world \<Rightarrow> nat \<Rightarrow> SourceLocation \<Rightarrow> string option \<Rightarrow> string \<Rightarrow> (string option \<times> Expression) list \<Rightarrow>
       XerRuntime \<Rightarrow> (string, RuntimeValue \<times> XerRuntime) exec"
  and ExecuteModuleCall ::
    "world \<Rightarrow> nat \<Rightarrow> SourceLocation \<Rightarrow> string \<Rightarrow> string \<Rightarrow> (string option \<times> Expression) list \<Rightarrow>
       XerRuntime \<Rightarrow> (string, RuntimeValue \<times> XerRuntime) exec"
  and ExecuteConsoleLog ::
    "world \<Rightarrow> nat \<Rightarrow> SourceLocation \<Rightarrow> (string option \<times> Expression) list \<Rightarrow>
       XerRuntime \<Rightarrow> (string, RuntimeValue \<times> XerRuntime) exec"
  and exec_statements ::
    "world \<Rightarrow> nat \<Rightarrow> Statement list \<Rightarrow> XerRuntime \<Rightarrow> (string, XerRuntime) exec" where
  "EvaluateExpression w n (ENumber l v) rt = Ok (RInteger v, rt)"
| "EvaluateExpression w n (EString l s) rt = Ok (RString s, rt)"
| "EvaluateExpression w n (EIdentifier l x) rt = ebind (LookupVariable l x rt) (\<lambda>v. Ok (v, rt))"
| "EvaluateExpression w n (EMap l es) rt = eval_entries w n es [] rt"
| "EvaluateExpression w n (ECall l r c args) rt = EvaluateCall w n l r c args rt"
| "eval_entries w n [] ob rt = Ok (RObject ob, rt)"
| "eval_entries w n ((k, e) # es) ob rt =
     ebind (EvaluateExpression w n e rt) (\<lambda>(v, rt'). eval_entries w n es (object_set k v ob) rt')"
| "EvaluateCall w n l (Some r) c args rt =
     (case module_aliases rt r of
        None \<Rightarrow> Fail (RuntimeError l (''unknown receiver '' @ quoted r))
      | Some module \<Rightarrow> ExecuteModuleCall w n l module c args rt)"
| "EvaluateCall w n l None c args rt =
     (case function_table rt c of
        None \<Rightarrow> Fail (RuntimeError l (''unknown function '' @ quoted c))
      | Some f \<Rightarrow>
          if args \<noteq> [] then Fail (RuntimeError l (''function '' @ quoted c @ '' does not accept arguments''))
          else case n of
            0 \<Rightarrow> OutOfFuel
          | Suc m \<Rightarrow>
              ebind (exec_statements w m (function_body f) (push_scope rt)) (\<lambda>rt'.
              ebind (pop_scope rt') (\<lambda>rt''. Ok (RNull, rt''))))"
| "ExecuteModuleCall w n l module m args rt =
     (if module = ''timer'' \<and> m = ''now'' then
        (if args \<noteq> [] then Fail (RuntimeError l ''Timer:now() does not accept arguments'')
         else Ok (Timer_now w rt))
      else if module = ''timer'' \<and> m = ''sleep'' then
        (case integer_argument ''timeout'' 0 args of
           None \<Rightarrow> Fail (RuntimeError l (''missing integer argument '' @ quoted ''timeout''))
         | Some e \<Rightarrow>
             ebind (EvaluateExpression w n e rt) (\<lambda>(v, rt').
             ebind (RequireInteger l v ''timeout'') (\<lambda>timeout_ms.
             if timeout_ms < 0
             then Fail (RuntimeError l ''Timer:sleep(timeout: ...) requires a non-negative timeout'')
             else ebind (SleepFor w (max 0 timeout_ms) rt') (\<lambda>rt''. Ok (RNull, rt'')))))
      else if module = ''console'' \<and> m = ''log'' then ExecuteConsoleLog w n l args rt
      else Fail (RuntimeError l (''unknown module call '' @ quoted (module @ '':'' @ m))))"
| "ExecuteConsoleLog w n l [] rt =
     Fail (RuntimeError l ''console:log expects format string and optional placeholder object'')"
| "ExecuteConsoleLog w n l [(nm, e)] rt =
     ebind (EvaluateExpression w n e rt) (\<lambda>(v, rt'). case v of
       RString format \<Rightarrow> Ok (RNull, write_line format rt')
     | _ \<Rightarrow> Fail (RuntimeError l ''console:log format must be a string''))"
| "ExecuteConsoleLog w n l [(nm, e), (nm', e')] rt =
     ebind (EvaluateExpression w n e rt) (\<lambda>(v, rt'). case v of
       RString format \<Rightarrow>
         ebind (EvaluateExpression w n e' rt') (\<lambda>(v', rt''). case v' of
           RObject ob \<Rightarrow> Ok (RNull, write_line (StrReplaceAll w format (log_replacements w ob)) rt'')
         | _ \<Rightarrow> Fail (RuntimeError l ''console:log placeholders must be an object literal''))
     | _ \<Rightarrow> Fail (RuntimeError l ''console:log format must be a string''))"
| "ExecuteConsoleLog w n l args rt =
     Fail (RuntimeError l ''console:log expects format string and optional placeholder object'')"
| "exec_statements w n [] rt = Ok rt"
| "exec_statements w n (LocalAssignment l x e # ss) rt =
     ebind (EvaluateExpression w n e rt) (\<lambda>(v, rt').
     ebind (assign_local x v rt') (\<lambda>rt''. exec_statements w n ss rt''))"
| "exec_statements w n (ExpressionStatement l e # ss) rt =
     ebind (EvaluateExpression w n e rt) (\<lambda>(v, rt'). exec_statements w n ss rt')"
  by pat_completeness auto
termination
  by (relation "inv_image (less_than <*lex*> less_than) (\<lambda>x. case x of
        Inl (Inl (w, n, e, rt)) \<Rightarrow> (n, 4 * esize e)
      | Inl (Inr (Inl (w, n, es, ob, rt))) \<Rightarrow> (n, 4 * sum_list (map (\<lambda>en. Suc (esize (snd en))) es) + 1)
      | Inl (Inr (Inr (w, n, l, r, c, args, rt))) \<Rightarrow> (n, 4 * sum_list (map (\<lambda>a. Suc (esize (snd a))) args) + 3)
      | Inr (Inl (w, n, l, m, c, args, rt)) \<Rightarrow> (n, 4 * sum_list (map (\<lambda>a. Suc (esize (snd a))) args) + 2)
      | Inr (Inr (Inl (w, n, l, args, rt))) \<Rightarrow> (n, 4 * sum_list (map (\<lambda>a. Suc (esize (snd a))) args) + 1)
      | Inr (Inr (Inr (w, n, ss, rt))) \<Rightarrow> (n, 4 * sum_list (map ssize ss) + 1))")
     (auto dest!: esize_integer_argument)

text \<open>\<open>Execute\<close>: imports, then functions (\<open>emplace\<close> keeps the first of a name), then statements.\<close>

fun register_imports :: "ImportDeclaration list \<Rightarrow> XerRuntime \<Rightarrow> (string, XerRuntime) exec" where
  "register_imports [] rt = Ok rt"
| "register_imports (d # ds) rt = ebind (RegisterImport d rt) (register_imports ds)"

definition emplace_function :: "FunctionDeclaration \<Rightarrow> XerRuntime \<Rightarrow> XerRuntime" where
  "emplace_function f rt =
     (if function_table rt (function_name f) = None
      then rt\<lparr>function_table := (function_table rt)(function_name f \<mapsto> f)\<rparr> else rt)"

definition Execute :: "world \<Rightarrow> nat \<Rightarrow> Program \<Rightarrow> (string, XerRuntime) exec" where
  "Execute w n p =
     ebind (register_imports (prog_imports p) Runtime_init) (\<lambda>rt.
     exec_statements w n (prog_statements p) (push_scope (fold emplace_function (prog_functions p) rt)))"

declare EvaluateCall.simps(2) [simp del] ExecuteModuleCall.simps [simp del]

section \<open>Scopes and effects\<close>

text \<open>What a step may change outside the scopes: effects are only added.\<close>

definition extends :: "XerRuntime \<Rightarrow> XerRuntime \<Rightarrow> bool" where
  "extends rt rt' \<longleftrightarrow>
     function_table rt' = function_table rt \<and> module_aliases rt' = module_aliases rt \<and>
     clock_reads rt \<le> clock_reads rt' \<and> (\<exists>xs. stdout rt' = stdout rt @ xs) \<and>
     (\<exists>ts. slept rt' = slept rt @ ts \<and> list_all (\<lambda>t. 0 \<le> t) ts)"

lemma extends_refl [simp]: "extends rt rt"
  by (simp add: extends_def)

lemma extends_trans: "extends a b \<Longrightarrow> extends b c \<Longrightarrow> extends a c"
  by (fastforce simp: extends_def)

definition keeps :: "XerRuntime \<Rightarrow> (string, RuntimeValue \<times> XerRuntime) exec \<Rightarrow> bool" where
  "keeps rt m \<longleftrightarrow> m \<noteq> Undef \<and> (\<forall>v rt'. m = Ok (v, rt') \<longrightarrow> scopes rt' = scopes rt \<and> extends rt rt')"

definition keeps_outer :: "XerRuntime \<Rightarrow> (string, XerRuntime) exec \<Rightarrow> bool" where
  "keeps_outer rt m \<longleftrightarrow> m \<noteq> Undef \<and>
     (\<forall>rt'. m = Ok rt' \<longrightarrow> scopes rt' \<noteq> [] \<and> tl (scopes rt') = tl (scopes rt) \<and> extends rt rt')"

lemma keeps_simps [simp]:
  "keeps rt (Fail e)" "keeps rt OutOfFuel" "keeps_outer rt (Fail e)" "keeps_outer rt OutOfFuel"
  by (simp_all add: keeps_def keeps_outer_def)

lemma keeps_Ok: "scopes rt' = scopes rt \<Longrightarrow> extends rt rt' \<Longrightarrow> keeps rt (Ok (v, rt'))"
  by (simp add: keeps_def)

lemma keeps_bind:
  assumes "keeps rt m"
    and "\<And>v rt'. scopes rt' = scopes rt \<Longrightarrow> extends rt rt' \<Longrightarrow> m = Ok (v, rt') \<Longrightarrow> keeps rt' (f (v, rt'))"
  shows "keeps rt (ebind m f)"
proof (cases m)
  case (Ok x)
  obtain v rt' where x: "x = (v, rt')" by (cases x)
  from assms(1) Ok x have e: "scopes rt' = scopes rt" "extends rt rt'" by (auto simp: keeps_def)
  from assms(2) [OF e] Ok x have "keeps rt' (f (v, rt'))" by simp
  then show ?thesis using Ok x e extends_trans by (fastforce simp: keeps_def)
qed (use assms in \<open>auto simp: keeps_def\<close>)

lemma keeps_outer_bind:
  assumes "keeps rt m" "scopes rt \<noteq> []"
    and "\<And>v rt'. scopes rt' = scopes rt \<Longrightarrow> extends rt rt' \<Longrightarrow> m = Ok (v, rt') \<Longrightarrow> keeps_outer rt' (f (v, rt'))"
  shows "keeps_outer rt (ebind m f)"
proof (cases m)
  case (Ok x)
  obtain v rt' where x: "x = (v, rt')" by (cases x)
  from assms(1) Ok x have e: "scopes rt' = scopes rt" "extends rt rt'" by (auto simp: keeps_def)
  from assms(3) [OF e] Ok x have "keeps_outer rt' (f (v, rt'))" by simp
  then show ?thesis using Ok x e extends_trans by (fastforce simp: keeps_outer_def)
qed (use assms in \<open>auto simp: keeps_def\<close>)

lemma keeps_call:
  assumes "keeps_outer (push_scope rt) m"
  shows "keeps rt (ebind m (\<lambda>rt'. ebind (pop_scope rt') (\<lambda>rt''. Ok (RNull, rt''))))"
proof (cases m)
  case (Ok rt')
  with assms obtain s where s: "scopes rt' = s # scopes rt" "extends (push_scope rt) rt'"
    by (cases "scopes rt'") (auto simp: keeps_outer_def push_scope_def)
  then have "extends rt (rt'\<lparr>scopes := scopes rt\<rparr>)" by (simp add: extends_def push_scope_def)
  with Ok s show ?thesis by (simp add: pop_scope_def keeps_Ok)
qed (use assms in \<open>auto simp: keeps_outer_def\<close>)

lemma keeps_assign:
  assumes "scopes rt \<noteq> []"
    and "\<And>rt'. assign_local x v rt = Ok rt' \<Longrightarrow> scopes rt' \<noteq> [] \<Longrightarrow> keeps_outer rt' (f rt')"
  shows "keeps_outer rt (ebind (assign_local x v rt) f)"
proof -
  obtain s ss where s: "scopes rt = s # ss" using assms(1) by (cases "scopes rt") auto
  let ?rt = "rt\<lparr>scopes := s(x \<mapsto> v) # ss\<rparr>"
  have "keeps_outer ?rt (f ?rt)" using s by (intro assms(2)) (auto simp: assign_local_def)
  moreover have "extends rt rt'" if "extends ?rt rt'" for rt' using that by (simp add: extends_def)
  ultimately show ?thesis using s by (auto simp: assign_local_def keeps_outer_def)
qed

lemma keeps_sleep:
  "0 \<le> t \<Longrightarrow> keeps rt (ebind (SleepFor w t rt) (\<lambda>rt''. Ok (RNull, rt'')))"
  by (auto simp: SleepFor_def keeps_def extends_def Let_def)

lemma keeps_write: "keeps rt (Ok (v, write_line s rt))" "keeps rt (Ok (Timer_now w rt))"
  by (auto simp: keeps_def extends_def write_line_def Timer_now_def)

lemma runtime_keeps:
  shows "keeps rt (EvaluateExpression w n e rt)"
    and "keeps rt (eval_entries w n es ob rt)"
    and "keeps rt (EvaluateCall w n l r c args rt)"
    and "keeps rt (ExecuteModuleCall w n l m c args rt)"
    and "keeps rt (ExecuteConsoleLog w n l args rt)"
    and "scopes rt \<noteq> [] \<Longrightarrow> keeps_outer rt (exec_statements w n ss rt)"
proof (induction w n e rt and w n es ob rt and w n l r c args rt and w n l m c args rt and w n l args rt
    and w n ss rt rule: EvaluateExpression_eval_entries_EvaluateCall_ExecuteModuleCall_ExecuteConsoleLog_exec_statements.induct)
  case (3 w n l x rt)
  then show ?case by (auto simp: LookupVariable_def keeps_def split: option.splits)
next
  case (7 w n k e es ob rt)
  then show ?case by (auto intro!: keeps_bind)
next
  case (8 w n l r c args rt)
  then show ?case by (auto split: option.splits)
next
  case (9 w n l c args rt)
  then show ?case
    by (auto simp: EvaluateCall.simps(2) push_scope_def [THEN arg_cong, of scopes] split: option.splits nat.splits intro!: keeps_call)
next
  case (10 w n l module m args rt)
  show ?case
  proof (cases "module = ''timer'' \<and> m = ''sleep''")
    case True
    then show ?thesis using 10
      by (auto simp: ExecuteModuleCall.simps RequireInteger_def split: option.splits RuntimeValue.splits
          intro!: keeps_bind keeps_sleep)
  next
    case False
    with 10 show ?thesis by (auto simp: ExecuteModuleCall.simps keeps_write)
  qed
next
  case (12 w n l nm e rt)
  then show ?case by (auto intro!: keeps_bind keeps_write split: RuntimeValue.splits)
next
  case (13 w n l nm e nm' e' rt)
  then show ?case by (fastforce intro!: keeps_bind keeps_write split: RuntimeValue.splits)
next
  case (15 w n rt)
  then show ?case by (simp add: keeps_outer_def)
next
  case (16 w n l x e ss rt)
  show ?case unfolding exec_statements.simps
    by (rule keeps_outer_bind [OF "16.IH"(1) "16.prems"])
       (use "16.IH"(2) "16.prems" in \<open>auto intro!: keeps_assign\<close>)
next
  case (17 w n l e ss rt)
  then show ?case by (auto intro!: keeps_outer_bind)
qed (auto intro: keeps_Ok)

text \<open>
  C21. Evaluating an expression never disturbs the variables: every successful evaluation leaves
  the stack of scopes, the function table and the module aliases as they were, whatever functions
  it called, and only adds to the output and to the sleeps, all of which are non-negative.
\<close>

theorem EvaluateExpression_preserves:
  assumes "EvaluateExpression w n e rt = Ok (v, rt')"
  shows "scopes rt' = scopes rt \<and> function_table rt' = function_table rt \<and>
    module_aliases rt' = module_aliases rt \<and> (\<exists>xs. stdout rt' = stdout rt @ xs) \<and>
    (\<exists>ts. slept rt' = slept rt @ ts \<and> list_all (\<lambda>t. 0 \<le> t) ts)"
  using runtime_keeps(1) [of rt w n e] assms by (auto simp: keeps_def extends_def)

lemma register_imports_keeps:
  "register_imports ds rt \<noteq> Undef \<and> (register_imports ds rt = Ok rt' \<longrightarrow> scopes rt' = scopes rt)"
proof (induction ds arbitrary: rt)
  case (Cons d ds)
  then show ?case by (auto simp: RegisterImport_def Let_def)
qed simp

text \<open>
  A run never has undefined behaviour: for every program, world and amount of fuel the
  interpreter does not touch the top of an empty scope stack.
\<close>

theorem Execute_not_undefined: "Execute w n p \<noteq> Undef"
proof -
  have "keeps_outer (push_scope rt) (exec_statements w n ss (push_scope rt))" for ss rt
    by (rule runtime_keeps(6)) (simp add: push_scope_def)
  then show ?thesis using register_imports_keeps
    by (auto simp: Execute_def ebind_eq_Undef keeps_outer_def)
qed

section \<open>Fuel\<close>

lemma ebind_fuel:
  assumes "ebind m f \<noteq> OutOfFuel" "m \<noteq> OutOfFuel \<Longrightarrow> m' = m"
    and "\<And>x. m = Ok x \<Longrightarrow> f x \<noteq> OutOfFuel \<Longrightarrow> f' x = f x"
  shows "ebind m' f' = ebind m f"
  using assms by (cases m) auto

lemma runtime_fuel_mono:
  shows "EvaluateExpression w n e rt \<noteq> OutOfFuel \<Longrightarrow>
      EvaluateExpression w (n + k) e rt = EvaluateExpression w n e rt"
    and "eval_entries w n es ob rt \<noteq> OutOfFuel \<Longrightarrow>
      eval_entries w (n + k) es ob rt = eval_entries w n es ob rt"
    and "EvaluateCall w n l r c args rt \<noteq> OutOfFuel \<Longrightarrow>
      EvaluateCall w (n + k) l r c args rt = EvaluateCall w n l r c args rt"
    and "ExecuteModuleCall w n l m c args rt \<noteq> OutOfFuel \<Longrightarrow>
      ExecuteModuleCall w (n + k) l m c args rt = ExecuteModuleCall w n l m c args rt"
    and "ExecuteConsoleLog w n l args rt \<noteq> OutOfFuel \<Longrightarrow>
      ExecuteConsoleLog w (n + k) l args rt = ExecuteConsoleLog w n l args rt"
    and "exec_statements w n ss rt \<noteq> OutOfFuel \<Longrightarrow>
      exec_statements w (n + k) ss rt = exec_statements w n ss rt"
proof (induction w n e rt and w n es ob rt and w n l r c args rt and w n l m c args rt and w n l args rt
    and w n ss rt arbitrary: k and k and k and k and k and k
    rule: EvaluateExpression_eval_entries_EvaluateCall_ExecuteModuleCall_ExecuteConsoleLog_exec_statements.induct)
  case (7 w n key e es ob rt)
  show ?case unfolding eval_entries.simps
  proof (rule ebind_fuel [OF "7.prems"(1) [unfolded eval_entries.simps]], goal_cases)
    case 1
    with 7 show ?case by simp
  next
    case (2 x)
    with 7 show ?case by (cases x) simp
  qed
next
  case (8 w n l r c args rt)
  then show ?case by (auto split: option.splits)
next
  case (9 w n l c args rt)
  show ?case
  proof (cases "function_table rt c")
    case (Some f)
    show ?thesis
    proof (cases "args = []")
      case True
      with 9 Some obtain m where n: "n = Suc m" by (cases n) (auto simp: EvaluateCall.simps(2))
      have *: "exec_statements w (m + k) (function_body f) (push_scope rt) = exec_statements w m (function_body f) (push_scope rt)"
        if "exec_statements w m (function_body f) (push_scope rt) \<noteq> OutOfFuel"
        using "9.IH" [OF Some _ n] True that by simp
      show ?thesis using 9(2) Some True n *
        by (auto simp: EvaluateCall.simps(2) intro!: ebind_fuel)
    qed (use Some in \<open>simp add: EvaluateCall.simps(2)\<close>)
  qed (simp add: EvaluateCall.simps(2))
next
  case (10 w n l module m args rt)
  show ?case
  proof (cases "module = ''timer'' \<and> m = ''sleep''")
    case True
    show ?thesis
    proof (cases "integer_argument ''timeout'' 0 args")
      case (Some e)
      with True 10(3-) 10(1) [of e] show ?thesis
        by (auto simp: ExecuteModuleCall.simps intro!: ebind_fuel)
    qed (use True in \<open>simp add: ExecuteModuleCall.simps\<close>)
  next
    case False
    with 10 show ?thesis by (auto simp: ExecuteModuleCall.simps)
  qed
next
  case (12 w n l nm e rt)
  then show ?case by (auto intro!: ebind_fuel)
next
  case (13 w n l nm e nm' e' rt)
  show ?case unfolding ExecuteConsoleLog.simps
  proof (rule ebind_fuel [OF "13.prems"(1) [unfolded ExecuteConsoleLog.simps]], goal_cases)
    case 1
    with 13 show ?case by simp
  next
    case (2 x)
    with 13 show ?case by (cases x) (auto intro!: ebind_fuel split: RuntimeValue.splits)
  qed
next
  case (16 w n l x e ss rt)
  show ?case unfolding exec_statements.simps
  proof (rule ebind_fuel [OF "16.prems"(1) [unfolded exec_statements.simps]], goal_cases)
    case 1
    with 16 show ?case by simp
  next
    case (2 x)
    with 16 show ?case by (cases x) (auto intro!: ebind_fuel)
  qed
next
  case (17 w n l e ss rt)
  show ?case unfolding exec_statements.simps
  proof (rule ebind_fuel [OF "17.prems"(1) [unfolded exec_statements.simps]], goal_cases)
    case 1
    with 17 show ?case by simp
  next
    case (2 x)
    with 17 show ?case by (cases x) simp
  qed
qed auto

text \<open>
  The result does not depend on the fuel: a run that ends with some fuel ends in the same way
  with more.
\<close>

theorem Execute_fuel_mono:
  assumes "Execute w n p \<noteq> OutOfFuel" "n \<le> n'"
  shows "Execute w n' p = Execute w n p"
proof -
  obtain k where n': "n' = n + k" using assms(2) le_Suc_ex by blast
  show ?thesis using assms(1) unfolding Execute_def n'
    by (intro ebind_fuel) (auto simp: runtime_fuel_mono(6))
qed

section \<open>Termination and divergence\<close>

text \<open>The script functions an expression calls.\<close>

fun ecalls :: "Expression \<Rightarrow> string list" where
  "ecalls (ECall l r c args) =
     (case r of None \<Rightarrow> [c] | Some x \<Rightarrow> []) @ concat (map (\<lambda>a. ecalls (snd a)) args)"
| "ecalls (EMap l es) = concat (map (\<lambda>en. ecalls (snd en)) es)"
| "ecalls e = []"

fun scalls :: "Statement \<Rightarrow> string list" where
  "scalls (LocalAssignment l x e) = ecalls e"
| "scalls (ExpressionStatement l e) = ecalls e"

definition ranked :: "(string \<Rightarrow> nat) \<Rightarrow> (string \<rightharpoonup> FunctionDeclaration) \<Rightarrow> bool" where
  "ranked rank tbl \<longleftrightarrow> (\<forall>f fd g. tbl f = Some fd \<longrightarrow> g \<in> set (concat (map scalls (function_body fd))) \<longrightarrow>
     rank g < rank f)"

lemma table_after:
  "EvaluateExpression w n e rt = Ok (v, rt') \<Longrightarrow> function_table rt' = function_table rt"
  using runtime_keeps(1) [of rt w n e] by (auto simp: keeps_def extends_def)

lemma assign_local_table: "assign_local x v rt = Ok rt' \<Longrightarrow> function_table rt' = function_table rt"
  by (auto simp: assign_local_def split: list.splits)

lemma assign_not_fuel [simp]: "assign_local x v rt \<noteq> OutOfFuel" "LookupVariable l x rt \<noteq> OutOfFuel"
  "RequireInteger l v x \<noteq> OutOfFuel" "SleepFor w t rt \<noteq> OutOfFuel" "pop_scope rt \<noteq> OutOfFuel"
  by (auto simp: assign_local_def LookupVariable_def RequireInteger_def SleepFor_def pop_scope_def Let_def
      split: list.splits option.splits RuntimeValue.splits)

lemma integer_argument_calls:
  "integer_argument name i args = Some e \<Longrightarrow> set (ecalls e) \<subseteq> set (concat (map (\<lambda>a. ecalls (snd a)) args))"
  using integer_argument_in by fastforce

lemma ranked_terminates:
  shows "ranked rank (function_table rt) \<Longrightarrow> \<forall>g\<in>set (ecalls e). rank g < n \<Longrightarrow>
      EvaluateExpression w n e rt \<noteq> OutOfFuel"
    and "ranked rank (function_table rt) \<Longrightarrow> \<forall>g\<in>set (concat (map (\<lambda>en. ecalls (snd en)) es)). rank g < n \<Longrightarrow>
      eval_entries w n es ob rt \<noteq> OutOfFuel"
    and "ranked rank (function_table rt) \<Longrightarrow> \<forall>g\<in>set (ecalls (ECall l r c args)). rank g < n \<Longrightarrow>
      EvaluateCall w n l r c args rt \<noteq> OutOfFuel"
    and "ranked rank (function_table rt) \<Longrightarrow> \<forall>g\<in>set (concat (map (\<lambda>a. ecalls (snd a)) args)). rank g < n \<Longrightarrow>
      ExecuteModuleCall w n l m c args rt \<noteq> OutOfFuel"
    and "ranked rank (function_table rt) \<Longrightarrow> \<forall>g\<in>set (concat (map (\<lambda>a. ecalls (snd a)) args)). rank g < n \<Longrightarrow>
      ExecuteConsoleLog w n l args rt \<noteq> OutOfFuel"
    and "ranked rank (function_table rt) \<Longrightarrow> \<forall>g\<in>set (concat (map scalls ss)). rank g < n \<Longrightarrow>
      exec_statements w n ss rt \<noteq> OutOfFuel"
proof (induction w n e rt and w n es ob rt and w n l r c args rt and w n l m c args rt and w n l args rt
    and w n ss rt rule: EvaluateExpression_eval_entries_EvaluateCall_ExecuteModuleCall_ExecuteConsoleLog_exec_statements.induct)
  case (3 w n l x rt)
  then show ?case by (auto simp: ebind_eq_OutOfFuel)
next
  case (7 w n k e es ob rt)
  then show ?case by (fastforce simp: ebind_eq_OutOfFuel dest: table_after)
next
  case (8 w n l r c args rt)
  then show ?case by (auto split: option.splits)
next
  case (9 w n l c args rt)
  show ?case
  proof (cases "function_table rt c")
    case (Some f)
    with 9 obtain m where n: "n = Suc m" "rank c \<le> m" by (cases n) auto
    have "\<forall>g\<in>set (concat (map scalls (function_body f))). rank g < m"
      using "9.prems"(1) Some n(2) unfolding ranked_def by (meson less_le_trans)
    with "9.IH" [OF Some _ n(1)] "9.prems"(1) Some n show ?thesis
      by (auto simp: EvaluateCall.simps(2) push_scope_def ebind_eq_OutOfFuel)
  qed (simp add: EvaluateCall.simps(2))
next
  case (10 w n l module m args rt)
  show ?case
  proof (cases "module = ''timer'' \<and> m = ''sleep''")
    case True
    show ?thesis
    proof (cases "integer_argument ''timeout'' 0 args")
      case (Some e)
      then have "\<forall>g\<in>set (ecalls e). rank g < n" using "10.prems"(2) integer_argument_calls by blast
      with True Some 10 show ?thesis by (auto simp: ExecuteModuleCall.simps ebind_eq_OutOfFuel)
    qed (use True in \<open>simp add: ExecuteModuleCall.simps\<close>)
  next
    case False
    with 10 show ?thesis by (auto simp: ExecuteModuleCall.simps)
  qed
next
  case (12 w n l nm e rt)
  then show ?case by (auto simp: ebind_eq_OutOfFuel split: RuntimeValue.splits)
next
  case (13 w n l nm e nm' e' rt)
  have a: "EvaluateExpression w n e rt \<noteq> OutOfFuel" using 13 by simp
  have b: "EvaluateExpression w n e' rt' \<noteq> OutOfFuel"
    if "EvaluateExpression w n e rt = Ok (RString f, rt')" for f rt'
    using "13.IH"(2) [OF that refl refl] "13.prems" table_after [OF that] by simp
  show ?case using a b by (auto simp: ebind_eq_OutOfFuel split: RuntimeValue.splits)
next
  case (16 w n l x e ss rt)
  then show ?case by (fastforce simp: ebind_eq_OutOfFuel dest: table_after assign_local_table)
next
  case (17 w n l e ss rt)
  then show ?case by (fastforce simp: ebind_eq_OutOfFuel dest: table_after)
qed auto

lemma register_imports_table:
  "register_imports ds rt = Ok rt' \<Longrightarrow> function_table rt' = function_table rt"
  by (induction ds arbitrary: rt) (auto simp: RegisterImport_def Let_def split: if_splits)

lemma register_imports_fuel: "register_imports ds rt \<noteq> OutOfFuel"
  by (induction ds arbitrary: rt) (auto simp: RegisterImport_def Let_def)

lemma emplaced_table:
  "function_table (fold emplace_function fs rt) c = Some f \<Longrightarrow>
   function_table rt c = Some f \<or> f \<in> set fs \<and> function_name f = c"
proof (induction fs arbitrary: rt)
  case (Cons g fs)
  from Cons.IH [of "emplace_function g rt"] Cons.prems show ?case
    by (auto simp: emplace_function_def split: if_splits)
qed simp

text \<open>
  C13. Programs without recursion end: if the functions can be ranked so that every function calls
  only functions of smaller rank, then with fuel above the ranks of the functions that the top-level
  statements call the run ends, normally or with an error of the script.
\<close>

theorem Execute_terminates:
  assumes "list_all (\<lambda>f. list_all (\<lambda>g. rank g < rank (function_name f))
      (concat (map scalls (function_body f)))) (prog_functions p)"
    and "list_all (\<lambda>g. rank g < n) (concat (map scalls (prog_statements p)))"
  shows "returns (Execute w n p)"
proof -
  have "exec_statements w n (prog_statements p) (push_scope (fold emplace_function (prog_functions p) rt)) \<noteq> OutOfFuel"
    if "register_imports (prog_imports p) Runtime_init = Ok rt" for rt
  proof (rule ranked_terminates(6))
    show "ranked rank (function_table (push_scope (fold emplace_function (prog_functions p) rt)))"
      using assms(1) register_imports_table [OF that]
      by (auto simp: ranked_def push_scope_def list_all_iff Runtime_init_def dest!: emplaced_table)
  qed (use assms(2) in \<open>auto simp: list_all_iff\<close>)
  then have "Execute w n p \<noteq> OutOfFuel"
    by (auto simp: Execute_def ebind_eq_OutOfFuel register_imports_fuel)
  moreover have "Execute w n p \<noteq> Undef"
    using runtime_keeps(6) register_imports_keeps
    by (fastforce simp: Execute_def ebind_eq_Undef keeps_outer_def push_scope_def)
  ultimately show ?thesis by (simp add: returns_def)
qed

definition sample_world :: world where
  "sample_world = \<lparr>clock = (\<lambda>n. 1000 + int n), uv_loop_init_ok = (\<lambda>n. True), hash_order = (\<lambda>ob. ob),
     StrReplaceAll = (\<lambda>s rs. s)\<rparr>"

theorem Execute_terminates_witness:
  "returns (Execute sample_world 2 \<lparr>prog_imports = [],
     prog_functions = [\<lparr>function_loc = start_location, is_async = False, function_name = ''g'', function_body = []\<rparr>,
       \<lparr>function_loc = start_location, is_async = False, function_name = ''f'',
        function_body = [ExpressionStatement start_location (ECall start_location None ''g'' [])]\<rparr>],
     prog_statements = [ExpressionStatement start_location (ECall start_location None ''f'' [])]\<rparr>)"
  by (rule Execute_terminates [where rank = "\<lambda>g. if g = ''f'' then 1 else 0"]) simp_all

text \<open>
  Recursion has no way out: there are no conditionals, so a function whose body starts with a
  call of itself never returns; no amount of fuel ends the call.
\<close>

theorem self_call_diverges:
  assumes "function_table rt f = Some fd"
    and "function_body fd = ExpressionStatement l (ECall l' None f []) # ss"
  shows "EvaluateCall w n l0 None f [] rt = OutOfFuel"
  using assms
proof (induction n arbitrary: rt l0)
  case (Suc n)
  then have "EvaluateCall w n l' None f [] (push_scope rt) = OutOfFuel" by (simp add: push_scope_def)
  with Suc.prems show ?case by (simp add: EvaluateCall.simps(2))
qed (simp add: EvaluateCall.simps(2))

definition loop_function :: FunctionDeclaration where
  "loop_function = \<lparr>function_loc = start_location, is_async = False, function_name = ''f'',
     function_body = [ExpressionStatement start_location (ECall start_location None ''f'' [])]\<rparr>"

theorem self_call_diverges_witness:
  "EvaluateCall sample_world 1000 start_location None ''f'' []
     (Runtime_init\<lparr>function_table := [''f'' \<mapsto> loop_function]\<rparr>) = OutOfFuel"
  by (rule self_call_diverges [where fd = loop_function and l = start_location and l' = start_location and ss = "[]"]) (simp_all add: loop_function_def)

theorem Execute_fuel_mono_witness:
  "Execute sample_world 7 empty_program = Execute sample_world 0 empty_program"
proof (rule Execute_fuel_mono)
  show "Execute sample_world 0 empty_program \<noteq> OutOfFuel" by (simp add: Execute_def empty_program_def)
qed simp

theorem EvaluateExpression_preserves_witness:
  "scopes (snd (Timer_now sample_world Runtime_init)) = scopes Runtime_init \<and>
   EvaluateExpression sample_world 0 (ECall start_location (Some ''t'') ''now'' [])
     (Runtime_init\<lparr>module_aliases := [''t'' \<mapsto> ''timer'']\<rparr>) =
   Ok (RInteger 1000, Runtime_init\<lparr>module_aliases := [''t'' \<mapsto> ''timer''], clock_reads := 1\<rparr>)"
proof -
  let ?rt = "Runtime_init\<lparr>module_aliases := [''t'' \<mapsto> ''timer'']\<rparr>"
  have e: "EvaluateExpression sample_world 0 (ECall start_location (Some ''t'') ''now'' []) ?rt =
      Ok (RInteger 1000, ?rt\<lparr>clock_reads := 1\<rparr>)"
    by (simp add: ExecuteModuleCall.simps Timer_now_def sample_world_def Runtime_init_def)
  from EvaluateExpression_preserves [OF e] e show ?thesis by (simp add: Timer_now_def)
qed

end
