(* ===== verification/XerScriptRun.thy ===== *)
theory XerScriptRun
  imports XerContainer XerScriptGrammar XerScriptRuntime
begin

text \<open>
  The pipeline of \<open>XerScript::Run\<close> (end of \<^verbatim>\<open>src/src/xer/xer_script.cc\<close>): protect a \<open>.xer\<close> source
  by writing its artifacts, read the source back (from the file or from a protected container),
  normalise, lex, parse and execute it. The state that persists is the set of written files, which
  shadow the disk.
\<close>

section \<open>Definitions\<close>

definition ReadWholeFile :: "disk \<Rightarrow> string \<Rightarrow> (string, string) exec" where
  "ReadWholeFile d path =
     (if \<not> opens d path then Fail (''unable to open '' @ quoted path) else Ok (string_of_bytes (content d path)))"

definition Script_NormalizeSource :: "icu \<Rightarrow> string \<Rightarrow> (string, string) exec" where
  "Script_NormalizeSource icu source =
     (let source = strip_bom source in
      case icu of
        NoIcu \<Rightarrow> Ok source
      | Icu None \<Rightarrow> Fail ''ICU normalizer initialization failed''
      | Icu (Some nfc) \<Rightarrow>
          (case nfc source of None \<Rightarrow> Fail ''ICU source normalization failed'' | Some normalized \<Rightarrow> Ok normalized))"

definition ReadRuntimeSource :: "host \<Rightarrow> icu \<Rightarrow> disk \<Rightarrow> string \<Rightarrow> (string, string) exec" where
  "ReadRuntimeSource env icu d path =
     (if map c_tolower (path_extension path) = ''.bin'' then
        ebind (ResolveProtectionOptionsFromEnvironment d) (\<lambda>protection.
        ebind (Buffer_FromFile d path) (\<lambda>encoded.
        ebind (Decode env encoded protection) (\<lambda>decoded.
        Script_NormalizeSource icu (Buffer_ToString decoded))))
      else ebind (ReadWholeFile d path) (Script_NormalizeSource icu))"

definition EnsureProtectedArtifacts ::
  "host \<Rightarrow> icu \<Rightarrow> disk \<Rightarrow> out_disk \<Rightarrow> string \<Rightarrow> (string \<rightharpoonup> bytes) \<Rightarrow> (string \<rightharpoonup> bytes) \<times> (string, unit) exec" where
  "EnsureProtectedArtifacts env icu d out path files =
     (if map c_tolower (path_extension path) \<noteq> ''.xer'' then (files, Ok ())
      else case ebind (ResolveProtectionOptionsFromEnvironment d) (Encode_Compile env icu d path) of
        Ok block \<Rightarrow>
          (case WriteArtifacts out path block [] files of
             (files', None) \<Rightarrow> (files', Ok ())
           | (files', Some write_error) \<Rightarrow>
               (files', Fail (if write_error = [] then ''failed to write .bin/.bak artifacts'' else write_error)))
      | Fail e \<Rightarrow> (files, Fail e)
      | Undef \<Rightarrow> (files, Undef)
      | OutOfFuel \<Rightarrow> (files, OutOfFuel))"

definition Supports :: "string \<Rightarrow> bool" where
  "Supports path \<longleftrightarrow>
     map c_tolower (path_extension path) = ''.xer'' \<or> map c_tolower (path_extension path) = ''.bin''"

definition run_source :: "world \<Rightarrow> nat \<Rightarrow> string \<Rightarrow> (string, XerRuntime) exec" where
  "run_source w fuel source =
     ebind (Script_Tokenize source) (\<lambda>toks. ebind (ParseProgram toks) (Execute w fuel))"

definition run_error :: "string \<Rightarrow> (string, 'a) exec \<Rightarrow> (string, 'a) exec" where
  "run_error path r = (case r of Fail e \<Rightarrow> Fail (''XER runtime error in '' @ path @ '': '' @ e) | _ \<Rightarrow> r)"

text \<open>The disk as a later reader sees it.\<close>

definition shadowed :: "(string \<rightharpoonup> bytes) \<Rightarrow> disk \<Rightarrow> disk" where
  "shadowed files d =
     d\<lparr>exists := \<lambda>p. files p \<noteq> None \<or> exists d p, opens := \<lambda>p. files p \<noteq> None \<or> opens d p,
       content := \<lambda>p. (case files p of Some bs \<Rightarrow> bs | None \<Rightarrow> content d p),
       read_ok := \<lambda>p. files p \<noteq> None \<or> read_ok d p\<rparr>"

definition Run ::
  "world \<Rightarrow> nat \<Rightarrow> host \<Rightarrow> icu \<Rightarrow> disk \<Rightarrow> out_disk \<Rightarrow> string \<Rightarrow> (string \<rightharpoonup> bytes) \<Rightarrow>
     (string \<rightharpoonup> bytes) \<times> (string, XerRuntime) exec" where
  "Run w fuel env icu d out path files =
     (case EnsureProtectedArtifacts env icu (shadowed files d) out path files of (files', r) \<Rightarrow>
        (files', run_error path
           (ebind r (\<lambda>_.
            ebind (ReadRuntimeSource env icu (shadowed files' d) path) (\<lambda>source.
            run_source w fuel source)))))"

section \<open>Paths of the artifacts\<close>

lemma path_filename_no_slash: "CHR ''/'' \<notin> set (path_filename path)"
  unfolding path_filename_def set_rev by (metis set_takeWhileD)

lemma path_filename_append:
  assumes "CHR ''/'' \<notin> set name"
  shows "path_filename (path_append dir name) = name"
proof -
  have "takeWhile (\<lambda>c. c \<noteq> CHR ''/'') (rev name @ xs) = rev name @ takeWhile (\<lambda>c. c \<noteq> CHR ''/'') xs" for xs
    using assms by (intro takeWhile_append2) auto
  note t = this
  have "takeWhile (\<lambda>c. c \<noteq> CHR ''/'') (rev name) = rev name" using t [of "[]"] by simp
  then show ?thesis
    by (cases dir rule: rev_cases) (simp_all add: path_append_def path_filename_def t del: takeWhile_eq_all_conv)
qed

lemma path_stem_parts:
  assumes "path_extension path \<noteq> []"
  shows "path_stem path \<noteq> []" "CHR ''/'' \<notin> set (path_stem path)"
proof -
  show "path_stem path \<noteq> []"
    using assms by (auto simp: path_stem_def path_extension_def Let_def split: if_splits)
  show "CHR ''/'' \<notin> set (path_stem path)"
    using path_filename_no_slash [of path] in_set_takeD unfolding path_stem_def by fastforce
qed

lemma bin_extension:
  assumes "path_extension path \<noteq> []"
  shows "path_extension (path_append dir (path_stem path @ ''.bin'')) = ''.bin''"
proof -
  have f: "path_filename (path_append dir (path_stem path @ ''.bin'')) = path_stem path @ ''.bin''"
    using path_stem_parts(2) [OF assms] by (intro path_filename_append) simp
  obtain c cs where "path_stem path = c # cs" using path_stem_parts(1) [OF assms] by (cases "path_stem path") auto
  then show ?thesis unfolding path_extension_def f by (simp add: Let_def)
qed


lemma bak_extension:
  assumes "path_extension path \<noteq> []"
  shows "path_extension (path_append dir (path_stem path @ ''.bak'')) = ''.bak''"
proof -
  have f: "path_filename (path_append dir (path_stem path @ ''.bak'')) = path_stem path @ ''.bak''"
    using path_stem_parts(2) [OF assms] by (intro path_filename_append) simp
  obtain c cs where "path_stem path = c # cs" using path_stem_parts(1) [OF assms] by (cases "path_stem path") auto
  then show ?thesis unfolding path_extension_def f by (simp add: Let_def)
qed

section \<open>Protected and plain runs\<close>

lemma normalized_agree:
  "Script_NormalizeSource icu s = Ok t \<Longrightarrow> fst (NormalizeSource icu s err) = t"
  by (auto simp: Script_NormalizeSource_def NormalizeSource_def Let_def split: icu.splits option.splits)

lemma CompileFromText_normalized: "normalized_source (fst (CompileFromText icu s err)) = fst (NormalizeSource icu s err)"
  by (simp add: CompileFromText_def Let_def split: prod.splits)

text \<open>What a successful protection wrote.\<close>

lemma EnsureProtectedArtifacts_block:
  assumes e: "EnsureProtectedArtifacts env icu d out path files = (files', Ok ())"
    and x: "map c_tolower (path_extension path) = ''.xer''"
  obtains options cr block where "ResolveProtectionOptionsFromEnvironment d = Ok options"
    "EncodeInternal env (Buffer_FromString (fst (NormalizeSource icu (read_text d path) []))) (path_filename path) options cr = Ok block"
    "WriteArtifacts out path block [] files = (files', None)"
proof -
  obtain options block where o: "ResolveProtectionOptionsFromEnvironment d = Ok options"
      and c: "Encode_Compile env icu d path options = Ok block" and w: "WriteArtifacts out path block [] files = (files', None)"
    using e x by (auto simp: EnsureProtectedArtifacts_def split: exec.splits prod.splits option.splits)
  obtain result err where r: "CompileFromFile icu (file_system.truncate d) path = (result, err)" by force
  have enc: "EncodeInternal env (Buffer_FromString (normalized_source result)) (path_filename path) options (Some result) = Ok block"
    using c r by (simp add: Encode_Compile_def split: if_splits)
  have "normalized_source result \<noteq> []"
  proof
    assume "normalized_source result = []"
    then show False using enc by (simp add: EncodeInternal_def sxer84321_encode_def Let_def Buffer_FromString_def Js_FromString_def AppendString_def)
  qed
  then have "normalized_source result = fst (NormalizeSource icu (read_text d path) [])"
    using r CompileFromText_normalized [of icu "read_text d path" "[]"]
    by (auto simp: CompileFromFile_def ReadSourceFile_def file_system.defs split: if_splits)
  then show thesis using that [OF o _ w] enc by simp
qed

lemma Buffer_roundtrip [simp]: "Buffer_ToString (Buffer_FromString s) = s" "length (Buffer_FromString s) = length s"
proof -
  have "string_of_bytes [] = []" by (simp add: string_of_bytes_def)
  then show "Buffer_ToString (Buffer_FromString s) = s" "length (Buffer_FromString s) = length s"
    by (auto simp: Buffer_ToString_def Buffer_FromString_def Js_ToString_def Js_FromString_def AppendString_def AppendBytes_def)
qed

text \<open>
  C2. Running the protected container is running the script: after a successful run of a \<open>.xer\<close>
  file, a run of the \<open>.bin\<close> file it left, with the same key and possibly on another host, ends in
  the same runtime state. Both readers must see the same file text, normalising the source once
  more must not change it, and the OpenSSL contract must hold.
\<close>

theorem protected_run_equals_source_run:
  assumes run: "Run w n env icu d out path files = (files', Ok rt)"
    and x: "map c_tolower (path_extension path) = ''.xer''"
    and same: "read_text d path = string_of_bytes (content (shadowed files d) path)"
    and key: "ResolveProtectionOptionsFromEnvironment (shadowed files' d) = ResolveProtectionOptionsFromEnvironment (shadowed files d)"
    and src: "Script_NormalizeSource icu (read_text d path) = Ok src" "Script_NormalizeSource icu src = Ok src" "length src < 2 ^ 30"
    and o: "OpenSSL_contract env env'" "alloc_error env' (length src) = None"
    and m: "length (the (files' (path_append (parent_path path) (path_stem path @ ''.bak'')))) < 2 ^ 30"
  shows "snd (Run w n env' icu d out' (path_append (parent_path path) (path_stem path @ ''.bin'')) files') = Ok rt"
proof -
  let ?bin = "path_append (parent_path path) (path_stem path @ ''.bin'')"
  let ?bak = "path_append (parent_path path) (path_stem path @ ''.bak'')"
  have ne: "path_extension path \<noteq> []" using x by auto
  have ext: "map c_tolower (path_extension ?bin) = ''.bin''" by (simp add: bin_extension [OF ne] cctype_defs)
  have other: "path \<noteq> ?bin" "path \<noteq> ?bak"
    using x bin_extension [OF ne, of "parent_path path"] bak_extension [OF ne, of "parent_path path"]
    by (auto simp: cctype_defs)
  obtain ep: "EnsureProtectedArtifacts env icu (shadowed files d) out path files = (files', Ok ())"
    and rs: "ebind (ReadRuntimeSource env icu (shadowed files' d) path) (run_source w n) = Ok rt"
  proof -
    obtain r where r: "EnsureProtectedArtifacts env icu (shadowed files d) out path files = (files', r)"
        "ebind r (\<lambda>_. ebind (ReadRuntimeSource env icu (shadowed files' d) path) (run_source w n)) = Ok rt"
      using run by (auto simp: Run_def run_error_def split: prod.splits exec.splits simp del: ebind_eq_Ok)
    then show thesis using that by (cases r) auto
  qed
  obtain options cr block where b: "ResolveProtectionOptionsFromEnvironment (shadowed files d) = Ok options"
      "EncodeInternal env (Buffer_FromString (fst (NormalizeSource icu (read_text (shadowed files d) path) []))) (path_filename path) options cr = Ok block"
      "WriteArtifacts out path block [] files = (files', None)"
    by (rule EnsureProtectedArtifacts_block [OF ep x])
  have rt: "read_text (shadowed fs d) = read_text d" for fs by (simp add: shadowed_def)
  have nz: "fst (NormalizeSource icu (read_text d path) []) = src" by (rule normalized_agree [OF src(1)])
  note f = WriteArtifacts_files [OF b(3), simplified]
  have fb: "files' ?bin = Some (bin_payload block)" "files' ?bak = Some (bytes_of_string (bak_manifest block))" using f(1) by simp_all
  have dec: "Decode env' (bin_payload block) options = Ok (Buffer_FromString src)"
    by (rule Decode_EncodeInternal [OF b(2) [unfolded rt nz] o(1)]) (use src o m fb in simp_all)
  have bin: "ReadRuntimeSource env' icu (shadowed files' d) ?bin = Ok src"
    unfolding ReadRuntimeSource_def using ext key b(1) dec src(2) fb by (simp add: Buffer_FromFile_def shadowed_def del: ebind_eq_Ok)
  have "content (shadowed files' d) path = content (shadowed files d) path"
    using f(2) [OF other] by (simp add: shadowed_def)
  then have "ReadRuntimeSource env icu (shadowed files' d) path = Ok src \<or> (\<forall>s. ReadRuntimeSource env icu (shadowed files' d) path \<noteq> Ok s)"
    using x same src(1) by (auto simp: ReadRuntimeSource_def ReadWholeFile_def)
  then have "run_source w n src = Ok rt" using rs by auto
  then show ?thesis using ext bin
    by (simp add: Run_def EnsureProtectedArtifacts_def run_error_def del: ebind_eq_Ok)
qed

text \<open>A disk that holds one script, and its protection and run.\<close>

definition script_disk :: disk where
  "script_disk = \<lparr>exists = \<lambda>p. True, read_text = \<lambda>p. ''1'', opens = \<lambda>p. True, content = \<lambda>p. bytes_of_string ''1'',
     read_ok = \<lambda>p. True, getenv = \<lambda>v. None\<rparr>"

lemma script_disk_shadowed: "shadowed Map.empty script_disk = script_disk"
  by (simp add: shadowed_def script_disk_def)

lemma sample_run_source: "\<exists>rt. run_source sample_world 0 ''1'' = Ok rt"
proof -
  let ?toks = "[mk_tok kNumber ''1'' \<lparr>line = 1, column = 1\<rparr>, mk_tok kEndOfFile [] \<lparr>line = 1, column = 2\<rparr>]"
  have t: "Script_Tokenize ''1'' = Ok ?toks" by code_simp
  have p: "ParseProgram ?toks = Ok \<lparr>prog_imports = [], prog_functions = [],
      prog_statements = [ExpressionStatement \<lparr>line = 1, column = 1\<rparr> (ENumber \<lparr>line = 1, column = 1\<rparr> 1)]\<rparr>"
    by code_simp
  show ?thesis unfolding run_source_def t ebind.simps p by (simp add: Execute_def)
qed

lemma sample_protect:
  "\<exists>block :: XerEncodedBlock. EnsureProtectedArtifacts sample_host NoIcu script_disk sample_out ''a.xer'' Map.empty =
     ([''a.bin'' \<mapsto> bin_payload block, ''a.bak'' \<mapsto> bytes_of_string (bak_manifest block)], Ok ()) \<and>
     length (bak_manifest block) \<le> 405"
proof -
  have x: "path_extension ''a.xer'' = ''.xer''" "path_filename ''a.xer'' = ''a.xer''"
      "parent_path ''a.xer'' = []" "path_stem ''a.xer'' = ''a''"
    by (simp_all add: path_extension_def path_filename_def parent_path_def path_stem_def Let_def)
  have r: "ResolveProtectionOptionsFromEnvironment script_disk = Ok \<lparr>encryption_key = []\<rparr>"
    by (simp add: ResolveProtectionOptionsFromEnvironment_def script_disk_def)
  obtain result err where c: "CompileFromFile NoIcu (file_system.truncate script_disk) ''a.xer'' = (result, err)" by force
  have ct: "CompileFromText NoIcu ''1'' [] = (result, err)"
    using c by (simp add: CompileFromFile_def ReadSourceFile_def file_system.defs script_disk_def)
  have n: "normalized_source result = ''1''"
    using CompileFromText_normalized [of NoIcu "''1''" "[]"] ct by (simp add: NormalizeSource_def strip_bom_def)
  have "case Lexer_Tokenize ''1'' of
      Ok ts \<Rightarrow> length ts = 2 \<and> length (ast_imports (compile_loop ts (empty_ast\<lparr>metadata := MakeObject\<rparr>))) = 0 \<and>
        length (ast_functions (compile_loop ts (empty_ast\<lparr>metadata := MakeObject\<rparr>))) = 0
    | _ \<Rightarrow> False" by code_simp
  then obtain ts where ts: "Lexer_Tokenize ''1'' = Ok ts" "length ts = 2"
      "ast_imports (compile_loop ts (empty_ast\<lparr>metadata := MakeObject\<rparr>)) = []"
      "ast_functions (compile_loop ts (empty_ast\<lparr>metadata := MakeObject\<rparr>)) = []"
    by (cases "Lexer_Tokenize ''1''") auto
  have tk: "Tokenize NoIcu ''1'' = (ts, [])" "NormalizeSource NoIcu ''1'' [] = (''1'', [])"
    by (simp_all add: Tokenize_def NormalizeSource_def strip_bom_def ts(1))
  have k: "counts_ok (Some result)"
  proof -
    have m: "ast_imports (set_metadata i q) = ast_imports q" "ast_functions (set_metadata i q) = ast_functions q" for i q
      by (simp_all add: set_metadata_def Let_def split: option.split)
    have "result = fst (CompileFromText NoIcu ''1'' [])" by (simp add: ct)
    moreover have "ts \<noteq> []" using ts(2) by auto
    ultimately show ?thesis using ts by (simp add: CompileFromText_def tk counts_ok_def Let_def m)
  qed
  have b: "Buffer_FromString ''1'' \<noteq> []" "length (Buffer_FromString ''1'') < 2 ^ 30"
    by (simp_all add: Buffer_FromString_def Js_FromString_def AppendString_def AppendBytes_def)
  obtain block where e: "EncodeInternal sample_host (Buffer_FromString ''1'') ''a.xer'' \<lparr>encryption_key = []\<rparr> (Some result) = Ok block"
      "length (bak_manifest block) \<le> length ''a.xer'' + 400"
    using EncodeInternal_total [OF b _ k, of "''a.xer''" "\<lparr>encryption_key = []\<rparr>" sample_host sample_host]
    by (auto simp: HasEncryption_def)
  have "Encode_Compile sample_host NoIcu script_disk ''a.xer'' \<lparr>encryption_key = []\<rparr> = Ok block"
    using e(1) c n x by (simp add: Encode_Compile_def)
  then have "EnsureProtectedArtifacts sample_host NoIcu script_disk sample_out ''a.xer'' Map.empty =
     ([''a.bin'' \<mapsto> bin_payload block, ''a.bak'' \<mapsto> bytes_of_string (bak_manifest block)], Ok ())"
    using x r by (simp add: EnsureProtectedArtifacts_def WriteArtifacts_def WriteTextFile_def sample_out_def path_append_def
        Let_def cctype_defs)
  moreover have "length (bak_manifest block) \<le> 405" using e(2) by simp
  ultimately show ?thesis by blast
qed

theorem protected_run_equals_source_run_witness:
  "\<exists>files' rt. Run sample_world 0 sample_host NoIcu script_disk sample_out ''a.xer'' Map.empty = (files', Ok rt) \<and>
     snd (Run sample_world 0 sample_host NoIcu script_disk sample_out ''a.bin'' files') = Ok rt"
proof -
  obtain block :: XerEncodedBlock where b: "EnsureProtectedArtifacts sample_host NoIcu script_disk sample_out ''a.xer'' Map.empty =
     ([''a.bin'' \<mapsto> bin_payload block, ''a.bak'' \<mapsto> bytes_of_string (bak_manifest block)], Ok ())"
     "length (bak_manifest block) \<le> 405"
    using sample_protect by blast
  define fs where "fs = [''a.bin'' \<mapsto> bin_payload block, ''a.bak'' \<mapsto> bytes_of_string (bak_manifest block)]"
  obtain rt where r: "run_source sample_world 0 ''1'' = Ok rt" using sample_run_source by blast
  have x: "path_extension ''a.xer'' = ''.xer''" "parent_path ''a.xer'' = []" "path_stem ''a.xer'' = ''a''"
      "path_append [] ''a.bin'' = ''a.bin''" "path_append [] ''a.bak'' = ''a.bak''"
    by (simp_all add: path_extension_def path_filename_def parent_path_def path_stem_def path_append_def Let_def)
  have nz: "Script_NormalizeSource NoIcu ''1'' = Ok ''1''" by (simp add: Script_NormalizeSource_def strip_bom_def)
  have s: "ReadRuntimeSource sample_host NoIcu (shadowed fs script_disk) ''a.xer'' = Ok ''1''"
    by (simp add: ReadRuntimeSource_def ReadWholeFile_def shadowed_def script_disk_def fs_def x cctype_defs nz del: ebind_eq_Ok)
  have run: "Run sample_world 0 sample_host NoIcu script_disk sample_out ''a.xer'' Map.empty = (fs, Ok rt)"
    by (simp add: Run_def script_disk_shadowed b(1) fs_def [symmetric] s r run_error_def del: ebind_eq_Ok)
  have "snd (Run sample_world 0 sample_host NoIcu script_disk sample_out
      (path_append (parent_path ''a.xer'') (path_stem ''a.xer'' @ ''.bin'')) fs) = Ok rt"
  proof (rule protected_run_equals_source_run [OF run, where src = "''1''"])
    show "read_text script_disk ''a.xer'' = string_of_bytes (content (shadowed Map.empty script_disk) ''a.xer'')"
      unfolding script_disk_shadowed by (simp add: script_disk_def)
    show "OpenSSL_contract sample_host sample_host" by (rule sample_host_ok)
    show "ResolveProtectionOptionsFromEnvironment (shadowed fs script_disk) =
        ResolveProtectionOptionsFromEnvironment (shadowed Map.empty script_disk)"
      by (simp add: ResolveProtectionOptionsFromEnvironment_def shadowed_def script_disk_def)
    show "length (the (fs (path_append (parent_path ''a.xer'') (path_stem ''a.xer'' @ ''.bak'')))) < 2 ^ 30"
      using b(2) by (simp add: x fs_def)
  qed (use nz in \<open>simp_all add: x cctype_defs script_disk_shadowed script_disk_def sample_host_def\<close>)
  then show ?thesis using run by (auto simp: x)
qed

end
