(* ===== verification/XerHelpers.thy ===== *)
theory XerHelpers
  imports JsBuffer
begin

text \<open>
  Small services around the script engine: the sandbox (\<open>xer/xer_sandbox.cc\<close>), template expansion
  (\<open>xer/xer_string.cc\<close>, with the \<open>StrReplaceAll\<close> of \<open>compat/absl\<close>), the sleep of \<open>xer/xer_async.cc\<close> and
  the text helpers of \<open>helper/string.cc\<close>. The file system's canonical paths, the current directory,
  libuv and Unicode normalisation are parameters.
\<close>

section \<open>Definitions\<close>

subsection \<open>Sandbox\<close>

record XerSandboxSettings =
  sb_enabled :: bool
  sb_root :: string
  sb_read_only :: bool

text \<open>\<open>None\<close> where \<open>weakly_canonical\<close> reports an error.\<close>

record path_host =
  weakly_canonical :: "string \<Rightarrow> string option"
  lexically_normal :: "string \<Rightarrow> string"
  current_path :: string

definition Sandbox_Canonicalize :: "path_host \<Rightarrow> string \<Rightarrow> string" where
  "Sandbox_Canonicalize host path = (case weakly_canonical host path of Some canonical \<Rightarrow> canonical | None \<Rightarrow> lexically_normal host path)"

definition sandbox_root :: "path_host \<Rightarrow> XerSandboxSettings \<Rightarrow> string" where
  "sandbox_root host cfg = (if sb_root cfg = [] then current_path host else sb_root cfg)"

definition CanRead :: "path_host \<Rightarrow> XerSandboxSettings \<Rightarrow> string \<Rightarrow> bool" where
  "CanRead host cfg path =
     (if \<not> sb_enabled cfg then True
      else
        let root = Sandbox_Canonicalize host (sandbox_root host cfg); target = Sandbox_Canonicalize host path
        in take (length root) target = root)"

definition CanWrite :: "path_host \<Rightarrow> XerSandboxSettings \<Rightarrow> string \<Rightarrow> bool" where
  "CanWrite host cfg path =
     (if \<not> sb_enabled cfg then True else if sb_read_only cfg then False else CanRead host cfg path)"

definition Sandbox_Describe :: "path_host \<Rightarrow> XerSandboxSettings \<Rightarrow> string" where
  "Sandbox_Describe host cfg =
     ''sandbox(enabled='' @ (if sb_enabled cfg then ''true'' else ''false'') @ '', root='' @ sandbox_root host cfg @
     '', read_only='' @ (if sb_read_only cfg then ''true'' else ''false'') @ '')''"

definition sandbox_from_params :: "path_host \<Rightarrow> bool \<Rightarrow> string \<Rightarrow> bool \<Rightarrow> XerSandboxSettings" where
  "sandbox_from_params host sandbox module_root dry_run =
     \<lparr>sb_enabled = sandbox, sb_root = (if module_root = [] then current_path host else module_root), sb_read_only = dry_run\<rparr>"

subsection \<open>Templates\<close>

function replace_all :: "string \<Rightarrow> string \<Rightarrow> string \<Rightarrow> string" where
  "replace_all needle replacement s =
     (if needle = [] \<or> s = [] then s
      else if take (length needle) s = needle then replacement @ replace_all needle replacement (drop (length needle) s)
      else hd s # replace_all needle replacement (tl s))"
  by pat_completeness auto
termination
  by (relation "measure (\<lambda>(n, r, s). length s)") (auto simp: neq_Nil_conv)

declare replace_all.simps [simp del]

definition StrReplaceAll :: "string \<Rightarrow> (string \<times> string) list \<Rightarrow> string" where
  "StrReplaceAll s replacements = fold (\<lambda>(needle, replacement). replace_all needle replacement) replacements s"

text \<open>The entries come in the iteration order of the hash map.\<close>

definition ExpandTemplate :: "string \<Rightarrow> (string \<times> string) list \<Rightarrow> string" where
  "ExpandTemplate format entries = StrReplaceAll format (map (\<lambda>(k, v). (''%'' @ k @ ''%'', v)) entries)"

subsection \<open>Sleep\<close>

text \<open>
  The parameter tells whether the loop of libuv could be set up. The loop then runs until the timer
  has fired. The second component is the error text: a null pointer stays null.
\<close>

definition Async_Sleep :: "bool \<Rightarrow> int \<Rightarrow> string option \<Rightarrow> bool \<times> string option" where
  "Async_Sleep loop_init_ok timeout_ms err =
     (if timeout_ms < 0 then (False, map_option (\<lambda>_. ''timeout_ms must be non-negative'') err)
      else if \<not> loop_init_ok then (False, map_option (\<lambda>_. ''uv_loop_init failed'') err)
      else (True, map_option (\<lambda>_. []) err))"

subsection \<open>Text helpers\<close>

definition String_NormalizeUtf8 :: "nfc \<Rightarrow> string \<Rightarrow> string" where
  "String_NormalizeUtf8 icu s = (case icu s of None \<Rightarrow> s | Some normalized \<Rightarrow> normalized)"

definition String_IsBlank :: "string \<Rightarrow> bool" where
  "String_IsBlank s \<longleftrightarrow> list_all c_isspace s"

definition TrimAsciiWhitespaceCopy :: "string \<Rightarrow> string" where
  "TrimAsciiWhitespaceCopy s = rev (dropWhile c_isspace (rev (dropWhile c_isspace s)))"

definition CanonicalizeToken :: "nfc \<Rightarrow> string \<Rightarrow> string" where
  "CanonicalizeToken icu s = map c_tolower (String_NormalizeUtf8 icu (TrimAsciiWhitespaceCopy s))"

definition DefaultString :: "nfc \<Rightarrow> string \<Rightarrow> string \<Rightarrow> string" where
  "DefaultString icu v fallback = (if String_IsBlank v then fallback else String_NormalizeUtf8 icu v)"

definition BuildKeyValueLine :: "nfc \<Rightarrow> string \<Rightarrow> string \<Rightarrow> string" where
  "BuildKeyValueLine icu k v = String_NormalizeUtf8 icu k @ ''='' @ String_NormalizeUtf8 icu v"

section \<open>Properties\<close>

lemma CanWrite_CanRead: "CanWrite host cfg path \<Longrightarrow> CanRead host cfg path"
  by (auto simp: CanWrite_def CanRead_def split: if_splits)

lemma read_only_denies: "sb_enabled cfg \<Longrightarrow> sb_read_only cfg \<Longrightarrow> \<not> CanWrite host cfg path"
  by (simp add: CanWrite_def)

text \<open>
  The prefix is compared as text: whatever continues the name of the root, such as a sibling
  directory, is inside the sandbox.
\<close>

lemma CanRead_sibling:
  assumes "weakly_canonical host (sandbox_root host cfg) = Some r" "weakly_canonical host (r @ suffix) = Some (r @ suffix)"
  shows "CanRead host cfg (r @ suffix)"
  using assms by (simp add: CanRead_def Sandbox_Canonicalize_def)

lemma replace_all_absent:
  assumes "CHR ''%'' \<notin> set s" "hd needle = CHR ''%''"
  shows "replace_all needle replacement s = s"
  using assms(1)
proof (induction s)
  case (Cons c cs)
  then have "take (length needle) (c # cs) \<noteq> needle \<or> needle = []" using assms(2) by (cases needle) auto
  with Cons show ?case by (subst replace_all.simps) auto
qed (simp add: replace_all.simps)

lemma ExpandTemplate_literal:
  assumes "CHR ''%'' \<notin> set format"
  shows "ExpandTemplate format entries = format"
  unfolding ExpandTemplate_def StrReplaceAll_def
  by (induction entries) (use assms in \<open>auto simp: replace_all_absent\<close>)

end
