(* ===== verification/FileDiff.thy ===== *)
theory FileDiff
  imports XER_Prelude "HOL-Library.Sublist"
begin

text \<open>
  The line difference of \<^verbatim>\<open>src/src/helper/file_diff.cc\<close>: a table of longest common subsequence
  lengths, filled from the ends of the two files, and the walk that reads added and removed lines
  off it. The table is the vector of vectors of the code; an index outside it is \<open>Undef\<close>.
\<close>

section \<open>Definitions\<close>

datatype FileDiffOperationType = Added | Removed

record FileDiffReturn =
  diff_before :: string
  diff_after :: string
  diff_equal :: bool
  added_lines :: "string list"
  removed_lines :: "string list"
  operations :: "(FileDiffOperationType \<times> string) list"
  added_count :: nat
  removed_count :: nat

fun split_loop :: "string \<Rightarrow> string list \<Rightarrow> string \<Rightarrow> string list \<times> string" where
  "split_loop [] out current = (out, current)"
| "split_loop (ch # cs) out current =
     (if ch = ch_newline then split_loop cs (out @ [current]) []
      else if ch \<noteq> ch_return then split_loop cs out (current @ [ch])
      else split_loop cs out current)"

definition Diff_SplitLines :: "string \<Rightarrow> string list" where
  "Diff_SplitLines s =
     (case split_loop s [] [] of (out, current) \<Rightarrow>
        if current \<noteq> [] \<or> (s \<noteq> [] \<and> last s = ch_newline) then out @ [current] else out)"

type_synonym lcs_table = "nat list list"

definition cell :: "lcs_table \<Rightarrow> nat \<Rightarrow> nat \<Rightarrow> (string, nat) exec" where
  "cell t i j = ebind (rd t i) (\<lambda>r. rd r j)"

definition set_cell :: "nat \<Rightarrow> nat \<Rightarrow> nat \<Rightarrow> lcs_table \<Rightarrow> (string, lcs_table) exec" where
  "set_cell i j v t = ebind (rd t i) (\<lambda>r. if j < length r then Ok (t[i := r[j := v]]) else Undef)"

text \<open>The loop body for the cell \<open>(i, j)\<close>, and the loops, which run downwards.\<close>

definition lcs_body :: "string list \<Rightarrow> string list \<Rightarrow> nat \<Rightarrow> nat \<Rightarrow> lcs_table \<Rightarrow> (string, lcs_table) exec" where
  "lcs_body left right i j t =
     ebind (rd left i) (\<lambda>x. ebind (rd right j) (\<lambda>y.
       if x = y then ebind (cell t (i + 1) (j + 1)) (\<lambda>v. set_cell i j (v + 1) t)
       else ebind (cell t (i + 1) j) (\<lambda>a. ebind (cell t i (j + 1)) (\<lambda>b. set_cell i j (max a b) t))))"

fun lcs_row :: "string list \<Rightarrow> string list \<Rightarrow> nat \<Rightarrow> nat \<Rightarrow> lcs_table \<Rightarrow> (string, lcs_table) exec" where
  "lcs_row left right i 0 t = Ok t"
| "lcs_row left right i (Suc j) t = ebind (lcs_body left right i j t) (lcs_row left right i j)"

fun lcs_rows :: "string list \<Rightarrow> string list \<Rightarrow> nat \<Rightarrow> lcs_table \<Rightarrow> (string, lcs_table) exec" where
  "lcs_rows left right 0 t = Ok t"
| "lcs_rows left right (Suc i) t = ebind (lcs_row left right i (length right) t) (lcs_rows left right i)"

text \<open>The walk: removed lines, added lines and operations.\<close>

type_synonym diff_acc = "string list \<times> string list \<times> (FileDiffOperationType \<times> string) list"

definition remove_line :: "string \<Rightarrow> diff_acc \<Rightarrow> diff_acc" where
  "remove_line x acc = (case acc of (r, a, ops) \<Rightarrow> (r @ [x], a, ops @ [(Removed, x)]))"

definition add_line :: "string \<Rightarrow> diff_acc \<Rightarrow> diff_acc" where
  "add_line y acc = (case acc of (r, a, ops) \<Rightarrow> (r, a @ [y], ops @ [(Added, y)]))"

function diff_walk :: "string list \<Rightarrow> string list \<Rightarrow> lcs_table \<Rightarrow> nat \<Rightarrow> nat \<Rightarrow> diff_acc \<Rightarrow> (string, diff_acc) exec" where
  "diff_walk left right t i j acc =
     (if i < length left \<and> j < length right then
        (if left ! i = right ! j then diff_walk left right t (i + 1) (j + 1) acc
         else ebind (cell t (i + 1) j) (\<lambda>a. ebind (cell t i (j + 1)) (\<lambda>b.
           if a \<ge> b then diff_walk left right t (i + 1) j (remove_line (left ! i) acc)
           else diff_walk left right t i (j + 1) (add_line (right ! j) acc))))
      else Ok (fold add_line (drop j right) (fold remove_line (drop i left) acc)))"
  by pat_completeness auto
termination
  by (relation "measure (\<lambda>(left, right, t, i, j, acc). (length left - i) + (length right - j))") auto

declare diff_walk.simps [simp del]

definition diff_lines :: "string list \<Rightarrow> string list \<Rightarrow> (string, diff_acc) exec" where
  "diff_lines left right =
     ebind (lcs_rows left right (length left) (replicate (length left + 1) (replicate (length right + 1) 0))) (\<lambda>t.
     diff_walk left right t 0 0 ([], [], []))"

definition FileDiff_new :: "string \<Rightarrow> string \<Rightarrow> (string, FileDiffReturn) exec" where
  "FileDiff_new before after =
     ebind (diff_lines (Diff_SplitLines before) (Diff_SplitLines after)) (\<lambda>(r, a, ops).
     Ok \<lparr>diff_before = before, diff_after = after, diff_equal = (before = after), added_lines = a, removed_lines = r,
         operations = ops, added_count = length a, removed_count = length r\<rparr>)"

section \<open>Longest common subsequences\<close>

fun lcs_len :: "'a list \<Rightarrow> 'a list \<Rightarrow> nat" where
  "lcs_len (x # xs) (y # ys) = (if x = y then Suc (lcs_len xs ys) else max (lcs_len xs (y # ys)) (lcs_len (x # xs) ys))"
| "lcs_len _ _ = 0"

lemma lcs_len_Nil [simp]: "lcs_len xs [] = 0"
  by (cases xs) auto

lemma lcs_len_upper: "subseq zs xs \<Longrightarrow> subseq zs ys \<Longrightarrow> length zs \<le> lcs_len xs ys"
proof (induction xs ys arbitrary: zs rule: lcs_len.induct)
  case (1 x xs y ys)
  show ?case
  proof (cases zs)
    case (Cons z zs')
    show ?thesis
    proof (cases "x = y")
      case True
      have "subseq zs' xs" "subseq zs' ys"
        using 1(4,5) Cons by (metis subseq_Cons2_iff subseq_Cons')+
      then show ?thesis using 1(1) [OF True] True Cons by simp
    next
      case False
      then consider "z \<noteq> x" | "z \<noteq> y" by auto
      then show ?thesis
      proof cases
        case 1
        then have "subseq zs xs" using "1.prems"(1) Cons by (metis subseq_Cons2_neq)
        then show ?thesis using "1.IH"(2) [OF False _ "1.prems"(2)] False by simp
      next
        case 2
        then have "subseq zs ys" using "1.prems"(2) Cons by (metis subseq_Cons2_neq)
        then show ?thesis using "1.IH"(3) [OF False "1.prems"(1)] False by simp
      qed
    qed
  qed simp
qed auto

section \<open>The table\<close>

text \<open>A table of the right shape is the graph of a function.\<close>

definition tabulate :: "nat \<Rightarrow> nat \<Rightarrow> (nat \<Rightarrow> nat \<Rightarrow> nat) \<Rightarrow> lcs_table" where
  "tabulate n m f = map (\<lambda>i. map (f i) [0..<Suc m]) [0..<Suc n]"

lemma cell_tabulate: "i \<le> n \<Longrightarrow> j \<le> m \<Longrightarrow> cell (tabulate n m f) i j = Ok (f i j)"
  by (simp add: cell_def tabulate_def del: upt_Suc)

lemma set_cell_tabulate:
  assumes "i \<le> n" "j \<le> m"
  shows "set_cell i j v (tabulate n m f) = Ok (tabulate n m (f(i := (f i)(j := v))))"
proof -
  have "(tabulate n m f)[i := (map (f i) [0..<Suc m])[j := v]] = tabulate n m (f(i := (f i)(j := v)))"
    unfolding tabulate_def
    by (rule nth_equalityI) (auto simp: nth_list_update intro!: nth_equalityI simp del: upt_Suc)
  then show ?thesis using assms by (simp add: set_cell_def tabulate_def del: upt_Suc)
qed

definition tail_lcs :: "string list \<Rightarrow> string list \<Rightarrow> nat \<Rightarrow> nat \<Rightarrow> nat" where
  "tail_lcs left right i j = lcs_len (drop i left) (drop j right)"

lemma tail_lcs_step:
  assumes "i < length left" "j < length right"
  shows "tail_lcs left right i j =
    (if left ! i = right ! j then tail_lcs left right (i + 1) (j + 1) + 1
     else max (tail_lcs left right (i + 1) j) (tail_lcs left right i (j + 1)))"
  using nth_append_drop [OF assms(1)] nth_append_drop [OF assms(2)] by (simp add: tail_lcs_def)

lemma tail_lcs_end: "length left \<le> i \<or> length right \<le> j \<Longrightarrow> tail_lcs left right i j = 0"
  by (auto simp: tail_lcs_def)

text \<open>The cells that are final when the loops have come down to \<open>(i, j)\<close>.\<close>

definition filled :: "string list \<Rightarrow> string list \<Rightarrow> nat \<Rightarrow> nat \<Rightarrow> (nat \<Rightarrow> nat \<Rightarrow> nat) \<Rightarrow> bool" where
  "filled left right i j f \<longleftrightarrow>
     (\<forall>a b. a \<le> length left \<longrightarrow> b \<le> length right \<longrightarrow> (i < a \<or> (a = i \<and> j \<le> b)) \<longrightarrow> f a b = tail_lcs left right a b) \<and>
     (\<forall>a. f a (length right) = 0)"

lemma filledD:
  "filled left right i j f \<Longrightarrow> a \<le> length left \<Longrightarrow> b \<le> length right \<Longrightarrow> i < a \<or> (a = i \<and> j \<le> b) \<Longrightarrow> f a b = tail_lcs left right a b"
  unfolding filled_def by blast

lemma lcs_body_filled:
  assumes "filled left right i (Suc j) f" "i < length left" "j < length right"
  shows "\<exists>f'. lcs_body left right i j (tabulate (length left) (length right) f) = Ok (tabulate (length left) (length right) f') \<and>
    filled left right i j f'"
proof -
  let ?n = "length left" and ?m = "length right" and ?v = "tail_lcs left right i j"
  have v: "f (i + 1) (j + 1) = tail_lcs left right (i + 1) (j + 1)" "f (i + 1) j = tail_lcs left right (i + 1) j"
    "f i (j + 1) = tail_lcs left right i (j + 1)"
    using assms by (auto intro!: filledD [OF assms(1)])
  have "lcs_body left right i j (tabulate ?n ?m f) = Ok (tabulate ?n ?m (f(i := (f i)(j := ?v))))"
    using assms(2,3) v tail_lcs_step [OF assms(2,3)]
    by (simp add: lcs_body_def cell_tabulate set_cell_tabulate del: ebind_eq_Ok)
  moreover have "filled left right i j (f(i := (f i)(j := ?v)))"
    using assms(1,3) unfolding filled_def by (auto simp: le_Suc_eq)
  ultimately show ?thesis by blast
qed

lemma lcs_row_filled:
  assumes "i < length left" "j \<le> length right" "filled left right i j f"
  shows "\<exists>f'. lcs_row left right i j (tabulate (length left) (length right) f) = Ok (tabulate (length left) (length right) f') \<and>
    filled left right i 0 f'"
  using assms(2,3)
proof (induction j arbitrary: f)
  case (Suc j)
  obtain f1 where "lcs_body left right i j (tabulate (length left) (length right) f) = Ok (tabulate (length left) (length right) f1)"
      "filled left right i j f1"
    using lcs_body_filled [OF Suc.prems(2) assms(1)] Suc.prems(1) by auto
  with Suc show ?case by (simp del: ebind_eq_Ok)
qed auto

lemma filled_next_row: "filled left right (Suc i) 0 f \<Longrightarrow> filled left right i (length right) f"
  unfolding filled_def by (auto simp: tail_lcs_end Suc_le_eq) (metis Suc_lessI le0)

lemma lcs_rows_filled:
  assumes "i \<le> length left" "filled left right i 0 f"
  shows "\<exists>f'. lcs_rows left right i (tabulate (length left) (length right) f) = Ok (tabulate (length left) (length right) f') \<and>
    filled left right 0 0 f'"
  using assms
proof (induction i arbitrary: f)
  case (Suc i)
  obtain f1 where "lcs_row left right i (length right) (tabulate (length left) (length right) f) = Ok (tabulate (length left) (length right) f1)"
      "filled left right i 0 f1"
    using lcs_row_filled [OF _ _ filled_next_row [OF Suc.prems(2)]] Suc.prems(1) by auto
  with Suc show ?case by (simp del: ebind_eq_Ok)
qed auto

lemma lcs_table_correct:
  "\<exists>f. lcs_rows left right (length left) (replicate (length left + 1) (replicate (length right + 1) 0)) =
      Ok (tabulate (length left) (length right) f) \<and> filled left right 0 0 f"
proof -
  have "replicate (length left + 1) (replicate (length right + 1) 0) = tabulate (length left) (length right) (\<lambda>_ _. 0)"
    by (rule nth_equalityI) (auto simp: tabulate_def map_replicate_const simp del: upt_Suc replicate_Suc)
  moreover have "filled left right (length left) 0 (\<lambda>_ _. 0)" by (auto simp: filled_def tail_lcs_end)
  ultimately show ?thesis using lcs_rows_filled [of "length left" left right "\<lambda>_ _. 0"] by simp
qed

section \<open>The walk\<close>

text \<open>
  What the walk owes for the rest of the files: common lines \<open>ks\<close>, as many as possible, that
  together with the removed lines make up the rest of the one file and with the added lines the
  rest of the other.
\<close>

definition diff_of :: "string list \<Rightarrow> string list \<Rightarrow> diff_acc \<Rightarrow> bool" where
  "diff_of xs ys acc \<longleftrightarrow>
     (case acc of (r, a, ops) \<Rightarrow>
        (\<exists>ks. length ks = lcs_len xs ys \<and> xs \<in> shuffles ks r \<and> ys \<in> shuffles ks a) \<and>
        map snd (filter (\<lambda>p. fst p = Removed) ops) = r \<and> map snd (filter (\<lambda>p. fst p = Added) ops) = a)"

definition acc_append :: "diff_acc \<Rightarrow> diff_acc \<Rightarrow> diff_acc" where
  "acc_append p q = (fst p @ fst q, fst (snd p) @ fst (snd q), snd (snd p) @ snd (snd q))"

lemma acc_append_steps:
  "acc_append (remove_line x acc) q = acc_append acc ([x] @ fst q, fst (snd q), (Removed, x) # snd (snd q))"
  "acc_append (add_line y acc) q = acc_append acc (fst q, [y] @ fst (snd q), (Added, y) # snd (snd q))"
  by (simp_all add: acc_append_def remove_line_def add_line_def split: prod.splits)

lemma fold_remove_line: "fold remove_line xs acc = acc_append acc (xs, [], map (Pair Removed) xs)"
  by (induction xs arbitrary: acc) (auto simp: acc_append_def remove_line_def split: prod.splits)

lemma fold_add_line: "fold add_line ys acc = acc_append acc ([], ys, map (Pair Added) ys)"
  by (induction ys arbitrary: acc) (auto simp: acc_append_def add_line_def split: prod.splits)

lemma diff_of_end: "xs = [] \<or> ys = [] \<Longrightarrow> diff_of xs ys (xs, ys, map (Pair Removed) xs @ map (Pair Added) ys)"
  by (auto simp: diff_of_def filter_map comp_def intro!: exI [of _ "[]"])

lemma diff_of_common: "diff_of xs ys q \<Longrightarrow> diff_of (x # xs) (x # ys) q"
  unfolding diff_of_def by (auto simp: Cons_in_shuffles_iff split: prod.splits) (metis length_Cons list.distinct(1) list.sel(1,3))

lemma diff_of_removed:
  "diff_of xs (y # ys) q \<Longrightarrow> x \<noteq> y \<Longrightarrow> lcs_len (x # xs) ys \<le> lcs_len xs (y # ys) \<Longrightarrow>
   diff_of (x # xs) (y # ys) ([x] @ fst q, fst (snd q), (Removed, x) # snd (snd q))"
  by (cases q) (auto simp: diff_of_def Cons_in_shuffles_iff max_def)

lemma diff_of_added:
  "diff_of (x # xs) ys q \<Longrightarrow> x \<noteq> y \<Longrightarrow> lcs_len xs (y # ys) < lcs_len (x # xs) ys \<Longrightarrow>
   diff_of (x # xs) (y # ys) (fst q, [y] @ fst (snd q), (Added, y) # snd (snd q))"
  by (cases q) (auto simp: diff_of_def Cons_in_shuffles_iff max_def)

lemma diff_walk_correct:
  assumes "filled left right 0 0 f" "i \<le> length left" "j \<le> length right"
  shows "\<exists>q. diff_walk left right (tabulate (length left) (length right) f) i j acc = Ok (acc_append acc q) \<and>
    diff_of (drop i left) (drop j right) q"
  using assms(2,3)
proof (induction "(length left - i) + (length right - j)" arbitrary: i j acc rule: less_induct)
  case less
  let ?t = "tabulate (length left) (length right) f"
  show ?case
  proof (cases "i < length left \<and> j < length right")
    case True
    then have i: "i < length left" "Suc i \<le> length left" and j: "j < length right" "Suc j \<le> length right" by simp_all
    note d = nth_append_drop [OF i(1)] nth_append_drop [OF j(1)]
    have c: "cell ?t (i + 1) j = Ok (lcs_len (drop (Suc i) left) (drop j right))"
      "cell ?t i (j + 1) = Ok (lcs_len (drop i left) (drop (Suc j) right))"
      using i j filledD [OF assms(1), of "Suc i" j] filledD [OF assms(1), of i "Suc j"] by (auto simp: cell_tabulate tail_lcs_def)
    consider "left ! i = right ! j"
      | "left ! i \<noteq> right ! j" "lcs_len (drop i left) (drop (Suc j) right) \<le> lcs_len (drop (Suc i) left) (drop j right)"
      | "left ! i \<noteq> right ! j" "lcs_len (drop (Suc i) left) (drop j right) < lcs_len (drop i left) (drop (Suc j) right)"
      by linarith
    then show ?thesis
    proof cases
      case 1
      have "(length left - Suc i) + (length right - Suc j) < (length left - i) + (length right - j)" using i j by linarith
      then obtain q where "diff_walk left right ?t (Suc i) (Suc j) acc = Ok (acc_append acc q)"
          "diff_of (drop (Suc i) left) (drop (Suc j) right) q"
        using less.hyps [of "Suc i" "Suc j" acc] i j by blast
      with 1 True diff_of_common [of "drop (Suc i) left" "drop (Suc j) right" q "left ! i"] d show ?thesis
        by (subst diff_walk.simps) (intro exI [of _ q], simp)
    next
      case 2
      have "(length left - Suc i) + (length right - j) < (length left - i) + (length right - j)" using i j by linarith
      then obtain q where "diff_walk left right ?t (Suc i) j (remove_line (left ! i) acc) = Ok (acc_append (remove_line (left ! i) acc) q)"
          "diff_of (drop (Suc i) left) (drop j right) q"
        using less.hyps [of "Suc i" j "remove_line (left ! i) acc"] i less.prems(2) by blast
      with 2 True c d diff_of_removed [of "drop (Suc i) left" "right ! j" "drop (Suc j) right" q "left ! i"] show ?thesis
        by (subst diff_walk.simps)
          (intro exI [of _ "([left ! i] @ fst q, fst (snd q), (Removed, left ! i) # snd (snd q))"], simp add: acc_append_steps del: ebind_eq_Ok)
    next
      case 3
      have "(length left - i) + (length right - Suc j) < (length left - i) + (length right - j)" using i j by linarith
      then obtain q where "diff_walk left right ?t i (Suc j) (add_line (right ! j) acc) = Ok (acc_append (add_line (right ! j) acc) q)"
          "diff_of (drop i left) (drop (Suc j) right) q"
        using less.hyps [of i "Suc j" "add_line (right ! j) acc"] j less.prems(1) by blast
      with 3 True c d diff_of_added [of "left ! i" "drop (Suc i) left" "drop (Suc j) right" q "right ! j"] show ?thesis
        by (subst diff_walk.simps)
          (intro exI [of _ "(fst q, [right ! j] @ fst (snd q), (Added, right ! j) # snd (snd q))"], simp add: acc_append_steps del: ebind_eq_Ok)
    qed
  next
    case False
    then have "drop i left = [] \<or> drop j right = []" by auto
    from diff_of_end [OF this] False show ?thesis
      by (subst diff_walk.simps) (auto simp: fold_remove_line fold_add_line acc_append_def simp del: ebind_eq_Ok)
  qed
qed

lemma diff_lines_correct: "\<exists>q. diff_lines left right = Ok q \<and> diff_of left right q"
proof -
  obtain f where f: "lcs_rows left right (length left) (replicate (length left + 1) (replicate (length right + 1) 0)) =
      Ok (tabulate (length left) (length right) f)" "filled left right 0 0 f"
    using lcs_table_correct by blast
  obtain q where "diff_walk left right (tabulate (length left) (length right) f) 0 0 ([], [], []) = Ok (acc_append ([], [], []) q)"
      "diff_of left right q"
    using diff_walk_correct [OF f(2), of 0 0 "([], [], [])"] by auto
  with f(1) show ?thesis by (simp add: diff_lines_def acc_append_def del: ebind_eq_Ok)
qed

lemma shuffles_subseq: "xs \<in> shuffles ks r \<Longrightarrow> subseq ks xs"
proof (induction xs arbitrary: ks r)
  case (Cons x xs)
  then show ?case unfolding Cons_in_shuffles_iff by (metis list.collapse subseq_Cons2 list_emb_Cons)
qed simp

lemma common_Max:
  assumes "length ks = lcs_len xs ys" "xs \<in> shuffles ks r" "ys \<in> shuffles ks a"
  shows "length ks = Max (length ` {zs. subseq zs xs \<and> subseq zs ys})"
proof (rule Max_eqI [symmetric])
  have "{zs. subseq zs xs \<and> subseq zs ys} \<subseteq> set (subseqs xs)" by auto
  then show "finite (length ` {zs. subseq zs xs \<and> subseq zs ys})" using finite_subset by blast
  show "length ks \<in> length ` {zs. subseq zs xs \<and> subseq zs ys}" using assms(2,3) shuffles_subseq by blast
qed (use assms(1) lcs_len_upper in auto)

text \<open>
  C16. The difference of two files is correct and minimal: the comparison never leaves its table;
  there are common lines, no common subsequence being longer, that together with the removed lines
  make up the old file and with the added lines the new one; the operations list exactly these
  lines in order, and the counts are theirs.
\<close>

theorem FileDiff_minimal:
  "\<exists>d ks. FileDiff_new before after = Ok d \<and>
     Diff_SplitLines before \<in> shuffles ks (removed_lines d) \<and> Diff_SplitLines after \<in> shuffles ks (added_lines d) \<and>
     length ks = Max (length ` {zs. subseq zs (Diff_SplitLines before) \<and> subseq zs (Diff_SplitLines after)}) \<and>
     map snd (filter (\<lambda>p. fst p = Removed) (operations d)) = removed_lines d \<and>
     map snd (filter (\<lambda>p. fst p = Added) (operations d)) = added_lines d \<and>
     removed_count d = length (removed_lines d) \<and> added_count d = length (added_lines d) \<and>
     diff_equal d = (before = after)"
proof -
  obtain r a ops where q: "diff_lines (Diff_SplitLines before) (Diff_SplitLines after) = Ok (r, a, ops)"
      "diff_of (Diff_SplitLines before) (Diff_SplitLines after) (r, a, ops)"
    using diff_lines_correct by (metis prod_cases3)
  then obtain ks where "length ks = lcs_len (Diff_SplitLines before) (Diff_SplitLines after)"
      "Diff_SplitLines before \<in> shuffles ks r" "Diff_SplitLines after \<in> shuffles ks a"
    by (auto simp: diff_of_def)
  with q common_Max [of ks "Diff_SplitLines before" "Diff_SplitLines after" r a] show ?thesis
    by (intro exI [of _ ks] exI) (auto simp: FileDiff_new_def diff_of_def simp del: ebind_eq_Ok)
qed

lemma shuffles_all_common: "xs \<in> shuffles ks r \<Longrightarrow> length ks = length xs \<Longrightarrow> r = []"
  using length_shuffles [of xs ks r] by simp

lemma lcs_len_self: "lcs_len xs xs = length xs"
  by (induction xs) auto

text \<open>Files with the same lines have no difference, even where their texts differ in carriage returns.\<close>

lemma FileDiff_same_lines:
  assumes "Diff_SplitLines before = Diff_SplitLines after"
  shows "\<exists>d. FileDiff_new before after = Ok d \<and> removed_lines d = [] \<and> added_lines d = [] \<and> operations d = []"
proof -
  obtain r a ops where q: "diff_lines (Diff_SplitLines before) (Diff_SplitLines after) = Ok (r, a, ops)"
      "diff_of (Diff_SplitLines before) (Diff_SplitLines after) (r, a, ops)"
    using diff_lines_correct by (metis prod_cases3)
  with assms shuffles_all_common have e: "r = []" "a = []" by (auto simp: diff_of_def lcs_len_self)
  with q(2) have "p \<notin> set ops" for p by (cases p; cases "fst p") (auto simp: diff_of_def filter_empty_conv)
  then have "ops = []" by (cases ops) auto
  with q(1) e show ?thesis by (simp add: FileDiff_new_def del: ebind_eq_Ok)
qed

end
