(* ===== verification/NetworkFraming.thy ===== *)
theory NetworkFraming
  imports XerBinary
begin

text \<open>
  The wire formats of \<^verbatim>\<open>src/src/content/network\<close>: WebSocket frames (\<open>websocket_frame.cc\<close>) and
  SPDY frames (\<open>spdy_framer.cc\<close>). A decoder takes the bytes it was given and the frame object it
  fills in, and returns the number of bytes consumed (0 for an incomplete frame) with the object as
  it is left. \<open>size_t\<close> has 64 bits; a read outside the given bytes is \<open>Undef\<close>.
\<close>

section \<open>WebSocket frames\<close>

definition kContinuation :: byte where "kContinuation = 0"
definition kText :: byte where "kText = 1"
definition kBinary :: byte where "kBinary = 2"
definition kClose :: byte where "kClose = 8"
definition kPingOp :: byte where "kPingOp = 9"
definition kPong :: byte where "kPong = 10"

text \<open>The opcode is an enumeration over \<open>uint8_t\<close>; a decoded one may be any value below 16.\<close>

record WebSocketFrame =
  ws_fin :: bool
  ws_masked :: bool
  ws_opcode :: byte
  ws_payload :: bytes

definition new_frame :: WebSocketFrame where
  "new_frame = \<lparr>ws_fin = True, ws_masked = False, ws_opcode = kText, ws_payload = []\<rparr>"

text \<open>The payload XORed with the key, as both directions do it.\<close>

definition mask_payload :: "bytes \<Rightarrow> bytes \<Rightarrow> bytes" where
  "mask_payload mkey payload = map (\<lambda>i. payload ! i XOR mkey ! (i mod 4)) [0..<length payload]"

definition length_field :: "byte \<Rightarrow> nat \<Rightarrow> bytes" where
  "length_field mask_bit plen =
     (let n = of_nat plen :: u64 in
      if plen < 126 then [mask_bit OR ucast n]
      else if plen < 65536 then [mask_bit OR 126, ucast (drop_bit 8 n), ucast n]
      else (mask_bit OR 127) # map (\<lambda>i. ucast (drop_bit (8 * i) n)) (rev [0..<8]))"

definition EncodeFrame :: "u32 \<Rightarrow> WebSocketFrame \<Rightarrow> bytes" where
  "EncodeFrame random_mask frame =
     ((if ws_fin frame then 0x80 else 0) OR ws_opcode frame) #
     length_field (if ws_masked frame then 0x80 else 0) (length (ws_payload frame)) @
     (if ws_masked frame
      then (let mkey = le_bytes 4 random_mask in mkey @ mask_payload mkey (ws_payload frame))
      else ws_payload frame)"

text \<open>
  From the header on. The total is a \<open>size_t\<close> sum. A vector cannot be resized beyond 2^63 - 1
  bytes (\<open>std::length_error\<close>); a range whose end lies outside the buffer is undefined.
\<close>

definition decode_payload :: "bytes \<Rightarrow> WebSocketFrame \<Rightarrow> nat \<Rightarrow> u64 \<Rightarrow> (string, nat \<times> WebSocketFrame) exec" where
  "decode_payload data frame hdr plen =
     (let total = of_nat hdr + (if ws_masked frame then 4 else 0) + plen :: u64 in
      if length data < unat total then Ok (0, frame)
      else if ws_masked frame then
        (if unat plen \<ge> 2 ^ 63 then Fail ''length_error''
         else ebind (mem_read hdr 4 data) (\<lambda>mkey.
              ebind (mem_read (hdr + 4) (unat plen) data) (\<lambda>payload.
              Ok (unat total, frame\<lparr>ws_payload := mask_payload mkey payload\<rparr>))))
      else ebind (mem_read hdr (unat plen) data) (\<lambda>payload.
           Ok (unat total, frame\<lparr>ws_payload := payload\<rparr>)))"

definition DecodeFrame :: "bytes \<Rightarrow> WebSocketFrame \<Rightarrow> (string, nat \<times> WebSocketFrame) exec" where
  "DecodeFrame data frame =
     (if length data < 2 then Ok (0, frame)
      else
        let frame = frame\<lparr>ws_fin := data ! 0 AND 0x80 \<noteq> 0, ws_opcode := data ! 0 AND 0x0F,
              ws_masked := data ! 1 AND 0x80 \<noteq> 0\<rparr>;
            plen = ucast (data ! 1 AND 0x7F) :: u64
        in if plen = 126 then
             (if length data < 4 then Ok (0, frame)
              else decode_payload data frame 4 (push_bit 8 (ucast (data ! 2)) OR ucast (data ! 3)))
           else if plen = 127 then
             (if length data < 10 then Ok (0, frame)
              else decode_payload data frame 10
                (foldl (\<lambda>p b. push_bit 8 p OR ucast b) 0 (take 8 (drop 2 data))))
           else decode_payload data frame 2 plen)"

definition MakeCloseFrame :: "u16 \<Rightarrow> string \<Rightarrow> WebSocketFrame" where
  "MakeCloseFrame c reason =
     new_frame\<lparr>ws_opcode := kClose, ws_payload := [ucast (drop_bit 8 c), ucast c] @ bytes_of_string reason\<rparr>"

section \<open>SPDY frames\<close>

datatype SpdyFrameType =
  kData | kSynStream | kSynReply | kRstStream | kSettings | kPing | kGoAway | kHeaders | kWindowUpdate

record SpdyFrame =
  spdy_type :: SpdyFrameType
  spdy_control :: bool
  stream_id :: u32
  spdy_fin :: bool
  spdy_data :: bytes
  spdy_headers :: "string \<rightharpoonup> string"

text \<open>Big-endian reads; \<open>ReadU32StreamId\<close> drops the top bit.\<close>

definition be32 :: "byte \<Rightarrow> byte \<Rightarrow> byte \<Rightarrow> byte \<Rightarrow> u32" where
  "be32 a b c d = push_bit 24 (ucast a) OR push_bit 16 (ucast b) OR push_bit 8 (ucast c) OR ucast d"

definition ReadU32 :: "bytes \<Rightarrow> nat \<Rightarrow> (string, u32) exec" where
  "ReadU32 buf p = ebind (mem_read p 4 buf) (\<lambda>bs. Ok (be32 (bs ! 0) (bs ! 1) (bs ! 2) (bs ! 3)))"

definition ReadU32StreamId :: "bytes \<Rightarrow> nat \<Rightarrow> (string, u32) exec" where
  "ReadU32StreamId buf p = ebind (mem_read p 4 buf) (\<lambda>bs. Ok (be32 (bs ! 0 AND 0x7F) (bs ! 1) (bs ! 2) (bs ! 3)))"

definition length24 :: "bytes \<Rightarrow> u32" where
  "length24 buf = push_bit 16 (ucast (buf ! 5)) OR push_bit 8 (ucast (buf ! 6)) OR ucast (buf ! 7)"

definition put_u32 :: "u32 \<Rightarrow> bytes" where
  "put_u32 w = [ucast (drop_bit 24 w), ucast (drop_bit 16 w), ucast (drop_bit 8 w), ucast w]"

text \<open>
  The payload of a control frame that carries a stream identifier and headers from offset \<open>skip\<close>
  on (\<open>SYN_STREAM\<close>, \<open>SYN_REPLY\<close>, \<open>HEADERS\<close>), and one that carries a stream identifier and a word
  (\<open>RST_STREAM\<close>, \<open>GOAWAY\<close>, \<open>WINDOW_UPDATE\<close>).
\<close>

definition stream_headers :: "nat \<Rightarrow> nat \<Rightarrow> bytes \<Rightarrow> SpdyFrame \<Rightarrow> (string, SpdyFrame) exec" where
  "stream_headers skip payload_len buf out =
     (if payload_len < skip then Ok out
      else ebind (ReadU32StreamId buf 8) (\<lambda>sid.
        if payload_len > skip
        then ebind (mem_read (8 + skip) (payload_len - skip) buf) (\<lambda>bs. Ok (out\<lparr>stream_id := sid, spdy_data := bs\<rparr>))
        else Ok (out\<lparr>stream_id := sid\<rparr>)))"

definition stream_word :: "u32 \<Rightarrow> nat \<Rightarrow> bytes \<Rightarrow> SpdyFrame \<Rightarrow> (string, SpdyFrame) exec" where
  "stream_word keep payload_len buf out =
     (if payload_len < 8 then Ok out
      else ebind (ReadU32StreamId buf 8) (\<lambda>sid.
           ebind (ReadU32 buf 12) (\<lambda>w.
           Ok (out\<lparr>stream_id := sid, spdy_data := put_u32 (w AND keep)\<rparr>))))"

definition raw_payload :: "nat \<Rightarrow> bytes \<Rightarrow> SpdyFrame \<Rightarrow> (string, SpdyFrame) exec" where
  "raw_payload payload_len buf out =
     (if payload_len > 0 then ebind (mem_read 8 payload_len buf) (\<lambda>bs. Ok (out\<lparr>spdy_data := bs\<rparr>)) else Ok out)"

definition control_payload :: "u16 \<Rightarrow> nat \<Rightarrow> bytes \<Rightarrow> SpdyFrame \<Rightarrow> (string, SpdyFrame) exec" where
  "control_payload frame_type payload_len buf out =
     (if frame_type = 1 then stream_headers 10 payload_len buf (out\<lparr>spdy_type := kSynStream\<rparr>)
      else if frame_type = 2 then stream_headers 6 payload_len buf (out\<lparr>spdy_type := kSynReply\<rparr>)
      else if frame_type = 3 then stream_word 0xFFFFFFFF payload_len buf (out\<lparr>spdy_type := kRstStream\<rparr>)
      else if frame_type = 4 then raw_payload payload_len buf (out\<lparr>spdy_type := kSettings\<rparr>)
      else if frame_type = 6 then
        (if payload_len < 4 then Ok (out\<lparr>spdy_type := kPing\<rparr>)
         else ebind (ReadU32 buf 8) (\<lambda>ident. Ok (out\<lparr>spdy_type := kPing, stream_id := ident\<rparr>)))
      else if frame_type = 7 then stream_word 0xFFFFFFFF payload_len buf (out\<lparr>spdy_type := kGoAway\<rparr>)
      else if frame_type = 8 then stream_headers 6 payload_len buf (out\<lparr>spdy_type := kHeaders\<rparr>)
      else if frame_type = 9 then stream_word 0x7FFFFFFF payload_len buf (out\<lparr>spdy_type := kWindowUpdate\<rparr>)
      else raw_payload payload_len buf (out\<lparr>spdy_type := kData\<rparr>))"

definition ParseControlFrame :: "bytes \<Rightarrow> SpdyFrame \<Rightarrow> (string, nat \<times> SpdyFrame) exec" where
  "ParseControlFrame buf out =
     (if length buf < 8 then Undef
      else
        let frame_type = push_bit 8 (ucast (buf ! 2)) OR ucast (buf ! 3) :: u16;
            payload_len = unat (length24 buf)
        in if length buf < 8 + payload_len then Ok (0, out)
           else ebind (control_payload frame_type payload_len buf
                        (out\<lparr>spdy_control := True, spdy_fin := buf ! 4 AND 1 \<noteq> 0\<rparr>)) (\<lambda>out'.
                Ok (8 + payload_len, out')))"

definition SerializeSpdyFrame :: "SpdyFrame \<Rightarrow> bytes" where
  "SerializeSpdyFrame frame =
     (if spdy_control frame then []
      else
        let sid = stream_id frame AND 0x7FFFFFFF; len = of_nat (length (spdy_data frame)) :: u32
        in put_u32 sid @ [if spdy_fin frame then 1 else 0] @
           [ucast (drop_bit 16 len), ucast (drop_bit 8 len), ucast len] @ spdy_data frame)"

definition ParseSpdyFrame :: "bytes \<Rightarrow> SpdyFrame option \<Rightarrow> (string, nat \<times> SpdyFrame option) exec" where
  "ParseSpdyFrame buf target =
     (case target of
        None \<Rightarrow> Ok (0, None)
      | Some out \<Rightarrow>
          if length buf < 8 then Ok (0, Some out)
          else if buf ! 0 AND 0x80 = 0 then
            ebind (ReadU32StreamId buf 0) (\<lambda>sid.
            let out' = out\<lparr>spdy_control := False, spdy_type := kData, stream_id := sid, spdy_fin := buf ! 4 AND 1 \<noteq> 0\<rparr>;
                plen = unat (length24 buf)
            in if length buf < 8 + plen then Ok (0, Some out')
               else ebind (mem_read 8 plen buf) (\<lambda>bs. Ok (8 + plen, Some (out'\<lparr>spdy_data := bs\<rparr>))))
          else map_exec (\<lambda>(n, out'). (n, Some out')) (ParseControlFrame buf (out\<lparr>spdy_control := True\<rparr>)))"

section \<open>WebSocket round trip\<close>

lemma be_fold: "foldl (\<lambda>p b. push_bit 8 p OR ucast b) (0 :: 'a::len word) bs = le_word (rev bs)"
  by (induction bs rule: rev_induct) (simp_all add: or.commute)

lemma be_bytes: "map (\<lambda>i. ucast (drop_bit (8 * i) n)) (rev [0..<k]) = rev (le_bytes k n)"
proof -
  have "le_bytes k n = map (\<lambda>i. ucast (drop_bit (8 * i) n)) [0..<k]"
    by (rule nth_equalityI) (simp_all add: nth_le_bytes)
  then show ?thesis by (simp add: rev_map)
qed

lemma length_mask [simp]: "length (mask_payload k p) = length p"
  by (simp add: mask_payload_def)

lemma mask_mask [simp]: "mask_payload k (mask_payload k p) = p"
  by (rule nth_equalityI) (simp_all add: mask_payload_def xor.assoc)

lemma low_bits:
  fixes x :: byte
  assumes "x AND 0x7F = x"
  shows "((if b then 0x80 else 0) OR x) AND 0x7F = x" "(((if b then 0x80 else 0) OR x) AND 0x80 \<noteq> 0) = b"
proof -
  have z: "x AND 0x80 = 0"
  proof -
    have "x AND 0x80 = (x AND 0x7F) AND 0x80" using assms by simp
    also have "\<dots> = 0" by (simp add: and.assoc)
    finally show ?thesis .
  qed
  show "((if b then 0x80 else 0) OR x) AND 0x7F = x"
    using assms by (simp add: bit.conj_disj_distrib2)
  show "(((if b then 0x80 else 0) OR x) AND 0x80 \<noteq> 0) = b"
    using z by (simp add: bit.conj_disj_distrib2)
qed

lemma opcode_bits:
  fixes x :: byte
  assumes "x AND 0x0F = x"
  shows "((if b then 0x80 else 0) OR x) AND 0x0F = x" "(((if b then 0x80 else 0) OR x) AND 0x80 \<noteq> 0) = b"
proof -
  have "(x AND 0x0F) AND 0x7F = x AND 0x0F" by (simp add: and.assoc)
  then have "x AND 0x7F = x" unfolding assms .
  then show "(((if b then 0x80 else 0) OR x) AND 0x80 \<noteq> 0) = b" by (rule low_bits)
  show "((if b then 0x80 else 0) OR x) AND 0x0F = x"
    using assms by (simp add: bit.conj_disj_distrib2)
qed

text \<open>The body after a header of \<open>hdr\<close> bytes.\<close>

lemma decode_payload_body:
  assumes h: "length pre = hdr" "hdr \<le> 10" and p: "length payload < 2 ^ 62" "unat plen = length payload"
    and k: "length mkey = 4"
  shows "decode_payload (pre @ (if ws_masked frame then mkey @ mask_payload mkey payload else payload) @ rest) frame hdr plen =
    Ok (hdr + (if ws_masked frame then 4 else 0) + length payload, frame\<lparr>ws_payload := payload\<rparr>)"
proof -
  have u: "unat (of_nat hdr + (if ws_masked frame then 4 else 0) + plen :: u64) = hdr + (if ws_masked frame then 4 else 0) + length payload"
  proof -
    have "plen = of_nat (length payload)" by (simp flip: p(2))
    then have "of_nat hdr + (if ws_masked frame then 4 else 0) + plen = (of_nat (hdr + (if ws_masked frame then 4 else 0) + length payload) :: u64)"
      by simp
    moreover have "unat (of_nat (hdr + (if ws_masked frame then 4 else 0) + length payload) :: u64) = hdr + (if ws_masked frame then 4 else 0) + length payload"
      using h p by (subst unat_of_nat) (rule mod_less, simp)
    ultimately show ?thesis by (simp only:)
  qed
  show ?thesis unfolding decode_payload_def Let_def u using h p k
    by (auto simp: mem_read_def)
qed

lemma ucast_of_nat_byte: "n < 256 \<Longrightarrow> ucast (ucast (of_nat n :: u64) :: byte) = (of_nat n :: u64)"
  by (simp add: unsigned_ucast_eq unsigned_of_nat take_bit_nat_eq_self)


lemma short_length:
  assumes "n < 126"
  shows "ucast (of_nat n :: u64) AND (0x7F :: byte) = ucast (of_nat n :: u64)"
    "ucast (ucast (of_nat n :: u64) :: byte) = (of_nat n :: u64)"
proof -
  define l :: byte where "l = ucast (of_nat n :: u64)"
  have "unat l = n" unfolding l_def using assms by (simp add: unsigned_ucast_eq unsigned_of_nat take_bit_nat_eq_self)
  then have "take_bit 7 l = l" using assms by (simp add: word_unat_eq_iff unsigned_take_bit_eq take_bit_nat_eq_self)
  then have "l AND mask 7 = l" by (simp only: take_bit_eq_mask)
  then show "ucast (of_nat n :: u64) AND (0x7F :: byte) = ucast (of_nat n :: u64)"
    by (simp add: mask_eq_exp_minus_1 l_def)
  show "ucast (ucast (of_nat n :: u64) :: byte) = (of_nat n :: u64)" using assms by (simp add: ucast_of_nat_byte)
qed

lemma word16_split: "n < 65536 \<Longrightarrow>
  push_bit 8 (ucast (ucast (drop_bit 8 (of_nat n :: u64)) :: byte)) OR ucast (ucast (of_nat n :: u64) :: byte) = (of_nat n :: u64)"
proof (rule bit_word_eqI)
  fix i assume n: "n < 65536" and "i < LENGTH(64)"
  then have i: "i < 64" by simp
  have "i < 16" if "bit n i"
  proof (rule ccontr)
    assume "\<not> i < 16"
    then have "n < 2 ^ i" using n power_increasing [of 16 i "2::nat"] by simp
    then show False using that by (simp add: bit_iff_odd)
  qed
  then show "bit (push_bit 8 (ucast (ucast (drop_bit 8 (of_nat n :: u64)) :: byte)) OR ucast (ucast (of_nat n :: u64) :: byte) :: u64) i =
      bit (of_nat n :: u64) i"
    using i by (auto simp: bit_simps dest: less_diff_conv [THEN iffD2])
qed

text \<open>
  C11. Round trip of WebSocket frames, masked or not, whatever the mask key and whatever follows on
  the stream: decoding the encoding consumes exactly its bytes and restores the frame.
\<close>

theorem DecodeFrame_EncodeFrame:
  assumes "ws_opcode f AND 0x0F = ws_opcode f" "length (ws_payload f) < 2 ^ 62"
  shows "DecodeFrame (EncodeFrame mk f @ rest) g = Ok (length (EncodeFrame mk f), f)"
proof -
  let ?m = "if ws_masked f then 0x80 else 0 :: byte" and ?b0 = "(if ws_fin f then 0x80 else 0) OR ws_opcode f"
  let ?n = "length (ws_payload f)" and ?k = "le_bytes 4 mk"
  let ?body = "if ws_masked f then ?k @ mask_payload ?k (ws_payload f) else ws_payload f"
  let ?g = "g\<lparr>ws_fin := ws_fin f, ws_opcode := ws_opcode f, ws_masked := ws_masked f\<rparr>"
  have enc: "EncodeFrame mk f = ?b0 # length_field ?m ?n @ ?body" by (simp add: EncodeFrame_def Let_def)
  have fin: "?g\<lparr>ws_payload := ws_payload f\<rparr> = f" by (cases f; cases g) simp
  have lb: "length ?body = (if ws_masked f then 4 else 0) + ?n" by simp
  have body: "decode_payload (pre @ ?body @ rest) ?g hdr plen = Ok (hdr + length ?body, f)"
    if "length pre = hdr" "hdr \<le> 10" "unat plen = ?n" for pre hdr plen
    using decode_payload_body [OF that(1,2) assms(2) that(3), of ?k ?g rest] fin by simp
  note o = opcode_bits [OF assms(1), of "ws_fin f"]
  consider "?n < 126" | "126 \<le> ?n" "?n < 65536" | "65536 \<le> ?n" by linarith
  then show ?thesis
  proof cases
    case 1
    define l :: byte where "l = ucast (of_nat ?n :: u64)"
    have l: "l AND 0x7F = l" "ucast l = (of_nat ?n :: u64)" unfolding l_def using 1 by (simp_all only: short_length)
    have "(of_nat ?n :: u64) \<noteq> 126" "(of_nat ?n :: u64) \<noteq> 127"
      using 1 by (auto simp: word_unat_eq_iff unsigned_of_nat take_bit_nat_eq_self)
    moreover have "EncodeFrame mk f = [?b0, ?m OR l] @ ?body" using 1 by (simp add: enc length_field_def l_def Let_def)
    moreover have "unat (of_nat ?n :: u64) = ?n" using 1 by (simp add: unsigned_of_nat take_bit_nat_eq_self)
    ultimately show ?thesis
      using body [of "[?b0, ?m OR l]" 2 "of_nat ?n"] low_bits [OF l(1), of "ws_masked f"] o l(2)
      by (simp add: DecodeFrame_def Let_def)
  next
    case 2
    let ?hi = "ucast (drop_bit 8 (of_nat ?n :: u64)) :: byte" and ?lo = "ucast (of_nat ?n :: u64) :: byte"
    have "EncodeFrame mk f = [?b0, ?m OR 126, ?hi, ?lo] @ ?body" using 2 by (simp add: enc length_field_def Let_def)
    moreover have "unat (of_nat ?n :: u64) = ?n" using 2 by (simp add: unsigned_of_nat take_bit_nat_eq_self)
    ultimately show ?thesis
      using body [of "[?b0, ?m OR 126, ?hi, ?lo]" 4 "of_nat ?n"] low_bits [of 126 "ws_masked f"] o word16_split [OF 2(2)]
      by (simp add: DecodeFrame_def Let_def)
  next
    case 3
    let ?l = "rev (le_bytes 8 (of_nat ?n :: u64))"
    have "EncodeFrame mk f = (?b0 # (?m OR 127) # ?l) @ ?body"
      using 3 be_bytes [of "of_nat ?n :: u64" 8] by (simp add: enc length_field_def Let_def)
    moreover have "unat (of_nat ?n :: u64) = ?n" using assms(2) by (simp add: unsigned_of_nat take_bit_nat_eq_self)
    ultimately show ?thesis
      using body [of "?b0 # (?m OR 127) # ?l" 10 "of_nat ?n"] low_bits [of 127 "ws_masked f"] o
      by (simp add: DecodeFrame_def Let_def be_fold)
  qed
qed


theorem DecodeFrame_EncodeFrame_witness:
  "DecodeFrame (EncodeFrame 0x04030201 \<lparr>ws_fin = True, ws_masked = True, ws_opcode = 2, ws_payload = [10, 20, 30, 40, 50]\<rparr> @ [7]) new_frame =
     Ok (length (EncodeFrame 0x04030201 \<lparr>ws_fin = True, ws_masked = True, ws_opcode = 2, ws_payload = [10, 20, 30, 40, 50]\<rparr>),
       \<lparr>ws_fin = True, ws_masked = True, ws_opcode = 2, ws_payload = [10, 20, 30, 40, 50]\<rparr>)"
  by (rule DecodeFrame_EncodeFrame) simp_all

text \<open>
  A header of ten bytes with the length 2^64 - 1 makes the decoder take a payload from outside
  the data it was given: the total length wraps around to 9.
\<close>

theorem DecodeFrame_length_wraps:
  "DecodeFrame [0x82, 0x7F, 0xFF, 0xFF, 0xFF, 0xFF, 0xFF, 0xFF, 0xFF, 0xFF] g = Undef"
  by (simp add: DecodeFrame_def decode_payload_def Let_def mem_read_def)

section \<open>SPDY frames\<close>

lemma stream_word_total:
  "8 + k \<le> length buf \<Longrightarrow> \<exists>out'. stream_word w k buf out = Ok out'"
  by (auto simp: stream_word_def ReadU32StreamId_def ReadU32_def mem_read_def)

lemma stream_headers_total:
  "8 + k \<le> length buf \<Longrightarrow> 4 \<le> skip \<Longrightarrow> \<exists>out'. stream_headers skip k buf out = Ok out'"
  by (auto simp: stream_headers_def ReadU32StreamId_def mem_read_def)

lemma raw_payload_total: "8 + k \<le> length buf \<Longrightarrow> \<exists>out'. raw_payload k buf out = Ok out'"
  by (auto simp: raw_payload_def mem_read_def)

lemma control_payload_total:
  assumes "8 + k \<le> length buf"
  shows "\<exists>out'. control_payload ty k buf out = Ok out'"
  unfolding control_payload_def
  using stream_word_total [OF assms] stream_headers_total [OF assms] raw_payload_total [OF assms] assms
  by (auto simp: ReadU32_def mem_read_def)

text \<open>
  C31. The SPDY parser is safe on arbitrary input: it always returns, never reads outside the
  buffer and never claims more bytes than it was given.
\<close>

theorem ParseSpdyFrame_safe: "\<exists>n out. ParseSpdyFrame buf target = Ok (n, out) \<and> n \<le> length buf"
proof (cases target)
  case None
  then show ?thesis by (simp add: ParseSpdyFrame_def)
next
  case (Some out)
  let ?k = "unat (length24 buf)"
  show ?thesis
  proof (cases "length buf < 8 + ?k")
    case True
    then show ?thesis using Some
      by (auto simp: ParseSpdyFrame_def ParseControlFrame_def ReadU32StreamId_def mem_read_def Let_def)
  next
    case False
    then have k: "8 + ?k \<le> length buf" by simp
    obtain out' where "control_payload (push_bit 8 (ucast (buf ! 2)) OR ucast (buf ! 3)) ?k buf
        (out\<lparr>spdy_control := True, spdy_control := True, spdy_fin := buf ! 4 AND 1 \<noteq> 0\<rparr>) = Ok out'"
      using control_payload_total [OF k] by blast
    then show ?thesis using Some k
      by (cases "buf ! 0 AND 0x80 = 0")
        (simp_all add: ParseSpdyFrame_def ParseControlFrame_def ReadU32StreamId_def mem_read_def Let_def)
  qed
qed

lemma be32_put_u32: "be32 (ucast (drop_bit 24 w)) (ucast (drop_bit 16 w)) (ucast (drop_bit 8 w)) (ucast w) = w"
proof (rule bit_word_eqI)
  fix i assume "i < LENGTH(32)"
  then consider "i < 8" | "8 \<le> i" "i < 16" | "16 \<le> i" "i < 24" | "24 \<le> i" "i < 32" by fastforce
  then show "bit (be32 (ucast (drop_bit 24 w)) (ucast (drop_bit 16 w)) (ucast (drop_bit 8 w)) (ucast w)) i = bit w i"
    by cases (auto simp: be32_def bit_simps)
qed

lemma stream_id_top:
  assumes "(w :: u32) AND 0x7FFFFFFF = w"
  shows "ucast (drop_bit 24 w) AND (0x7F :: byte) = ucast (drop_bit 24 w)" "ucast (drop_bit 24 w) AND (0x80 :: byte) = 0"
proof -
  have m: "(0x7FFFFFFF :: u32) = mask 31" "(0x7F :: byte) = mask 7" by (simp_all add: mask_eq_exp_minus_1)
  have b: "\<not> bit w 31" using assms unfolding m by (metis bit_and_iff bit_mask_iff less_irrefl)
  show low: "ucast (drop_bit 24 w) AND (0x7F :: byte) = ucast (drop_bit 24 w)"
    unfolding m by (rule bit_word_eqI) (use b in \<open>auto simp: bit_simps less_Suc_eq numeral_eq_Suc\<close>)
  have "ucast (drop_bit 24 w) AND (0x80 :: byte) = ucast (drop_bit 24 w) AND (0x7F AND 0x80)"
    by (subst low [symmetric]) (simp only: and.assoc)
  then show "ucast (drop_bit 24 w) AND (0x80 :: byte) = 0" by simp
qed

lemma length24_split:
  assumes "n < 2 ^ 24"
  shows "push_bit 16 (ucast (ucast (drop_bit 16 (of_nat n :: u32)) :: byte)) OR push_bit 8 (ucast (ucast (drop_bit 8 (of_nat n :: u32)) :: byte)) OR
    ucast (ucast (of_nat n :: u32) :: byte) = (of_nat n :: u32)"
proof (rule bit_word_eqI)
  fix i assume "i < LENGTH(32)"
  then have i: "i < 32" by simp
  have b: "\<not> bit n i" if "24 \<le> i"
  proof -
    have "n < 2 ^ i" using assms power_increasing [OF that, of "2::nat"] by simp
    then show ?thesis by (simp add: bit_iff_odd)
  qed
  consider "i < 8" | "8 \<le> i" "i < 16" | "16 \<le> i" "i < 24" | "24 \<le> i" "\<not> bit n i" using b by fastforce
  then show "bit (push_bit 16 (ucast (ucast (drop_bit 16 (of_nat n :: u32)) :: byte)) OR push_bit 8 (ucast (ucast (drop_bit 8 (of_nat n :: u32)) :: byte)) OR
    ucast (ucast (of_nat n :: u32) :: byte) :: u32) i = bit (of_nat n :: u32) i"
    using i by cases (auto simp: bit_simps)
qed

text \<open>
  C38. Round trip of SPDY data frames of less than 2^24 bytes, with anything following on the
  stream; the header map of the object that is filled in stays.
\<close>

theorem ParseSpdyFrame_SerializeSpdyFrame:
  assumes "\<not> spdy_control f" "stream_id f AND 0x7FFFFFFF = stream_id f" "length (spdy_data f) < 2 ^ 24"
  shows "ParseSpdyFrame (SerializeSpdyFrame f @ rest) (Some g) =
    Ok (8 + length (spdy_data f), Some (f\<lparr>spdy_type := kData, spdy_headers := spdy_headers g\<rparr>))"
proof -
  let ?n = "length (spdy_data f)" and ?s = "stream_id f"
  let ?len = "of_nat ?n :: u32"
  define hd where "hd = put_u32 ?s @ [if spdy_fin f then 1 else 0] @ [ucast (drop_bit 16 ?len), ucast (drop_bit 8 ?len), ucast ?len]"
  have s: "SerializeSpdyFrame f = hd @ spdy_data f" using assms by (simp add: SerializeSpdyFrame_def hd_def Let_def)
  have l: "length hd = 8" by (simp add: hd_def put_u32_def)
  have h: "(hd @ x) ! 0 = ucast (drop_bit 24 ?s)" "(hd @ x) ! 4 = (if spdy_fin f then 1 else 0)"
      "take 4 (hd @ x) = put_u32 ?s" for x
    by (simp_all add: hd_def put_u32_def)
  have k: "unat (length24 (hd @ x)) = ?n" for x
  proof -
    have "length24 (hd @ x) = ?len" using length24_split [OF assms(3)] by (simp add: length24_def hd_def put_u32_def)
    then show ?thesis using assms(3) by (simp add: unsigned_of_nat take_bit_nat_eq_self)
  qed
  have sid: "ReadU32StreamId (hd @ x) 0 = Ok ?s" for x
    using stream_id_top(1) [OF assms(2)] be32_put_u32 [of ?s] by (simp add: ReadU32StreamId_def mem_read_def hd_def put_u32_def)
  have t: "(hd @ x) ! 0 AND 0x80 = 0" for x using stream_id_top(2) [OF assms(2)] by (simp only: h)
  have f: "(if spdy_fin f then 1 else 0 :: byte) AND 1 \<noteq> 0 \<longleftrightarrow> spdy_fin f" by simp
  have eq: "g\<lparr>spdy_control := False, spdy_type := kData, stream_id := ?s, spdy_fin := spdy_fin f, spdy_data := spdy_data f\<rparr> =
      f\<lparr>spdy_type := kData, spdy_headers := spdy_headers g\<rparr>" using assms(1) by (cases f; cases g) simp
  have r: "mem_read 8 ?n (hd @ spdy_data f @ rest) = (Ok (spdy_data f) :: (string, bytes) exec)" by (simp add: mem_read_def l)
  show ?thesis unfolding s append_assoc ParseSpdyFrame_def
    using t [of "spdy_data f @ rest"] sid [of "spdy_data f @ rest"] k [of "spdy_data f @ rest"] h(2) [of "spdy_data f @ rest"] f r l eq
    by (simp add: Let_def del: ebind_eq_Ok)
qed

theorem ParseSpdyFrame_SerializeSpdyFrame_witness:
  "ParseSpdyFrame (SerializeSpdyFrame \<lparr>spdy_type = kData, spdy_control = False, stream_id = 5, spdy_fin = True, spdy_data = [1, 2, 3],
       spdy_headers = Map.empty\<rparr> @ [9]) (Some \<lparr>spdy_type = kPing, spdy_control = True, stream_id = 0, spdy_fin = False, spdy_data = [],
       spdy_headers = Map.empty\<rparr>) =
   Ok (11, Some \<lparr>spdy_type = kData, spdy_control = False, stream_id = 5, spdy_fin = True, spdy_data = [1, 2, 3], spdy_headers = Map.empty\<rparr>)"
  using ParseSpdyFrame_SerializeSpdyFrame [of "\<lparr>spdy_type = kData, spdy_control = False, stream_id = 5, spdy_fin = True, spdy_data = [1, 2, 3],
       spdy_headers = Map.empty\<rparr>" "[9]" "\<lparr>spdy_type = kPing, spdy_control = True, stream_id = 0, spdy_fin = False, spdy_data = [],
       spdy_headers = Map.empty\<rparr>"] by simp

text \<open>
  A data frame of 2^24 bytes or more is written with its length modulo 2^24, and a control frame is
  not written at all.
\<close>

lemma SerializeSpdyFrame_limits:
  "spdy_control f \<Longrightarrow> SerializeSpdyFrame f = []"
  "\<not> spdy_control f \<Longrightarrow> length (spdy_data f) = 2 ^ 24 \<Longrightarrow> unat (length24 (SerializeSpdyFrame f)) = 0"
  by (simp_all add: SerializeSpdyFrame_def length24_def put_u32_def Let_def)

end
