(* ===== verification/NetworkText.thy ===== *)
theory NetworkText
  imports XerValues
begin

text \<open>
  The text routines of \<^verbatim>\<open>src/src/content/network\<close>: percent encoding and path normalisation
  (\<open>url_util.cc\<close>), header helpers (\<open>http_util.cc\<close>, \<open>http_request_headers.cc\<close>,
  \<open>http_response_headers.cc\<close>) and host, port and scheme handling (\<open>network_util.cc\<close>). A pointer
  argument is an option; what it points to is returned as it is left. A \<open>std::map\<close> is a list of
  pairs in key order.
\<close>

section \<open>Definitions\<close>

subsection \<open>Library routines\<close>

lemma length_tl_dropWhile [lex_less]: "s \<noteq> [] \<Longrightarrow> length (tl (dropWhile P s)) < length s"
  using length_dropWhile_le [of P s] by (cases s) (auto simp: le_imp_less_Suc)

text \<open>The pieces \<open>std::getline\<close> reads from a string stream: a final delimiter starts no piece.\<close>

function getlines :: "char \<Rightarrow> string \<Rightarrow> string list" where
  "getlines d s = (if s = [] then [] else takeWhile (\<lambda>c. c \<noteq> d) s # getlines d (tl (dropWhile (\<lambda>c. c \<noteq> d) s)))"
  by pat_completeness auto

termination by (relation "measure (\<lambda>(d, s). length s)") (simp_all add: length_tl_dropWhile del: length_tl)

declare getlines.simps [simp del]

lemma getlines_Nil [simp]: "getlines d [] = []"
  by (simp add: getlines.simps)

lemma getlines_Cons [simp]:
  "getlines d (c # cs) = takeWhile (\<lambda>c. c \<noteq> d) (c # cs) # getlines d (tl (dropWhile (\<lambda>c. c \<noteq> d) (c # cs)))"
  by (subst getlines.simps) simp

text \<open>\<open>std::stoi\<close> over a 32-bit \<open>int\<close>; \<open>None\<close> where it throws.\<close>

definition stoi :: "string \<Rightarrow> int option" where
  "stoi s = (case stoll s of None \<Rightarrow> None | Some v \<Rightarrow> if - (2 ^ 31) \<le> v \<and> v < 2 ^ 31 then Some v else None)"

definition c_isxdigit :: "char \<Rightarrow> bool" where
  "c_isxdigit c \<longleftrightarrow> c_isdigit c \<or> (65 \<le> code c \<and> code c \<le> 70) \<or> (97 \<le> code c \<and> code c \<le> 102)"

definition xdigit_val :: "char \<Rightarrow> nat" where
  "xdigit_val c = (if c_isdigit c then code c - 48 else if code c \<le> 70 then code c - 55 else code c - 87)"

definition upper_hex :: "nat \<Rightarrow> char" where
  "upper_hex d = ''0123456789ABCDEF'' ! d"

subsection \<open>URLs\<close>

definition IsUnreserved :: "char \<Rightarrow> bool" where
  "IsUnreserved c \<longleftrightarrow> c_isalnum c \<or> c = CHR ''-'' \<or> c = CHR ''_'' \<or> c = CHR ''.'' \<or> c = CHR ''~''"

definition percent :: "char \<Rightarrow> string" where
  "percent c = [CHR ''%'', upper_hex (code c div 16), upper_hex (code c mod 16)]"

fun PercentEncode :: "string \<Rightarrow> string" where
  "PercentEncode [] = []"
| "PercentEncode (c # cs) = (if IsUnreserved c then [c] else percent c) @ PercentEncode cs"

fun PercentDecode :: "string \<Rightarrow> string" where
  "PercentDecode (c # a # b # cs) =
     (if c = CHR ''%'' \<and> c_isxdigit a \<and> c_isxdigit b
      then char_of (16 * xdigit_val a + xdigit_val b) # PercentDecode cs
      else c # PercentDecode (a # b # cs))"
| "PercentDecode (c # cs) = c # PercentDecode cs"
| "PercentDecode [] = []"

fun QueryEncode :: "string \<Rightarrow> string" where
  "QueryEncode [] = []"
| "QueryEncode (c # cs) =
     (if c = CHR '' '' then [CHR ''+''] else if IsUnreserved c then [c] else percent c) @ QueryEncode cs"

fun resolve_segments :: "string list \<Rightarrow> string list \<Rightarrow> string list" where
  "resolve_segments parts [] = parts"
| "resolve_segments parts (seg # segs) =
     (if seg = ''.'' then resolve_segments parts segs
      else if seg = ''..'' then resolve_segments (butlast parts) segs
      else resolve_segments (parts @ [seg]) segs)"

definition NormalizePath :: "string \<Rightarrow> string" where
  "NormalizePath path =
     (let out = concat (map (\<lambda>p. CHR ''/'' # p) (resolve_segments [] (getlines (CHR ''/'') path)))
      in if out = [] then ''/'' else out)"

subsection \<open>Header helpers\<close>

definition header_space :: "char \<Rightarrow> bool" where
  "header_space c \<longleftrightarrow> c = CHR '' '' \<or> c = ch_tab \<or> c = ch_return \<or> c = ch_newline"

definition TrimWhitespace :: "string \<Rightarrow> string" where
  "TrimWhitespace s = rev (dropWhile header_space (rev (dropWhile header_space s)))"

definition IEqualASCII :: "string \<Rightarrow> string \<Rightarrow> bool" where
  "IEqualASCII a b \<longleftrightarrow> length a = length b \<and> list_all (\<lambda>(x, y). c_tolower x = c_tolower y) (zip a b)"

definition SplitHeaderValue :: "string \<Rightarrow> char \<Rightarrow> string list" where
  "SplitHeaderValue v delimiter = map TrimWhitespace (getlines delimiter v)"

definition FormatContentLength :: "nat \<Rightarrow> string" where
  "FormatContentLength n = show_nat n"

definition IsMethodSafe :: "string \<Rightarrow> bool" where
  "IsMethodSafe m \<longleftrightarrow> m = ''GET'' \<or> m = ''HEAD'' \<or> m = ''OPTIONS''"

definition IsMethodIdempotent :: "string \<Rightarrow> bool" where
  "IsMethodIdempotent m \<longleftrightarrow> IsMethodSafe m \<or> m = ''PUT'' \<or> m = ''DELETE''"

definition ReasonPhrase :: "int \<Rightarrow> string" where
  "ReasonPhrase c =
     (if c = 100 then ''Continue'' else if c = 101 then ''Switching Protocols''
      else if c = 200 then ''OK'' else if c = 201 then ''Created'' else if c = 204 then ''No Content''
      else if c = 301 then ''Moved Permanently'' else if c = 302 then ''Found'' else if c = 304 then ''Not Modified''
      else if c = 400 then ''Bad Request'' else if c = 401 then ''Unauthorized'' else if c = 403 then ''Forbidden''
      else if c = 404 then ''Not Found'' else if c = 405 then ''Method Not Allowed'' else if c = 408 then ''Request Timeout''
      else if c = 429 then ''Too Many Requests'' else if c = 500 then ''Internal Server Error''
      else if c = 502 then ''Bad Gateway'' else if c = 503 then ''Service Unavailable'' else ''Unknown'')"

subsection \<open>Header maps\<close>

text \<open>\<open>std::map<std::string, std::string>\<close>, in key order.\<close>

type_synonym header_map = "(string \<times> string) list"

fun string_less :: "string \<Rightarrow> string \<Rightarrow> bool" where
  "string_less s [] = False"
| "string_less [] (d # ds) = True"
| "string_less (c # cs) (d # ds) = (code c < code d \<or> c = d \<and> string_less cs ds)"

fun map_set :: "string \<Rightarrow> string \<Rightarrow> header_map \<Rightarrow> header_map" where
  "map_set k v [] = [(k, v)]"
| "map_set k v ((k', v') # m) =
     (if k = k' then (k, v) # m else if string_less k k' then (k, v) # (k', v') # m else (k', v') # map_set k v m)"

definition map_erase :: "string \<Rightarrow> header_map \<Rightarrow> header_map" where
  "map_erase k m = filter (\<lambda>(k', v). k' \<noteq> k) m"

definition Headers_Set :: "string \<Rightarrow> string \<Rightarrow> header_map \<Rightarrow> header_map" where
  "Headers_Set name v headers = map_set name v headers"

definition Headers_Has :: "header_map \<Rightarrow> string \<Rightarrow> bool" where
  "Headers_Has headers name \<longleftrightarrow> map_of headers name \<noteq> None"

definition Headers_Get :: "header_map \<Rightarrow> string \<Rightarrow> string" where
  "Headers_Get headers name = (case map_of headers name of Some v \<Rightarrow> v | None \<Rightarrow> [])"

definition Headers_Remove :: "string \<Rightarrow> header_map \<Rightarrow> header_map" where
  "Headers_Remove name headers = map_erase name headers"

definition Headers_Clear :: "header_map \<Rightarrow> header_map" where
  "Headers_Clear headers = []"


subsection \<open>Response headers\<close>





definition ContentLength :: "header_map \<Rightarrow> int" where
  "ContentLength headers =
     (case map_of headers ''Content-Length'' of
        None \<Rightarrow> -1
      | Some v \<Rightarrow> (case stoi v of None \<Rightarrow> -1 | Some n \<Rightarrow> n))"

subsection \<open>Hosts, ports and schemes\<close>

text \<open>An error is its integer code; \<open>kAddressUnreachable\<close> and \<open>kDnsServerNotFound\<close> share one.\<close>

definition NetErrorToString :: "int \<Rightarrow> string" where
  "NetErrorToString e =
     (if e = 0 then ''OK'' else if e = -1 then ''ERR_IO_PENDING'' else if e = -2 then ''ERR_FAILED''
      else if e = -3 then ''ERR_ABORTED'' else if e = -4 then ''ERR_INVALID_ARGUMENT'' else if e = -7 then ''ERR_TIMED_OUT''
      else if e = -100 then ''ERR_CONNECTION_CLOSED'' else if e = -101 then ''ERR_CONNECTION_RESET''
      else if e = -102 then ''ERR_CONNECTION_REFUSED'' else if e = -103 then ''ERR_CONNECTION_ABORTED''
      else if e = -104 then ''ERR_CONNECTION_FAILED'' else if e = -105 then ''ERR_NAME_NOT_RESOLVED''
      else if e = -109 then ''ERR_ADDRESS_UNREACHABLE'' else if e = -107 then ''ERR_SSL_PROTOCOL_ERROR''
      else if e = -200 then ''ERR_CERT_COMMON_NAME_INVALID'' else if e = -201 then ''ERR_CERT_DATE_INVALID''
      else if e = -202 then ''ERR_CERT_AUTHORITY_INVALID'' else if e = -203 then ''ERR_CERT_REVOKED''
      else if e = -204 then ''ERR_CERT_INVALID'' else if e = -130 then ''ERR_PROXY_CONNECTION_FAILED''
      else if e = -133 then ''ERR_SOCKS_CONNECTION_FAILED'' else if e = -113 then ''ERR_DNS_MALFORMED_RESPONSE''
      else ''ERR_UNKNOWN'')"

definition kDnsServerNotFound :: int where "kDnsServerNotFound = -109"

definition IsValidPort :: "int \<Rightarrow> bool" where
  "IsValidPort port \<longleftrightarrow> port \<ge> 1 \<and> port \<le> 65535"

definition IsIPv6Literal :: "string \<Rightarrow> bool" where
  "IsIPv6Literal host \<longleftrightarrow> length host \<ge> 2 \<and> hd host = CHR ''['' \<and> last host = CHR '']''"

text \<open>The regular expression \<open>^(\d{1,3}\.){3}\d{1,3}$\<close>, with the number of groups still to come.\<close>

fun dotted_numbers :: "nat \<Rightarrow> string \<Rightarrow> bool" where
  "dotted_numbers n s =
     (let ds = takeWhile c_isdigit s; rest = dropWhile c_isdigit s in
      1 \<le> length ds \<and> length ds \<le> 3 \<and>
      (case n of
         0 \<Rightarrow> rest = []
       | Suc k \<Rightarrow> rest \<noteq> [] \<and> hd rest = CHR ''.'' \<and> dotted_numbers k (tl rest)))"

definition IsIPLiteral :: "string \<Rightarrow> bool" where
  "IsIPLiteral host \<longleftrightarrow> IsIPv6Literal host \<or> dotted_numbers 3 host"

definition UnwrapIPv6 :: "string \<Rightarrow> string" where
  "UnwrapIPv6 host = (if IsIPv6Literal host then take (length host - 2) (drop 1 host) else host)"

definition CanonicaliseHost :: "string \<Rightarrow> string" where
  "CanonicaliseHost host =
     (let out = map c_tolower host in if out \<noteq> [] \<and> last out = CHR ''.'' then butlast out else out)"

definition MakeHostPortPair :: "string \<Rightarrow> u16 \<Rightarrow> string" where
  "MakeHostPortPair host port =
     (if CHR '':'' \<in> set host \<and> \<not> IsIPv6Literal host then ''['' @ host @ '']'' else host) @ '':'' @ show_nat (unat port)"

text \<open>The port text of both branches: the number must be read and lie in the valid interval.\<close>

definition read_port :: "string \<Rightarrow> string option \<Rightarrow> u16 option \<Rightarrow> bool \<times> string option \<times> u16 option" where
  "read_port port_str host port =
     (case stoi port_str of
        None \<Rightarrow> (False, host, port)
      | Some p \<Rightarrow> if \<not> IsValidPort p then (False, host, port) else (True, host, Some (word_of_int p)))"

text \<open>\<open>str.front()\<close> of an empty string is undefined.\<close>

definition SplitHostPort :: "string \<Rightarrow> string option \<Rightarrow> u16 option \<Rightarrow> (string, bool \<times> string option \<times> u16 option) exec" where
  "SplitHostPort str host port =
     (if host = None \<or> port = None then Ok (False, host, port)
      else if str = [] then Undef
      else if hd str = CHR ''['' then
        (if CHR '']'' \<notin> set str then Ok (False, host, port)
         else
           let host' = Some (tl (takeWhile (\<lambda>c. c \<noteq> CHR '']'') str));
               rest = tl (dropWhile (\<lambda>c. c \<noteq> CHR '']'') str)
           in if rest = [] then Ok (True, host', Some 0)
              else if hd rest \<noteq> CHR '':'' then Ok (False, host', port)
              else Ok (read_port (tl rest) host' port))
      else if CHR '':'' \<notin> set str then Ok (True, Some str, Some 0)
      else
        let before = rev (tl (dropWhile (\<lambda>c. c \<noteq> CHR '':'') (rev str)));
            after = rev (takeWhile (\<lambda>c. c \<noteq> CHR '':'') (rev str))
        in Ok (read_port after (Some before) port))"

definition CanonicalizeScheme :: "string \<Rightarrow> string" where
  "CanonicalizeScheme scheme = map c_tolower scheme"

definition IsSecureScheme :: "string \<Rightarrow> bool" where
  "IsSecureScheme scheme \<longleftrightarrow> CanonicalizeScheme scheme \<in> {''https'', ''wss'', ''ftps''}"

definition DefaultPortForScheme :: "string \<Rightarrow> u16" where
  "DefaultPortForScheme scheme =
     (let canonical = CanonicalizeScheme scheme in
      if canonical = ''http'' then 80 else if canonical = ''https'' then 443 else if canonical = ''ftp'' then 21
      else if canonical = ''ftps'' then 990 else if canonical = ''ws'' then 80 else if canonical = ''wss'' then 443
      else if canonical = ''quic'' then 443 else if canonical = ''spdy'' then 443 else 0)"

section \<open>Percent encoding\<close>

lemma upper_hex_digit:
  assumes "d < 16"
  shows "c_isxdigit (upper_hex d)" "xdigit_val (upper_hex d) = d"
proof -
  have "d \<in> set [0..<16]" using assms by simp
  then have "c_isxdigit (upper_hex d) \<and> xdigit_val (upper_hex d) = d"
    by (auto simp: upt_rec upper_hex_def c_isxdigit_def xdigit_val_def c_isdigit_def)
  then show "c_isxdigit (upper_hex d)" "xdigit_val (upper_hex d) = d" by simp_all
qed

lemma PercentDecode_literal: "c \<noteq> CHR ''%'' \<Longrightarrow> PercentDecode (c # cs) = c # PercentDecode cs"
  by (cases cs; cases "tl cs") simp_all

lemma code_div_16: "code c div 16 < 16"
  using code_less [of c] by (intro less_mult_imp_div_less) simp

lemma PercentDecode_percent: "PercentDecode (percent c @ cs) = c # PercentDecode cs"
proof -
  have "code c div 16 < 16" by (rule code_div_16)
  then have "c_isxdigit (upper_hex (code c div 16))" "xdigit_val (upper_hex (code c div 16)) = code c div 16"
    by (rule upper_hex_digit)+
  moreover have "c_isxdigit (upper_hex (code c mod 16))" "xdigit_val (upper_hex (code c mod 16)) = code c mod 16"
    by (rule upper_hex_digit, simp)+
  ultimately show ?thesis by (simp add: percent_def)
qed

lemma unreserved_not_percent: "IsUnreserved c \<Longrightarrow> c \<noteq> CHR ''%''"
  by (auto simp: IsUnreserved_def cctype_defs)

text \<open>
  Percent encoding is invertible on every byte string and its image uses only unreserved
  characters and percent signs; a query-encoded string decodes to the original with plus signs for
  its blanks.
\<close>

theorem PercentDecode_PercentEncode:
  "PercentDecode (PercentEncode s) = s \<and>
   list_all (\<lambda>c. IsUnreserved c \<or> c = CHR ''%'') (PercentEncode s) \<and>
   PercentDecode (QueryEncode s) = map (\<lambda>c. if c = CHR '' '' then CHR ''+'' else c) s"
proof (induction s)
  case (Cons c cs)
  have "IsUnreserved (upper_hex d)" if "d < 16" for d
  proof -
    have "d \<in> set [0..<16]" using that by simp
    then show ?thesis by (auto simp: upt_rec upper_hex_def IsUnreserved_def cctype_defs)
  qed
  moreover have "code c div 16 < 16" "code c mod 16 < 16" using code_div_16 by simp_all
  ultimately have "list_all (\<lambda>c. IsUnreserved c \<or> c = CHR ''%'') (percent c)" by (simp add: percent_def)
  with Cons show ?case by (auto simp: PercentDecode_percent PercentDecode_literal unreserved_not_percent)
qed simp

section \<open>Paths\<close>

text \<open>
  The empty piece before the leading slash of an absolute path is kept as a segment, so
  normalising adds a slash each time.
\<close>

lemma NormalizePath_absolute: "NormalizePath ''/a'' = ''//a''" "NormalizePath ''//a'' = ''///a''"
  by (simp_all add: NormalizePath_def)

lemma resolve_segments_no_dots:
  "list_all (\<lambda>p. p \<noteq> ''.'' \<and> p \<noteq> ''..'') parts \<Longrightarrow>
   list_all (\<lambda>p. p \<noteq> ''.'' \<and> p \<noteq> ''..'') (resolve_segments parts segs)"
proof (induction parts segs rule: resolve_segments.induct)
  case (2 parts seg segs)
  moreover have "list_all (\<lambda>p. p \<noteq> ''.'' \<and> p \<noteq> ''..'') (butlast parts)"
    using "2.prems" unfolding list_all_iff by (intro ballI) (drule in_set_butlastD, rule bspec)
  ultimately show ?case by simp
qed simp

section \<open>Header text\<close>

lemma TrimWhitespace_idem [simp]: "TrimWhitespace (TrimWhitespace s) = TrimWhitespace s"
proof -
  define t where "t = dropWhile header_space s"
  have "dropWhile header_space (rev (dropWhile header_space (rev t))) = rev (dropWhile header_space (rev t))"
  proof (cases "rev (dropWhile header_space (rev t))")
    case (Cons c u)
    then have "dropWhile header_space (rev t) \<noteq> []" by auto
    then obtain v where v: "t = c # v"
    proof -
      have "rev t = takeWhile header_space (rev t) @ dropWhile header_space (rev t)" by simp
      then have "t = rev (dropWhile header_space (rev t)) @ rev (takeWhile header_space (rev t))"
        by (metis rev_append rev_rev_ident)
      with Cons that show ?thesis by simp
    qed
    then have "\<not> header_space c" unfolding t_def by (metis hd_dropWhile list.discI list.sel(1))
    with Cons show ?thesis by simp
  qed (simp only: dropWhile.simps)
  then show ?thesis by (simp add: TrimWhitespace_def t_def)
qed

lemma IEqualASCII_iff: "IEqualASCII a b \<longleftrightarrow> map c_tolower a = map c_tolower b"
proof -
  have "length a = length b \<Longrightarrow> list_all (\<lambda>(x, y). c_tolower x = c_tolower y) (zip a b) \<longleftrightarrow> map c_tolower a = map c_tolower b"
    by (induction a b rule: list_induct2) auto
  then show ?thesis unfolding IEqualASCII_def by (metis length_map)
qed

section \<open>Header maps\<close>

text \<open>
  What the header classes rely on: the table returns what was last stored under a key, and erasing
  removes exactly that key.
\<close>

locale string_store =
  fixes lookup :: "'m \<Rightarrow> string \<Rightarrow> string option"
    and put :: "string \<Rightarrow> string \<Rightarrow> 'm \<Rightarrow> 'm"
    and erase :: "string \<Rightarrow> 'm \<Rightarrow> 'm"
  assumes lookup_put: "lookup (put k v m) = (lookup m)(k \<mapsto> v)"
    and lookup_erase: "lookup (erase k m) = (lookup m)(k := None)"
begin

lemma lookup_put_all: "lookup (fold (\<lambda>(k, v). put k v) kvs m) = lookup m ++ map_of (rev kvs)"
  by (induction kvs arbitrary: m) (auto simp: lookup_put map_add_def fun_eq_iff split: option.splits)

lemma put_shadows: "lookup (put k v (put k w m)) = lookup (put k v m)"
  by (simp add: lookup_put)

lemma erase_put: "lookup (erase k (put k v m)) = lookup (erase k m)"
  by (simp add: lookup_put lookup_erase)

end

lemma map_of_map_set: "map_of (map_set k v m) = (map_of m)(k \<mapsto> v)"
  by (induction k v m rule: map_set.induct) (auto simp: fun_eq_iff)

lemma map_of_map_erase: "map_of (map_erase k m) = (map_of m)(k := None)"
  by (induction m) (auto simp: map_erase_def fun_eq_iff)

interpretation headers: string_store map_of map_set map_erase
  by unfold_locales (rule map_of_map_set, rule map_of_map_erase)

lemma Headers_Get_Set: "Headers_Get (Headers_Set k v m) k' = (if k' = k then v else Headers_Get m k')"
  by (simp add: Headers_Get_def Headers_Set_def headers.lookup_put)

lemma Headers_Get_Remove: "Headers_Has (Headers_Remove k m) k' \<longleftrightarrow> k' \<noteq> k \<and> Headers_Has m k'"
  by (simp add: Headers_Has_def Headers_Remove_def headers.lookup_erase)

text \<open>The key order of \<open>std::map\<close> is an invariant.\<close>

definition map_ordered :: "header_map \<Rightarrow> bool" where
  "map_ordered m \<longleftrightarrow> sorted_wrt string_less (map fst m)"


lemma string_less_trans: "string_less a b \<Longrightarrow> string_less b c \<Longrightarrow> string_less a c"
proof (induction a b arbitrary: c rule: string_less.induct)
  case (2 d ds)
  then show ?case by (cases c) auto
next
  case (3 x xs d ds)
  then show ?case by (cases c) auto
qed simp

lemma string_less_total: "string_less a b \<or> a = b \<or> string_less b a"
proof (induction a b rule: string_less.induct)
  case (1 s)
  then show ?case by (cases s) auto
next
  case (3 x xs d ds)
  then show ?case using code_inject [of x d] by auto
qed simp

lemma set_map_set: "set (map fst (map_set k v m)) = insert k (set (map fst m))"
  by (induction k v m rule: map_set.induct) auto

lemma map_ordered_map_set: "map_ordered m \<Longrightarrow> map_ordered (map_set k v m)"
proof (induction m)
  case (Cons kv m)
  obtain k' v' where kv: "kv = (k', v')" by (cases kv)
  from Cons.prems kv have o: "map_ordered m" "x \<in> set (map fst m) \<Longrightarrow> string_less k' x" for x
    by (auto simp: map_ordered_def)
  have lt: "x \<in> set (map fst m) \<Longrightarrow> string_less k k' \<Longrightarrow> string_less k x" for x
    using o(2) string_less_trans by blast
  have "y \<in> set (map_set k v m) \<Longrightarrow> \<not> string_less k k' \<Longrightarrow> k \<noteq> k' \<Longrightarrow> string_less k' (fst y)" for y
  proof -
    assume y: "y \<in> set (map_set k v m)" "\<not> string_less k k'" "k \<noteq> k'"
    then have "fst y \<in> insert k (set (map fst m))" using set_map_set by (metis image_eqI image_set)
    then show ?thesis using y o(2) string_less_total [of k k'] by auto
  qed
  then show ?case using Cons.IH [OF o(1)] Cons.prems o(2) lt kv
    by (auto simp: map_ordered_def)
qed (simp add: map_ordered_def)






lemma ch_return_newline [simp]: "ch_newline \<noteq> ch_return" "CHR '':'' \<noteq> ch_newline" "CHR '' '' \<noteq> ch_newline" "CHR '' '' \<noteq> ch_return"
  by (simp_all add: ch_defs)






lemma stoi_show_nat: "n < 2 ^ 31 \<Longrightarrow> stoi (show_nat n) = Some (int n)"
  using stoll_show_nat [of "int n"] by (simp add: stoi_def int64_max_def)




section \<open>Hosts and ports\<close>

lemma read_port_show_nat:
  assumes "p \<noteq> 0"
  shows "read_port (show_nat (unat (p :: u16))) h q = (True, h, Some p)"
proof -
  have "unat p < 2 ^ LENGTH(16)" by (rule unsigned_less)
  moreover have "unat p \<noteq> 0" using assms by (simp add: unsigned_eq_0_iff)
  ultimately have "IsValidPort (int (unat p))" "stoi (show_nat (unat p)) = Some (int (unat p))"
    using stoi_show_nat [of "unat p"] by (simp_all add: IsValidPort_def del: of_nat_unat)
  then show ?thesis by (simp add: read_port_def)
qed

text \<open>
  What \<open>MakeHostPortPair\<close> writes is split back into the host and the port, with a bracketed
  IPv6 literal losing its brackets.
\<close>

theorem SplitHostPort_MakeHostPortPair:
  assumes "host \<noteq> []" "hd host \<noteq> CHR ''[''" "CHR '']'' \<notin> set host" "port \<noteq> 0"
  shows "SplitHostPort (MakeHostPortPair host port) (Some h0) (Some p0) = Ok (True, Some host, Some port)"
proof -
  let ?d = "show_nat (unat port)"
  have d: "CHR '':'' \<notin> set ?d"
    using show_nat_digits [of "unat port"] by (auto simp: list_all_iff c_isdigit_def)
  show ?thesis
  proof (cases "CHR '':'' \<in> set host")
    case True
    then have m: "MakeHostPortPair host port = (CHR ''['' # host) @ CHR '']'' # CHR '':'' # ?d"
      using assms(2) by (simp add: MakeHostPortPair_def IsIPv6Literal_def)
    have "takeWhile (\<lambda>c. c \<noteq> CHR '']'') ((CHR ''['' # host) @ CHR '']'' # CHR '':'' # ?d) = CHR ''['' # host"
      "dropWhile (\<lambda>c. c \<noteq> CHR '']'') ((CHR ''['' # host) @ CHR '']'' # CHR '':'' # ?d) = CHR '']'' # CHR '':'' # ?d"
      using assms(3) by (auto simp: takeWhile_append dropWhile_append)
    then show ?thesis unfolding m using read_port_show_nat [OF assms(4)] by (simp add: SplitHostPort_def Let_def)
  next
    case False
    then have m: "MakeHostPortPair host port = host @ CHR '':'' # ?d" by (simp add: MakeHostPortPair_def)
    have "rev (host @ CHR '':'' # ?d) = rev ?d @ CHR '':'' # rev host" by simp
    moreover have "takeWhile (\<lambda>c. c \<noteq> CHR '':'') (rev ?d @ CHR '':'' # rev host) = rev ?d"
      "dropWhile (\<lambda>c. c \<noteq> CHR '':'') (rev ?d @ CHR '':'' # rev host) = CHR '':'' # rev host"
      using d by (auto simp: takeWhile_append dropWhile_append)
    ultimately show ?thesis unfolding m using read_port_show_nat [OF assms(4)] assms(1,2)
      by (simp add: SplitHostPort_def Let_def)
  qed
qed

theorem SplitHostPort_MakeHostPortPair_witness:
  "SplitHostPort (MakeHostPortPair ''::1'' 8080) (Some []) (Some 0) = Ok (True, Some ''::1'', Some 8080)"
  using SplitHostPort_MakeHostPortPair [of "''::1''" 8080 "[]" 0] by simp

lemma SplitHostPort_empty: "SplitHostPort [] (Some h) (Some p) = Undef"
  by (simp add: SplitHostPort_def)

lemma DnsServerNotFound_text: "NetErrorToString kDnsServerNotFound = ''ERR_ADDRESS_UNREACHABLE''"
  by (simp add: NetErrorToString_def kDnsServerNotFound_def)

end
