(* ===== verification/NetworkPackets.thy ===== *)
theory NetworkPackets
  imports NetworkFraming NetworkText
begin

text \<open>
  The packet formats of the DNS client (\<open>dns/dns_client.cc\<close>) and of QUIC headers
  (\<open>quic/quic_packet.cc\<close>). The socket exchange and \<open>inet_ntop\<close> are parameters; a read outside
  the packet is \<open>Undef\<close>.
\<close>

section \<open>Definitions\<close>

subsection \<open>DNS\<close>

text \<open>A record type is its 16-bit code.\<close>

record DnsRecord =
  rec_type :: u16
  rec_name :: string
  rec_value :: string
  ttl_sec :: u32

record ntop =
  ntop4 :: "bytes \<Rightarrow> string"
  ntop6 :: "bytes \<Rightarrow> string"

definition label_bytes :: "string \<Rightarrow> bytes" where
  "label_bytes l = of_nat (length l) # bytes_of_string l"

definition BuildQuery :: "string \<Rightarrow> u16 \<Rightarrow> u16 \<Rightarrow> bytes" where
  "BuildQuery name qtype txid =
     [ucast (drop_bit 8 txid), ucast txid, 1, 0, 0, 1, 0, 0, 0, 0, 0, 0] @
     concat (map label_bytes (getlines (CHR ''.'') name)) @ [0] @
     [ucast (drop_bit 8 qtype), ucast qtype, 0, 1]"

text \<open>The question name: label by label, up to the root label or past a compression pointer.\<close>

function skip_qname :: "bytes \<Rightarrow> nat \<Rightarrow> nat" where
  "skip_qname buf pos =
     (if pos < length buf \<and> buf ! pos \<noteq> 0 then
        (if buf ! pos AND 0xC0 = 0xC0 then pos + 2 else skip_qname buf (pos + unat (buf ! pos) + 1))
      else pos)"
  by pat_completeness auto
termination by (relation "measure (\<lambda>(buf, pos). length buf - pos)") auto

text \<open>An owner name that does not start with a pointer.\<close>

function skip_labels :: "bytes \<Rightarrow> nat \<Rightarrow> nat" where
  "skip_labels buf pos =
     (if pos < length buf \<and> buf ! pos \<noteq> 0 then skip_labels buf (pos + unat (buf ! pos) + 1) else pos)"
  by pat_completeness auto
termination by (relation "measure (\<lambda>(buf, pos). length buf - pos)") auto

declare skip_qname.simps [simp del] skip_labels.simps [simp del]

definition answer_start :: "bytes \<Rightarrow> nat \<Rightarrow> (string, nat) exec" where
  "answer_start buf pos =
     ebind (rd buf pos) (\<lambda>b. Ok (if b AND 0xC0 = 0xC0 then pos + 2 else skip_labels buf pos + 1))"

definition answer_value :: "ntop \<Rightarrow> bytes \<Rightarrow> nat \<Rightarrow> u16 \<Rightarrow> u16 \<Rightarrow> (string, string) exec" where
  "answer_value nt buf pos rtype rdlen =
     (if rtype = 1 \<and> rdlen = 4 \<and> pos + 4 \<le> length buf then ebind (mem_read pos 4 buf) (\<lambda>ip. Ok (ntop4 nt ip))
      else if rtype = 28 \<and> rdlen = 16 \<and> pos + 16 \<le> length buf then ebind (mem_read pos 16 buf) (\<lambda>ip. Ok (ntop6 nt ip))
      else Ok [])"

definition be16 :: "byte \<Rightarrow> byte \<Rightarrow> u16" where
  "be16 a b = push_bit 8 (ucast a) OR ucast b"

fun parse_answers :: "ntop \<Rightarrow> bytes \<Rightarrow> nat \<Rightarrow> nat \<Rightarrow> DnsRecord list \<Rightarrow> (string, DnsRecord list) exec" where
  "parse_answers nt buf 0 pos records = Ok records"
| "parse_answers nt buf (Suc n) pos records =
     (if \<not> pos + 10 < length buf then Ok records
      else ebind (answer_start buf pos) (\<lambda>p.
        if p + 10 > length buf then Ok records
        else ebind (mem_read p 10 buf) (\<lambda>h.
             let rtype = be16 (h ! 0) (h ! 1); rdlen = be16 (h ! 8) (h ! 9) in
             ebind (answer_value nt buf (p + 10) rtype rdlen) (\<lambda>v.
             parse_answers nt buf n (p + 10 + unat rdlen)
               (records @ [\<lparr>rec_type = rtype, rec_name = [], rec_value = v,
                            ttl_sec = be32 (h ! 4) (h ! 5) (h ! 6) (h ! 7)\<rparr>])))))"

definition question_end :: "bytes \<Rightarrow> nat" where
  "question_end buf =
     (let pos = skip_qname buf 12 in (if pos < length buf \<and> buf ! pos = 0 then pos + 1 else pos) + 4)"

text \<open>Success, the records and the error text.\<close>

definition ParseResponse ::
  "ntop \<Rightarrow> bytes \<Rightarrow> DnsRecord list \<Rightarrow> string option \<Rightarrow> (string, bool \<times> DnsRecord list \<times> string option) exec" where
  "ParseResponse nt buf records err =
     (if length buf < 12 then Ok (False, records, map_option (\<lambda>_. ''response too short'') err)
      else ebind (parse_answers nt buf (unat (be16 (buf ! 6) (buf ! 7))) (question_end buf) records) (\<lambda>records'.
           Ok (True, records', err)))"

text \<open>
  \<open>Query\<close>: the configured name servers, the transaction number and the exchange with the first
  server (\<open>None\<close>: no socket; otherwise what was received, at most 512 bytes, empty on a timeout or an
  error).
\<close>

definition Query ::
  "ntop \<Rightarrow> string list \<Rightarrow> (string \<Rightarrow> bytes \<Rightarrow> bytes option) \<Rightarrow> u16 \<Rightarrow> string \<Rightarrow> u16 \<Rightarrow> DnsRecord list \<Rightarrow> string option \<Rightarrow>
   (string, bool \<times> DnsRecord list \<times> string option) exec" where
  "Query nt nameservers exchange txid name qtype records err =
     (case nameservers of
        [] \<Rightarrow> Ok (False, records, map_option (\<lambda>_. ''no nameservers configured'') err)
      | ns # _ \<Rightarrow>
          (case exchange ns (BuildQuery name qtype txid) of
             None \<Rightarrow> Ok (False, records, map_option (\<lambda>_. ''socket() failed'') err)
           | Some reply \<Rightarrow>
               if reply = [] then Ok (False, records, map_option (\<lambda>_. ''DNS query timed out or failed'') err)
               else ParseResponse nt (take 512 reply) records err))"

subsection \<open>QUIC headers\<close>

record QuicPacketHeader =
  long_header :: bool
  quic_version :: u32
  dest_cid :: u64
  src_cid :: u64
  packet_num :: u64

definition be_bytes_of :: "nat \<Rightarrow> 'a::len word \<Rightarrow> bytes" where
  "be_bytes_of n w = map (\<lambda>i. ucast (drop_bit (8 * i) w)) (rev [0..<n])"

definition be_word_of :: "bytes \<Rightarrow> 'a::len word" where
  "be_word_of bs = foldl (\<lambda>v b. push_bit 8 v OR ucast b) 0 bs"

definition SerializePacketHeader :: "QuicPacketHeader \<Rightarrow> bytes" where
  "SerializePacketHeader hdr =
     [if long_header hdr then 0xC0 else 0x40] @
     (if long_header hdr
      then be_bytes_of 4 (quic_version hdr) @ be_bytes_of 8 (dest_cid hdr) @ be_bytes_of 8 (src_cid hdr)
      else []) @
     be_bytes_of 4 (packet_num hdr)"

definition ParsePacketHeader :: "bytes \<Rightarrow> QuicPacketHeader \<Rightarrow> nat \<Rightarrow> (string, bool \<times> QuicPacketHeader \<times> nat) exec" where
  "ParsePacketHeader data hdr consumed =
     (if length data < 1 then Ok (False, hdr, consumed)
      else
        let hdr1 = hdr\<lparr>long_header := data ! 0 AND 0x80 \<noteq> 0\<rparr> in
        if long_header hdr1 then
          (if length data < 1 + 4 + 8 + 8 + 4 then Ok (False, hdr1, consumed)
           else ebind (mem_read 1 4 data) (\<lambda>v.
                ebind (mem_read 5 8 data) (\<lambda>d.
                ebind (mem_read 13 8 data) (\<lambda>s.
                ebind (mem_read 21 4 data) (\<lambda>n.
                Ok (True, hdr1\<lparr>quic_version := be_word_of v, dest_cid := be_word_of d, src_cid := be_word_of s,
                               packet_num := be_word_of n\<rparr>, 25))))))
        else
          (if length data < 1 + 4 then Ok (False, hdr1, consumed)
           else ebind (mem_read 1 4 data) (\<lambda>n. Ok (True, hdr1\<lparr>packet_num := be_word_of n\<rparr>, 5))))"

section \<open>QUIC round trip\<close>

lemma length_be_bytes_of [simp]: "length (be_bytes_of n w) = n"
  by (simp add: be_bytes_of_def)

lemma be_word_of_bytes: "be_word_of (be_bytes_of n w) = le_word (le_bytes n w)"
  by (simp only: be_word_of_def be_bytes_of_def be_fold be_bytes rev_rev_ident)

lemma le_word_le_bytes_take: "8 * n \<le> LENGTH('a::len) \<Longrightarrow> le_word (le_bytes n (w :: 'a word)) = take_bit (8 * n) w"
proof (rule bit_word_eqI)
  fix i assume n: "8 * n \<le> LENGTH('a)" and i: "i < LENGTH('a)"
  have d: "8 * (i div 8) + i mod 8 = i" by simp
  show "bit (le_word (le_bytes n w) :: 'a word) i \<longleftrightarrow> bit (take_bit (8 * n) w) i"
  proof (cases "i < 8 * n")
    case True
    then have "i div 8 < n" by linarith
    with True i d show ?thesis by (simp add: bit_le_word nth_le_bytes bit_ucast_iff bit_drop_bit_eq bit_take_bit_iff)
  next
    case False
    then have "\<not> i div 8 < n" by linarith
    with False show ?thesis by (simp add: bit_le_word bit_take_bit_iff)
  qed
qed

text \<open>
  Round trip of QUIC packet headers: the packet number comes back modulo 2^32, and a short
  header restores nothing else.
\<close>

theorem ParsePacketHeader_SerializePacketHeader:
  "ParsePacketHeader (SerializePacketHeader h @ rest) g c =
     Ok (True,
         (if long_header h then h else g\<lparr>long_header := False\<rparr>)\<lparr>packet_num := take_bit 32 (packet_num h)\<rparr>,
         length (SerializePacketHeader h))"
proof -
  have w: "be_word_of (be_bytes_of 4 (quic_version h)) = quic_version h" "be_word_of (be_bytes_of 8 (dest_cid h)) = dest_cid h"
    "be_word_of (be_bytes_of 8 (src_cid h)) = src_cid h" "be_word_of (be_bytes_of 4 (packet_num h)) = take_bit 32 (packet_num h)"
    by (simp_all add: be_word_of_bytes le_word_le_bytes_take)
  show ?thesis using w
    by (cases "long_header h"; cases h; cases g)
      (simp_all add: ParsePacketHeader_def SerializePacketHeader_def mem_read_def Let_def del: ebind_eq_Ok)
qed

section \<open>DNS replies\<close>




text \<open>A name server's reply: the question repeated, then address records that point back to its name.\<close>

definition a_answer :: "u32 \<times> bytes \<Rightarrow> bytes" where
  "a_answer a = [0xC0, 0x0C, 0, 1, 0, 1] @ put_u32 (fst a) @ [0, 4] @ snd a"

definition dns_reply :: "string \<Rightarrow> u16 \<Rightarrow> (u32 \<times> bytes) list \<Rightarrow> bytes" where
  "dns_reply name txid answers =
     (let n = of_nat (length answers) :: u16 in
      [ucast (drop_bit 8 txid), ucast txid, 0x81, 0x80, 0, 1, ucast (drop_bit 8 n), ucast n, 0, 0, 0, 0] @
      drop 12 (BuildQuery name 1 txid) @ concat (map a_answer answers))"

definition a_record :: "ntop \<Rightarrow> u32 \<times> bytes \<Rightarrow> DnsRecord" where
  "a_record nt a = \<lparr>rec_type = 1, rec_name = [], rec_value = ntop4 nt (snd a), ttl_sec = fst a\<rparr>"

lemma short_label_byte: "0 < n \<Longrightarrow> n < 64 \<Longrightarrow> (of_nat n :: byte) AND 0xC0 \<noteq> 0xC0 \<and> (of_nat n :: byte) \<noteq> 0 \<and> unat (of_nat n :: byte) = n"
proof -
  assume n: "0 < n" "n < 64"
  then have u: "unat (of_nat n :: byte) = n" by (simp add: unsigned_of_nat take_bit_nat_eq_self)
  have "\<not> bit (of_nat n :: byte) 6"
  proof -
    have "\<not> bit n 6" using n by (simp add: bit_iff_odd)
    then show ?thesis by (simp add: bit_of_nat_iff)
  qed
  moreover have "bit (0xC0 :: byte) 6" by simp
  ultimately have "(of_nat n :: byte) AND 0xC0 \<noteq> 0xC0" by (metis bit_and_iff)
  moreover have "(of_nat n :: byte) \<noteq> 0" using u n by (metis less_irrefl unsigned_0)
  ultimately show ?thesis using u by simp
qed

lemma skip_qname_labels:
  assumes "list_all (\<lambda>l. 0 < length l \<and> length l < 64) ls"
  shows "skip_qname (pre @ concat (map label_bytes ls) @ 0 # rest) (length pre) =
    length pre + length (concat (map label_bytes ls))"
  using assms
proof (induction ls arbitrary: pre)
  case Nil
  then show ?case by (simp add: skip_qname.simps)
next
  case (Cons l ls)
  let ?buf = "pre @ concat (map label_bytes (l # ls)) @ 0 # rest"
  have s: "(of_nat (length l) :: byte) AND 0xC0 \<noteq> 0xC0" "(of_nat (length l) :: byte) \<noteq> 0" "unat (of_nat (length l) :: byte) = length l"
    using short_label_byte [of "length l"] Cons.prems by auto
  have b: "?buf ! length pre = of_nat (length l)" "length pre < length ?buf" by (simp_all add: label_bytes_def)
  have "skip_qname ?buf (length pre) = skip_qname ?buf (length pre + length l + 1)"
    using s b by (subst skip_qname.simps) simp
  also have "\<dots> = skip_qname ((pre @ label_bytes l) @ concat (map label_bytes ls) @ 0 # rest) (length (pre @ label_bytes l))"
    by (simp add: label_bytes_def)
  also have "\<dots> = length (pre @ label_bytes l) + length (concat (map label_bytes ls))"
    using Cons.prems by (intro Cons.IH) simp
  finally show ?case by simp
qed

lemma parse_a_answers:
  assumes "list_all (\<lambda>a. length (snd a) = 4) as"
  shows "parse_answers nt (pre @ concat (map a_answer as)) (length as) (length pre) records =
    Ok (records @ map (a_record nt) as)"
  using assms
proof (induction as arbitrary: pre records)
  case (Cons a as)
  let ?buf = "pre @ concat (map a_answer (a # as))"
  obtain i0 i1 i2 i3 where ip: "snd a = [i0, i1, i2, i3]"
    using Cons.prems by (auto simp: length_Suc_conv numeral_eq_Suc)
  let ?h = "[0, 1, 0, 1] @ put_u32 (fst a) @ [0, 4]"
  have len: "length (a_answer a) = 16" by (simp add: a_answer_def put_u32_def ip)
  have st: "answer_start ?buf (length pre) = Ok (length pre + 2)"
    by (simp add: answer_start_def a_answer_def)
  have h: "mem_read (length pre + 2) 10 ?buf = (Ok ?h :: (string, bytes) exec)"
    by (simp add: mem_read_def a_answer_def put_u32_def ip)
  have v: "answer_value nt ?buf (length pre + 2 + 10) 1 4 = Ok (ntop4 nt (snd a))"
    by (simp add: answer_value_def mem_read_def a_answer_def put_u32_def ip)
  have w: "be16 (?h ! 0) (?h ! 1) = 1" "be16 (?h ! 8) (?h ! 9) = 4" "be32 (?h ! 4) (?h ! 5) (?h ! 6) (?h ! 7) = fst a"
    using be32_put_u32 [of "fst a"] by (simp_all add: be16_def put_u32_def)
  have "parse_answers nt ?buf (length (a # as)) (length pre) records =
      parse_answers nt ?buf (length as) (16 + length pre) (records @ [a_record nt a])"
    using st h v w len unfolding list.size(4) add_Suc_right add_0_right parse_answers.simps(2) Let_def st
    by (simp add: a_record_def del: ebind_eq_Ok)
  also have "\<dots> = parse_answers nt ((pre @ a_answer a) @ concat (map a_answer as)) (length as) (length (pre @ a_answer a)) (records @ [a_record nt a])"
    by (simp add: len add.commute)
  also have "\<dots> = Ok ((records @ [a_record nt a]) @ map (a_record nt) as)"
    using Cons.prems by (intro Cons.IH) simp
  finally show ?case by simp
qed simp

text \<open>
  A reply that repeats the client's own question and answers it with address records is read
  completely: one record per answer, in order, with its address and time to live.
\<close>

theorem ParseResponse_reply:
  assumes "list_all (\<lambda>l. 0 < length l \<and> length l < 64) (getlines (CHR ''.'') name)"
    and "list_all (\<lambda>a. length (snd a) = 4) as" "length as < 2 ^ 16"
  shows "ParseResponse nt (dns_reply name txid as) records err = Ok (True, records @ map (a_record nt) as, err)"
proof -
  let ?n = "of_nat (length as) :: u16"
  define hd where "hd = [ucast (drop_bit 8 txid), ucast txid, 0x81, 0x80, 0, 1, ucast (drop_bit 8 ?n), ucast ?n, 0, 0, 0, 0 :: byte]"
  let ?q = "concat (map label_bytes (getlines (CHR ''.'') name))"
  have d: "dns_reply name txid as = hd @ ?q @ 0 # [0, 1, 0, 1] @ concat (map a_answer as)"
    by (simp add: dns_reply_def BuildQuery_def Let_def hd_def)
  have hl: "length hd = 12" by (simp add: hd_def)
  have "be16 (ucast (drop_bit 8 ?n)) (ucast ?n) = ?n"
    unfolding be16_def by (rule bit_word_eqI) (auto simp: bit_simps not_less)
  moreover have "unat ?n = length as" using assms(3) by (simp add: unsigned_of_nat take_bit_nat_eq_self)
  ultimately have n: "unat (be16 (dns_reply name txid as ! 6) (dns_reply name txid as ! 7)) = length as"
    by (simp add: d hd_def)
  have "skip_qname (dns_reply name txid as) 12 = 12 + length ?q"
    using skip_qname_labels [OF assms(1), of hd "[0, 1, 0, 1] @ concat (map a_answer as)"] by (simp add: d hl)
  then have e: "question_end (dns_reply name txid as) = length (hd @ ?q @ [0, 0, 1, 0, 1])"
    by (simp add: question_end_def Let_def d hl nth_append)
  have "parse_answers nt (dns_reply name txid as) (length as) (question_end (dns_reply name txid as)) records =
      Ok (records @ map (a_record nt) as)"
    using parse_a_answers [OF assms(2), of nt "hd @ ?q @ [0, 0, 1, 0, 1]" records] unfolding e by (simp add: d)
  then show ?thesis using n by (simp add: ParseResponse_def del: ebind_eq_Ok) (simp add: d hl)
qed

theorem ParseResponse_reply_witness:
  "ParseResponse \<lparr>ntop4 = \<lambda>_. ''1.2.3.4'', ntop6 = \<lambda>_. []\<rparr> (dns_reply ''a.bc'' 7 [(60, [1, 2, 3, 4])]) [] None =
   Ok (True, [\<lparr>rec_type = 1, rec_name = [], rec_value = ''1.2.3.4'', ttl_sec = 60\<rparr>], None)"
  using ParseResponse_reply [of "''a.bc''" "[(60, [1, 2, 3, 4])]" "\<lparr>ntop4 = \<lambda>_. ''1.2.3.4'', ntop6 = \<lambda>_. []\<rparr>" 7 "[]" None]
  by (simp add: a_record_def)

end
