(* ===== verification/FluxInput.thy ===== *)
theory FluxInput
  imports XER_Prelude
begin

text \<open>
  Line input of the Flux console, \<^verbatim>\<open>src/src/flux\<close>: command history
  (\<open>history/command_history.cc\<close>), command-line parsing (\<open>input/command_parser.cc\<close>), key bindings
  (\<open>input/key_binding_manager.cc\<close>), decoding of terminal input
  (\<open>terminal/terminal_input_handler.cc\<close>) and the input manager that drives them
  (\<open>input/input_manager.cc\<close>). Every object is a record that operations return updated; a vector
  element outside the bounds is \<open>Undef\<close>.
\<close>

section \<open>Definitions\<close>

definition ch_escape :: char where "ch_escape = CHR 0x1B"
definition ch_etx :: char where "ch_etx = CHR 0x03"
definition ch_bs :: char where "ch_bs = CHR 0x08"
definition ch_del :: char where "ch_del = CHR 0x7F"

lemmas key_defs = ch_escape_def ch_etx_def ch_bs_def ch_del_def ch_defs

definition StartsWith :: "string \<Rightarrow> string \<Rightarrow> bool" where
  "StartsWith s prefix \<longleftrightarrow> length prefix \<le> length s \<and> take (length prefix) s = prefix"

subsection \<open>Command history\<close>

record CommandHistory =
  max_entries :: nat
  entries :: "string list"
  cursor :: nat

definition Hist_Trim :: "string \<Rightarrow> string" where
  "Hist_Trim s = rev (dropWhile c_isspace (rev (dropWhile c_isspace s)))"

definition new_history :: "nat \<Rightarrow> CommandHistory" where
  "new_history n = \<lparr>max_entries = (if n = 0 then 1 else n), entries = [], cursor = 0\<rparr>"

definition ResetCursor :: "CommandHistory \<Rightarrow> CommandHistory" where
  "ResetCursor h = h\<lparr>cursor := length (entries h)\<rparr>"

definition Hist_Push :: "string \<Rightarrow> CommandHistory \<Rightarrow> CommandHistory" where
  "Hist_Push s h =
     (let command = Hist_Trim s in
      if command = [] then ResetCursor h
      else if entries h \<noteq> [] \<and> last (entries h) = command then ResetCursor h
      else
        let pushed = entries h @ [command] in
        ResetCursor (h\<lparr>entries := (if length pushed > max_entries h then tl pushed else pushed)\<rparr>))"

definition Hist_Clear :: "CommandHistory \<Rightarrow> CommandHistory" where
  "Hist_Clear h = ResetCursor (h\<lparr>entries := []\<rparr>)"

definition Hist_Latest :: "CommandHistory \<Rightarrow> string" where
  "Hist_Latest h = (if entries h = [] then [] else last (entries h))"

definition Hist_Previous :: "CommandHistory \<Rightarrow> (string, string \<times> CommandHistory) exec" where
  "Hist_Previous h =
     (if entries h = [] then Ok ([], h)
      else if cursor h = 0 then Ok (hd (entries h), h)
      else ebind (rd (entries h) (cursor h - 1)) (\<lambda>e. Ok (e, h\<lparr>cursor := cursor h - 1\<rparr>)))"

definition Hist_Next :: "CommandHistory \<Rightarrow> (string, string \<times> CommandHistory) exec" where
  "Hist_Next h =
     (if entries h = [] then Ok ([], h)
      else if cursor h \<ge> length (entries h) then Ok ([], h)
      else let h' = h\<lparr>cursor := cursor h + 1\<rparr> in
        if cursor h' < length (entries h') then ebind (rd (entries h') (cursor h')) (\<lambda>e. Ok (e, h'))
        else Ok ([], h'))"

fun take_matching :: "string \<Rightarrow> nat \<Rightarrow> string list \<Rightarrow> string list \<Rightarrow> string list" where
  "take_matching prefix limit [] matches = matches"
| "take_matching prefix limit (e # es) matches =
     (if StartsWith e prefix then
        (let matches' = matches @ [e] in
         if limit > 0 \<and> length matches' \<ge> limit then matches' else take_matching prefix limit es matches')
      else take_matching prefix limit es matches)"

definition MatchingPrefix :: "CommandHistory \<Rightarrow> string \<Rightarrow> nat \<Rightarrow> string list" where
  "MatchingPrefix h prefix limit = take_matching prefix limit (rev (entries h)) []"

subsection \<open>Command lines\<close>

record ParsedCommand =
  pc_raw :: string
  pc_name :: string
  pc_args :: "string list"
  pc_options :: "string \<rightharpoonup> string"
  pc_valid :: bool

definition HasOption :: "ParsedCommand \<Rightarrow> string \<Rightarrow> bool" where
  "HasOption p k \<longleftrightarrow> pc_options p k \<noteq> None"

definition OptionValue :: "ParsedCommand \<Rightarrow> string \<Rightarrow> string" where
  "OptionValue p k = (case pc_options p k of None \<Rightarrow> [] | Some v \<Rightarrow> v)"

definition TrimDashPrefix :: "string \<Rightarrow> string" where
  "TrimDashPrefix s = dropWhile (\<lambda>c. c = CHR ''-'') s"

text \<open>The loop of the tokenizer: finished tokens, the current one, the open quote (NUL for none), an escape.\<close>

fun tokenize_line :: "string list \<Rightarrow> string \<Rightarrow> char \<Rightarrow> bool \<Rightarrow> string \<Rightarrow> string list" where
  "tokenize_line tokens current quot escape [] =
     (let current' = (if escape then current @ [ch_backslash] else current)
      in if current' \<noteq> [] then tokens @ [current'] else tokens)"
| "tokenize_line tokens current quot escape (ch # cs) =
     (if escape then tokenize_line tokens (current @ [ch]) quot False cs
      else if ch = ch_backslash then tokenize_line tokens current quot True cs
      else if quot \<noteq> ch_nul then
        (if ch = quot then tokenize_line tokens current ch_nul False cs
         else tokenize_line tokens (current @ [ch]) quot False cs)
      else if ch = ch_squote \<or> ch = ch_quote then tokenize_line tokens current ch False cs
      else if c_isspace ch then
        (if current \<noteq> [] then tokenize_line (tokens @ [current]) [] quot False cs
         else tokenize_line tokens current quot False cs)
      else tokenize_line tokens (current @ [ch]) quot False cs)"

definition TokenizeCommandLine :: "string \<Rightarrow> string list" where
  "TokenizeCommandLine input = tokenize_line [] [] ch_nul False input"

fun set_flags :: "string \<Rightarrow> (string \<rightharpoonup> string) \<Rightarrow> (string \<rightharpoonup> string)" where
  "set_flags [] opts = opts"
| "set_flags (c # cs) opts = set_flags cs (opts([c] \<mapsto> ''true''))"

fun parse_tokens :: "string list \<Rightarrow> ParsedCommand \<Rightarrow> ParsedCommand" where
  "parse_tokens [] p = p"
| "parse_tokens (token # rest) p =
     (if StartsWith token ''--'' \<and> length token > 2 then
        (if CHR ''='' \<in> set token then
           parse_tokens rest (p\<lparr>pc_options := (pc_options p)
             (TrimDashPrefix (takeWhile (\<lambda>c. c \<noteq> CHR ''='') token) \<mapsto> tl (dropWhile (\<lambda>c. c \<noteq> CHR ''='') token))\<rparr>)
         else
           let key = TrimDashPrefix token in
           if rest \<noteq> [] \<and> \<not> StartsWith (hd rest) ''-''
           then parse_tokens (tl rest) (p\<lparr>pc_options := (pc_options p)(key \<mapsto> hd rest)\<rparr>)
           else parse_tokens rest (p\<lparr>pc_options := (pc_options p)(key \<mapsto> ''true'')\<rparr>))
      else if StartsWith token ''-'' \<and> length token > 1 then
        parse_tokens rest (p\<lparr>pc_options := set_flags (tl token) (pc_options p)\<rparr>)
      else parse_tokens rest (p\<lparr>pc_args := pc_args p @ [token]\<rparr>))"

definition no_command :: ParsedCommand where
  "no_command = \<lparr>pc_raw = [], pc_name = [], pc_args = [], pc_options = Map.empty, pc_valid = False\<rparr>"

definition ParseCommandLine :: "string \<Rightarrow> ParsedCommand" where
  "ParseCommandLine input =
     (let parsed = no_command\<lparr>pc_raw := input\<rparr> in
      case TokenizeCommandLine input of
        [] \<Rightarrow> parsed
      | t # ts \<Rightarrow> parse_tokens ts (parsed\<lparr>pc_name := t, pc_valid := True\<rparr>))"

subsection \<open>Key bindings\<close>

record KeyBinding =
  kb_sequence :: string
  kb_command :: string
  kb_description :: string

definition HasBinding :: "KeyBinding list \<Rightarrow> string \<Rightarrow> bool" where
  "HasBinding bs s \<longleftrightarrow> list_ex (\<lambda>b. kb_sequence b = s) bs"

definition CommandFor :: "KeyBinding list \<Rightarrow> string \<Rightarrow> string" where
  "CommandFor bs s = (case find (\<lambda>b. kb_sequence b = s) bs of Some b \<Rightarrow> kb_command b | None \<Rightarrow> [])"

definition Binding_Register :: "string \<Rightarrow> string \<Rightarrow> string \<Rightarrow> KeyBinding list \<Rightarrow> string + KeyBinding list" where
  "Binding_Register s command description bs =
     (if s = [] then Inl ''Key binding sequence must not be empty''
      else if command = [] then Inl ''Key binding command must not be empty''
      else if HasBinding bs s then Inl ''Key binding already registered''
      else Inr (bs @ [\<lparr>kb_sequence = s, kb_command = command, kb_description = description\<rparr>]))"

subsection \<open>Terminal input\<close>

datatype InputEventKind =
  kUnknown | kTextEvent | kSubmit | kInterrupt | kBackspace | kArrowUp | kArrowDown | kArrowLeft | kArrowRight | kEscape

record InputEvent =
  ev_kind :: InputEventKind
  ev_text :: string
  ev_raw :: string

definition EscapeSequenceLength :: "string \<Rightarrow> nat" where
  "EscapeSequenceLength s =
     (if s = [] \<or> hd s \<noteq> ch_escape then 1
      else if 2 < length s \<and> s ! 1 = CHR ''['' \<and> s ! 2 \<in> {CHR ''A'', CHR ''B'', CHR ''C'', CHR ''D''} then 3
      else 1)"

definition sequence_kind :: "string \<Rightarrow> InputEventKind" where
  "sequence_kind s =
     (if s = [] then kUnknown
      else if s = [ch_newline] \<or> s = [ch_return] then kSubmit
      else if s = [ch_etx] then kInterrupt
      else if s = [ch_bs] \<or> s = [ch_del] then kBackspace
      else if s = [ch_escape] then kEscape
      else if s = ch_escape # ''[A'' then kArrowUp
      else if s = ch_escape # ''[B'' then kArrowDown
      else if s = ch_escape # ''[C'' then kArrowRight
      else if s = ch_escape # ''[D'' then kArrowLeft
      else kTextEvent)"

definition ParseInputSequence :: "string \<Rightarrow> InputEvent" where
  "ParseInputSequence s =
     \<lparr>ev_kind = sequence_kind s, ev_text = (if sequence_kind s = kTextEvent then s else []), ev_raw = s\<rparr>"

definition flush_text :: "string \<Rightarrow> InputEvent list" where
  "flush_text pending = (if pending = [] then [] else [\<lparr>ev_kind = kTextEvent, ev_text = pending, ev_raw = pending\<rparr>])"

definition IsPrintableByte :: "char \<Rightarrow> bool" where
  "IsPrintableByte c \<longleftrightarrow> code c \<ge> 32 \<and> c \<noteq> ch_del"

definition is_control_key :: "char \<Rightarrow> bool" where
  "is_control_key c \<longleftrightarrow> c = ch_newline \<or> c = ch_return \<or> c = ch_bs \<or> c = ch_del \<or> c = ch_etx"

lemma EscapeSequenceLength_pos: "0 < EscapeSequenceLength s"
  by (simp add: EscapeSequenceLength_def)

function input_loop :: "string \<Rightarrow> string \<Rightarrow> InputEvent list" where
  "input_loop [] pending = flush_text pending"
| "input_loop (c # cs) pending =
     (if c = ch_escape then
        (let n = EscapeSequenceLength (c # cs) in
         flush_text pending @ ParseInputSequence (take n (c # cs)) # input_loop (drop n (c # cs)) [])
      else if is_control_key c then flush_text pending @ ParseInputSequence [c] # input_loop cs []
      else if IsPrintableByte c \<or> c = ch_tab then input_loop cs (pending @ [c])
      else input_loop cs pending)"
  by pat_completeness auto
termination
  by (relation "measure (\<lambda>(s, p). length s)") (auto simp: EscapeSequenceLength_pos)

definition ParseInputBuffer :: "string \<Rightarrow> InputEvent list" where
  "ParseInputBuffer buffer = input_loop buffer []"

definition IsCommandSubmission :: "InputEvent \<Rightarrow> bool" where
  "IsCommandSubmission e \<longleftrightarrow> ev_kind e = kSubmit"

subsection \<open>Input manager\<close>

datatype InputDispatchKind = kCommand | kBinding | kInterruptDispatch | kHistoryRecall

record InputDispatch =
  dp_kind :: InputDispatchKind
  dp_raw :: string
  dp_buffer :: string
  dp_command :: ParsedCommand
  dp_binding :: string

record InputManager =
  history :: CommandHistory
  bindings :: "KeyBinding list"
  current_buffer :: string

definition new_manager :: "nat \<Rightarrow> InputManager" where
  "new_manager history_limit = \<lparr>history = new_history history_limit, bindings = [], current_buffer = []\<rparr>"

definition Line_IsBlank :: "string \<Rightarrow> bool" where
  "Line_IsBlank s \<longleftrightarrow> list_all c_isspace s"

definition ClearCurrentBuffer :: "InputManager \<Rightarrow> InputManager" where
  "ClearCurrentBuffer m = m\<lparr>current_buffer := [], history := ResetCursor (history m)\<rparr>"

definition dispatch :: "InputDispatchKind \<Rightarrow> InputEvent \<Rightarrow> string \<Rightarrow> InputDispatch" where
  "dispatch k e buffer = \<lparr>dp_kind = k, dp_raw = ev_raw e, dp_buffer = buffer, dp_command = no_command, dp_binding = []\<rparr>"

definition recall ::
  "(CommandHistory \<Rightarrow> (string, string \<times> CommandHistory) exec) \<Rightarrow> InputEvent \<Rightarrow> InputManager \<Rightarrow>
   (string, InputManager \<times> InputDispatch list) exec" where
  "recall move e m =
     (if entries (history m) = [] then Ok (m, [])
      else ebind (move (history m)) (\<lambda>(s, h).
        Ok (m\<lparr>history := h, current_buffer := s\<rparr>, [dispatch kHistoryRecall e s])))"

definition handle_event :: "InputEvent \<Rightarrow> InputManager \<Rightarrow> (string, InputManager \<times> InputDispatch list) exec" where
  "handle_event e m =
     (case ev_kind e of
        kTextEvent \<Rightarrow> Ok (m\<lparr>current_buffer := current_buffer m @ ev_text e\<rparr>, [])
      | kBackspace \<Rightarrow> Ok (m\<lparr>current_buffer := butlast (current_buffer m)\<rparr>, [])
      | kSubmit \<Rightarrow>
          if \<not> Line_IsBlank (current_buffer m) then
            Ok (ClearCurrentBuffer (m\<lparr>history := Hist_Push (current_buffer m) (history m)\<rparr>),
                [(dispatch kCommand e (current_buffer m))\<lparr>dp_command := ParseCommandLine (current_buffer m)\<rparr>])
          else Ok (ClearCurrentBuffer m, [])
      | kInterrupt \<Rightarrow> Ok (m, [dispatch kInterruptDispatch e (current_buffer m)])
      | kArrowUp \<Rightarrow> recall Hist_Previous e m
      | kArrowDown \<Rightarrow> recall Hist_Next e m
      | _ \<Rightarrow>
          if HasBinding (bindings m) (ev_raw e)
          then Ok (m, [(dispatch kBinding e (current_buffer m))\<lparr>dp_binding := CommandFor (bindings m) (ev_raw e)\<rparr>])
          else Ok (m, []))"

fun handle_events :: "InputEvent list \<Rightarrow> InputManager \<Rightarrow> (string, InputManager \<times> InputDispatch list) exec" where
  "handle_events [] m = Ok (m, [])"
| "handle_events (e # es) m =
     ebind (handle_event e m) (\<lambda>(m1, ds). ebind (handle_events es m1) (\<lambda>(m2, ds'). Ok (m2, ds @ ds')))"

definition Manager_Feed :: "string \<Rightarrow> InputManager \<Rightarrow> (string, InputManager \<times> InputDispatch list) exec" where
  "Manager_Feed input m = handle_events (ParseInputBuffer input) m"

section \<open>History\<close>

text \<open>
  What the input manager relies on: every operation keeps the history well formed, and moving
  through a well-formed history stays inside it.
\<close>

locale line_history =
  fixes inv :: "'h \<Rightarrow> bool"
    and push :: "string \<Rightarrow> 'h \<Rightarrow> 'h"
    and reset :: "'h \<Rightarrow> 'h"
    and prev :: "'h \<Rightarrow> (string, string \<times> 'h) exec"
    and nxt :: "'h \<Rightarrow> (string, string \<times> 'h) exec"
  assumes inv_push: "inv h \<Longrightarrow> inv (push s h)"
    and inv_reset: "inv h \<Longrightarrow> inv (reset h)"
    and prev_total: "inv h \<Longrightarrow> \<exists>s h'. prev h = Ok (s, h') \<and> inv h'"
    and nxt_total: "inv h \<Longrightarrow> \<exists>s h'. nxt h = Ok (s, h') \<and> inv h'"
begin

lemma move_total: "inv h \<Longrightarrow> move = prev \<or> move = nxt \<Longrightarrow> \<exists>s h'. move h = Ok (s, h') \<and> inv h'"
  using prev_total nxt_total by blast

lemma inv_submit: "inv h \<Longrightarrow> inv (reset (if b then push s h else h))"
  using inv_push inv_reset by simp

end

definition hist_ok :: "CommandHistory \<Rightarrow> bool" where
  "hist_ok h \<longleftrightarrow> 1 \<le> max_entries h \<and> length (entries h) \<le> max_entries h \<and> cursor h \<le> length (entries h) \<and>
     list_all (\<lambda>e. e \<noteq> [] \<and> Hist_Trim e = e) (entries h) \<and> distinct_adj (entries h)"

lemma Hist_Trim_ends:
  assumes "Hist_Trim s \<noteq> []"
  shows "\<not> c_isspace (hd (Hist_Trim s)) \<and> \<not> c_isspace (last (Hist_Trim s))"
proof
  let ?t = "dropWhile c_isspace s" let ?r = "dropWhile c_isspace (rev ?t)"
  from assms have r: "?r \<noteq> []" by (simp only: Hist_Trim_def) auto
  then show "\<not> c_isspace (last (Hist_Trim s))"
    unfolding Hist_Trim_def last_rev by (rule hd_dropWhile)
  have "?t = rev ?r @ rev (takeWhile c_isspace (rev ?t))"
    by (metis rev_append rev_rev_ident takeWhile_dropWhile_id)
  then have "hd ?t = hd (rev ?r)" using r by (metis hd_append rev_is_Nil_conv)
  moreover have "?t \<noteq> []" using r by (metis dropWhile.simps(1) rev.simps(1))
  ultimately show "\<not> c_isspace (hd (Hist_Trim s))" unfolding Hist_Trim_def by (metis hd_dropWhile)
qed

lemma Hist_Trim_id: "s \<noteq> [] \<Longrightarrow> \<not> c_isspace (hd s) \<Longrightarrow> \<not> c_isspace (last s) \<Longrightarrow> Hist_Trim s = s"
proof -
  assume s: "s \<noteq> []" "\<not> c_isspace (hd s)" "\<not> c_isspace (last s)"
  then have "dropWhile c_isspace s = s" by (cases s) auto
  moreover have "dropWhile c_isspace (rev s) = rev s" using s by (cases s rule: rev_cases) auto
  ultimately show ?thesis by (simp add: Hist_Trim_def)
qed

lemma Hist_Trim_idem [simp]: "Hist_Trim (Hist_Trim s) = Hist_Trim s"
proof (cases "Hist_Trim s = []")
  case True
  have "Hist_Trim [] = []" by (simp add: Hist_Trim_def)
  with True show ?thesis by simp
next
  case False
  with Hist_Trim_ends [OF False] show ?thesis by (intro Hist_Trim_id) auto
qed

lemma hist_ok_new: "hist_ok (new_history n)"
  by (simp add: hist_ok_def new_history_def)

lemma hist_ok_ResetCursor: "hist_ok h \<Longrightarrow> hist_ok (ResetCursor h)"
  by (simp add: hist_ok_def ResetCursor_def)

lemma hist_ok_Push: 
  assumes "hist_ok h"
  shows "hist_ok (Hist_Push s h)"
proof (cases "Hist_Trim s = [] \<or> (entries h \<noteq> [] \<and> last (entries h) = Hist_Trim s)")
  case True
  then show ?thesis using hist_ok_ResetCursor [OF assms] by (auto simp: Hist_Push_def Let_def)
next
  case False
  let ?p = "entries h @ [Hist_Trim s]"
  have p: "list_all (\<lambda>e. e \<noteq> [] \<and> Hist_Trim e = e) ?p" "distinct_adj ?p"
    using assms False by (auto simp: hist_ok_def distinct_adj_append_iff)
  then have "list_all (\<lambda>e. e \<noteq> [] \<and> Hist_Trim e = e) (tl ?p)" "distinct_adj (tl ?p)"
    by (cases ?p; simp add: distinct_adj_ConsD)+
  with p False assms show ?thesis by (auto simp: Hist_Push_def Let_def hist_ok_def ResetCursor_def)
qed

lemma hist_ok_Previous: "hist_ok h \<Longrightarrow> \<exists>s h'. Hist_Previous h = Ok (s, h') \<and> hist_ok h'"
  by (auto simp: Hist_Previous_def hist_ok_def rd_def)

lemma hist_ok_Next: "hist_ok h \<Longrightarrow> \<exists>s h'. Hist_Next h = Ok (s, h') \<and> hist_ok h'"
  by (auto simp: Hist_Next_def hist_ok_def rd_def Let_def)

interpretation hist: line_history hist_ok Hist_Push ResetCursor Hist_Previous Hist_Next
  by unfold_locales (rule hist_ok_Push hist_ok_ResetCursor hist_ok_Previous hist_ok_Next; assumption)+

section \<open>Sessions\<close>

definition mgr_ok :: "InputManager \<Rightarrow> bool" where
  "mgr_ok m \<longleftrightarrow> hist_ok (history m) \<and> distinct (map kb_sequence (bindings m))"

lemma recall_ok:
  assumes "mgr_ok m" "move = Hist_Previous \<or> move = Hist_Next"
  shows "\<exists>m' ds. recall move e m = Ok (m', ds) \<and> mgr_ok m' \<and> bindings m' = bindings m"
proof -
  obtain s h where "move (history m) = Ok (s, h)" "hist_ok h"
    using hist.move_total [of "history m" move] assms by (auto simp: mgr_ok_def)
  with assms show ?thesis by (simp add: recall_def mgr_ok_def del: ebind_eq_Ok)
qed

lemma handle_event_ok:
  assumes "mgr_ok m"
  shows "\<exists>m' ds. handle_event e m = Ok (m', ds) \<and> mgr_ok m' \<and> bindings m' = bindings m"
proof (cases "ev_kind e")
  case kSubmit
  with assms hist.inv_submit [of "history m" "\<not> Line_IsBlank (current_buffer m)" "current_buffer m"] show ?thesis
    by (auto simp: handle_event_def mgr_ok_def ClearCurrentBuffer_def)
qed (use assms recall_ok [OF assms] in \<open>auto simp: handle_event_def mgr_ok_def\<close>)

lemma handle_events_ok:
  "mgr_ok m \<Longrightarrow> \<exists>m' ds. handle_events es m = Ok (m', ds) \<and> mgr_ok m' \<and> bindings m' = bindings m"
proof (induction es arbitrary: m)
  case (Cons e es)
  obtain m1 ds where 1: "handle_event e m = Ok (m1, ds)" "mgr_ok m1" "bindings m1 = bindings m"
    using handle_event_ok [OF Cons.prems] by blast
  obtain m2 ds' where "handle_events es m1 = Ok (m2, ds')" "mgr_ok m2" "bindings m2 = bindings m1"
    using Cons.IH [OF 1(2)] by blast
  with 1 show ?case by (simp del: ebind_eq_Ok)
qed simp

text \<open>A session: registering bindings and feeding input, in any order.\<close>

datatype console_step = Type string | Bind string string

fun session :: "console_step list \<Rightarrow> InputManager \<Rightarrow> (string, InputManager \<times> InputDispatch list) exec" where
  "session [] m = Ok (m, [])"
| "session (Type s # steps) m =
     ebind (Manager_Feed s m) (\<lambda>(m1, ds). ebind (session steps m1) (\<lambda>(m2, ds'). Ok (m2, ds @ ds')))"
| "session (Bind s c # steps) m =
     session steps (case Binding_Register s c [] (bindings m) of Inl _ \<Rightarrow> m | Inr bs \<Rightarrow> m\<lparr>bindings := bs\<rparr>)"

lemma Register_distinct:
  "distinct (map kb_sequence bs) \<Longrightarrow> Binding_Register s c d bs = Inr bs' \<Longrightarrow> distinct (map kb_sequence bs')"
  by (auto simp: Binding_Register_def HasBinding_def list_ex_iff split: if_splits)

lemma session_ok: "mgr_ok m \<Longrightarrow> \<exists>m' ds. session steps m = Ok (m', ds) \<and> mgr_ok m'"
proof (induction steps m rule: session.induct)
  case (2 s steps m)
  obtain m1 ds where 1: "Manager_Feed s m = Ok (m1, ds)" "mgr_ok m1"
    using handle_events_ok [OF 2(2)] unfolding Manager_Feed_def by blast
  then obtain m2 ds' where "session steps m1 = Ok (m2, ds')" "mgr_ok m2" using 2(1) [of "(m1, ds)" m1 ds] by blast
  with 1 show ?case by (simp del: ebind_eq_Ok)
next
  case (3 s c steps m)
  have "mgr_ok (case Binding_Register s c [] (bindings m) of Inl _ \<Rightarrow> m | Inr bs \<Rightarrow> m\<lparr>bindings := bs\<rparr>)"
    using 3(2) Register_distinct by (auto simp: mgr_ok_def split: sum.splits)
  with 3 show ?case by simp
qed simp

text \<open>
  C19. Every console session from a new input manager, whatever is typed and bound, runs without
  undefined behaviour and leaves a history that respects its limit, holds no blank, untrimmed or
  immediately repeated entry and has its cursor inside, and bindings with distinct sequences.
\<close>

theorem session_keeps_history:
  "\<exists>m ds. session steps (new_manager limit) = Ok (m, ds) \<and> hist_ok (history m) \<and>
     distinct (map kb_sequence (bindings m))"
proof -
  have "mgr_ok (new_manager limit)" by (simp add: mgr_ok_def new_manager_def hist_ok_new)
  from session_ok [OF this] show ?thesis by (auto simp: mgr_ok_def)
qed

section \<open>Submitting and recalling a line\<close>

lemma input_loop_printable:
  "list_all (\<lambda>c. IsPrintableByte c \<or> c = ch_tab) line \<Longrightarrow> input_loop (line @ rest) pending = input_loop rest (pending @ line)"
proof (induction line arbitrary: pending)
  case (Cons c line)
  then have "c \<noteq> ch_escape" "\<not> is_control_key c"
    by (auto simp: IsPrintableByte_def is_control_key_def key_defs)
  with Cons show ?case by simp
qed simp

lemma Hist_Trim_not_blank: "\<not> Line_IsBlank s \<Longrightarrow> Hist_Trim s \<noteq> []"
proof
  assume "\<not> Line_IsBlank s" "Hist_Trim s = []"
  then have "dropWhile c_isspace (rev (dropWhile c_isspace s)) = []" by (simp only: Hist_Trim_def rev_is_Nil_conv)
  then have "c_isspace x" if "x \<in> set (dropWhile c_isspace s)" for x
    using that by (metis dropWhile_eq_Nil_conv set_rev)
  moreover have "c_isspace x" if "x \<in> set (takeWhile c_isspace s)" for x using that by (rule set_takeWhileD [THEN conjunct2])
  ultimately have "\<forall>x\<in>set s. c_isspace x" by (metis Un_iff set_append takeWhile_dropWhile_id)
  with \<open>\<not> Line_IsBlank s\<close> show False by (simp add: Line_IsBlank_def list_all_iff)
qed

lemma Hist_Push_last:
  assumes "hist_ok h" "Hist_Trim s \<noteq> []"
  shows "entries (Hist_Push s h) \<noteq> [] \<and> last (entries (Hist_Push s h)) = Hist_Trim s"
proof -
  have "1 \<le> max_entries h" using assms by (simp add: hist_ok_def)
  then have "tl (entries h @ [Hist_Trim s]) \<noteq> []" if "length (entries h @ [Hist_Trim s]) > max_entries h"
    using that by (cases "entries h") auto
  then show ?thesis using assms(2) by (cases "entries h") (auto simp: Hist_Push_def Let_def ResetCursor_def)
qed

lemma Previous_after_reset:
  "entries h \<noteq> [] \<Longrightarrow> Hist_Previous (ResetCursor h) = Ok (last (entries h), h\<lparr>cursor := length (entries h) - 1\<rparr>)"
  by (simp add: Hist_Previous_def ResetCursor_def last_conv_nth)

text \<open>
  A typed line that is not blank, followed by Enter, is dispatched as one command, parsed from
  exactly that line; the arrow key then brings back its trimmed text.
\<close>

theorem Manager_submit_recall:
  assumes "mgr_ok m" "current_buffer m = []" "\<not> Line_IsBlank line"
    and "list_all (\<lambda>c. IsPrintableByte c \<or> c = ch_tab) line"
  shows "\<exists>m' c r. Manager_Feed (line @ ch_newline # ch_escape # ''[A'') m = Ok (m', [c, r]) \<and>
    dp_kind c = kCommand \<and> dp_command c = ParseCommandLine line \<and> dp_buffer c = line \<and>
    dp_kind r = kHistoryRecall \<and> dp_buffer r = Hist_Trim line \<and> current_buffer m' = Hist_Trim line"
proof -
  have l: "line \<noteq> []" using assms(3) by (auto simp: Line_IsBlank_def)
  let ?t = "\<lparr>ev_kind = kTextEvent, ev_text = line, ev_raw = line\<rparr>"
  let ?s = "\<lparr>ev_kind = kSubmit, ev_text = [], ev_raw = [ch_newline]\<rparr>"
  let ?u = "\<lparr>ev_kind = kArrowUp, ev_text = [], ev_raw = ch_escape # ''[A''\<rparr>"
  have k: "EscapeSequenceLength (ch_escape # ''[A'') = 3" by (simp add: EscapeSequenceLength_def)
  have "input_loop (ch_newline # ch_escape # ''[A'') line =
      flush_text line @ [ParseInputSequence [ch_newline], ParseInputSequence (ch_escape # ''[A'')]"
    using k by (simp add: is_control_key_def key_defs flush_text_def)
  then have e: "ParseInputBuffer (line @ ch_newline # ch_escape # ''[A'') = [?t, ?s, ?u]"
    using input_loop_printable [OF assms(4)] l
    by (simp add: ParseInputBuffer_def flush_text_def ParseInputSequence_def sequence_kind_def key_defs)
  define h where "h = Hist_Push line (history m)"
  have h: "entries h \<noteq> []" "last (entries h) = Hist_Trim line"
    using Hist_Push_last [of "history m" line] Hist_Trim_not_blank [OF assms(3)] assms(1) by (auto simp: h_def mgr_ok_def)
  have "entries (ResetCursor h) = entries h" by (simp add: ResetCursor_def)
  then show ?thesis unfolding Manager_Feed_def e
    using assms(2,3) h Previous_after_reset [OF h(1)]
    by (simp add: handle_event_def recall_def ClearCurrentBuffer_def dispatch_def h_def [symmetric] del: ebind_eq_Ok)
qed

theorem Manager_submit_recall_witness:
  "\<exists>m' c r. Manager_Feed ('' ls'' @ ch_newline # ch_escape # ''[A'') (new_manager 3) = Ok (m', [c, r]) \<and>
    dp_kind c = kCommand \<and> dp_command c = ParseCommandLine '' ls'' \<and> dp_buffer c = '' ls'' \<and>
    dp_kind r = kHistoryRecall \<and> dp_buffer r = ''ls'' \<and> current_buffer m' = ''ls''"
  using Manager_submit_recall [of "new_manager 3" "'' ls''"] hist_ok_new [of 3]
  by (simp add: mgr_ok_def new_manager_def Line_IsBlank_def IsPrintableByte_def key_defs c_isspace_def Hist_Trim_def)

section \<open>Command lines\<close>

text \<open>A token in double quotes, with quotes and backslashes escaped, and a line of such tokens.\<close>

definition quote_arg :: "string \<Rightarrow> string" where
  "quote_arg s = ch_quote # concat (map (\<lambda>c. if c = ch_quote \<or> c = ch_backslash then [ch_backslash, c] else [c]) s) @ [ch_quote]"

definition render_command :: "string list \<Rightarrow> string" where
  "render_command ts = concat (map (\<lambda>t. quote_arg t @ '' '') ts)"

lemma quote_chars [simp]: "ch_quote \<noteq> ch_nul" "ch_quote \<noteq> ch_backslash" "ch_backslash \<noteq> ch_quote"
  "CHR '' '' \<noteq> ch_backslash" "CHR '' '' \<noteq> ch_squote" "CHR '' '' \<noteq> ch_quote" "c_isspace (CHR '' '')"
  by (simp_all add: ch_defs c_isspace_def)

lemma tokenize_quoted:
  "tokenize_line tokens current ch_quote False
     (concat (map (\<lambda>c. if c = ch_quote \<or> c = ch_backslash then [ch_backslash, c] else [c]) s) @ ch_quote # rest) =
   tokenize_line tokens (current @ s) ch_nul False rest"
  by (induction s arbitrary: current) auto

lemma tokenize_render: "tokenize_line tokens [] ch_nul False (render_command ts) = tokens @ filter (\<lambda>t. t \<noteq> []) ts"
proof (induction ts arbitrary: tokens)
  case (Cons t ts)
  have "tokenize_line tokens [] ch_nul False (render_command (t # ts)) = tokenize_line tokens t ch_nul False (CHR '' '' # render_command ts)"
    using tokenize_quoted [of tokens "[]" t "CHR '' '' # render_command ts"] by (simp add: render_command_def quote_arg_def)
  also have "\<dots> = tokenize_line (if t = [] then tokens else tokens @ [t]) [] ch_nul False (render_command ts)" by simp
  finally show ?case using Cons by simp
qed (simp add: render_command_def)








text \<open>An empty quoted argument is lost.\<close>

lemma TokenizeCommandLine_empty_argument: "TokenizeCommandLine (render_command [''run'', [], ''x'']) = [''run'', ''x'']"
  unfolding TokenizeCommandLine_def tokenize_render by simp

end
