(* ===== verification/FluxRender.thy ===== *)
theory FluxRender
  imports FluxInput
begin

text \<open>
  Screen output of the Flux console, \<^verbatim>\<open>src/src/flux\<close>: the escape-sequence stripper
  (\<open>terminal/terminal_ansi_parser.cc\<close>), colours and styles (\<open>terminal/terminal_colors.h\<close>,
  \<open>terminal/terminal_styles.h\<close>), the frame buffer (\<open>rendering/frame_buffer.cc\<close>), the renderer
  (\<open>rendering/renderer.cc\<close>) and the pipeline (\<open>rendering/render_pipeline.cc\<close>). An index into a text
  is the rest of the text from it. Sizes are natural numbers; the cell count and the cell index,
  which the code multiplies in 64 bits, are reduced modulo 2^64.
\<close>

section \<open>Definitions\<close>

subsection \<open>Stripping escape sequences\<close>

fun skip_csi :: "string \<Rightarrow> string" where
  "skip_csi [] = []"
| "skip_csi (c # cs) = (if 0x40 \<le> code c \<and> code c \<le> 0x7E then cs else skip_csi cs)"

definition SkipCsiSequence :: "string \<Rightarrow> string" where
  "SkipCsiSequence s = skip_csi (drop (if hd s = ch_escape then 2 else 1) s)"

fun skip_string :: "bool \<Rightarrow> string \<Rightarrow> string" where
  "skip_string bel [] = []"
| "skip_string bel (c # cs) =
     (if bel \<and> code c = 7 then cs
      else if code c = 0x9C then cs
      else if c = ch_escape \<and> cs \<noteq> [] \<and> hd cs = ch_backslash then tl cs
      else skip_string bel cs)"

definition SkipStringSequence :: "string \<Rightarrow> bool \<Rightarrow> string" where
  "SkipStringSequence s bel = skip_string bel (drop (if hd s = ch_escape then 2 else 1) s)"

definition IsStringSequenceInitiator :: "char \<Rightarrow> bool" where
  "IsStringSequenceInitiator c \<longleftrightarrow> c \<in> {CHR '']'', CHR ''P'', CHR ''_'', CHR ''^'', CHR ''X''}"

definition IsSingleEscapeSequence :: "char \<Rightarrow> bool" where
  "IsSingleEscapeSequence c \<longleftrightarrow> (0x30 \<le> code c \<and> code c \<le> 0x7E) \<or> code c = 0x5C"

lemma length_skip_csi: "length (skip_csi s) \<le> length s"
  by (induction s rule: skip_csi.induct) auto

lemma length_skip_string: "length (skip_string b s) \<le> length s"
  by (induction b s rule: skip_string.induct) auto

lemma length_SkipCsiSequence [lex_less]: "s \<noteq> [] \<Longrightarrow> length (SkipCsiSequence s) < length s"
  using length_skip_csi [of "drop (if hd s = ch_escape then 2 else 1) s"] by (cases s) (auto simp: SkipCsiSequence_def)

lemma length_SkipStringSequence [lex_less]: "s \<noteq> [] \<Longrightarrow> length (SkipStringSequence s b) < length s"
  using length_skip_string [of b "drop (if hd s = ch_escape then 2 else 1) s"] by (cases s) (auto simp: SkipStringSequence_def)

lemma length_SkipCsi_Cons: "length (SkipCsiSequence (c # cs)) < Suc (length cs)"
  using length_SkipCsiSequence [of "c # cs"] by simp

lemma length_SkipString_Cons: "length (SkipStringSequence (c # cs) b) < Suc (length cs)"
  using length_SkipStringSequence [of "c # cs" b] by simp

function StripAnsi :: "string \<Rightarrow> string" where
  "StripAnsi [] = []"
| "StripAnsi (c # cs) =
     (if c = ch_escape then
        (if cs = [] then []
         else if hd cs = CHR ''['' then StripAnsi (SkipCsiSequence (c # cs))
         else if hd cs = CHR '']'' then StripAnsi (SkipStringSequence (c # cs) True)
         else if IsStringSequenceInitiator (hd cs) then StripAnsi (SkipStringSequence (c # cs) False)
         else if IsSingleEscapeSequence (hd cs) then StripAnsi (tl cs)
         else StripAnsi cs)
      else if code c = 0x9B then StripAnsi (SkipCsiSequence (c # cs))
      else if code c = 0x9D then StripAnsi (SkipStringSequence (c # cs) True)
      else if code c \<in> {0x90, 0x98, 0x9E, 0x9F} then StripAnsi (SkipStringSequence (c # cs) False)
      else if code c = 0x9C then StripAnsi cs
      else c # StripAnsi cs)"
  by pat_completeness auto
termination
  by (relation "measure length") (auto simp: length_SkipCsi_Cons length_SkipString_Cons)

subsection \<open>Colours and styles\<close>

datatype TerminalColor =
  kDefault | kBlack | kRed | kGreen | kYellow | kBlue | kMagenta | kCyan | kWhite
  | kBrightBlack | kBrightRed | kBrightGreen | kBrightYellow | kBrightBlue | kBrightMagenta | kBrightCyan | kBrightWhite

fun color_value :: "TerminalColor \<Rightarrow> int" where
  "color_value kDefault = -1" | "color_value kBlack = 0" | "color_value kRed = 1" | "color_value kGreen = 2"
| "color_value kYellow = 3" | "color_value kBlue = 4" | "color_value kMagenta = 5" | "color_value kCyan = 6"
| "color_value kWhite = 7" | "color_value kBrightBlack = 8" | "color_value kBrightRed = 9" | "color_value kBrightGreen = 10"
| "color_value kBrightYellow = 11" | "color_value kBrightBlue = 12" | "color_value kBrightMagenta = 13"
| "color_value kBrightCyan = 14" | "color_value kBrightWhite = 15"

definition esc :: "string \<Rightarrow> string" where
  "esc s = ch_escape # CHR ''['' # s"

definition ForegroundSequence :: "TerminalColor \<Rightarrow> string" where
  "ForegroundSequence c =
     (if c = kDefault then esc ''39m''
      else let v = color_value c in esc (show_int (if v < 8 then 30 + v else 90 + (v - 8)) @ ''m''))"

definition BackgroundSequence :: "TerminalColor \<Rightarrow> string" where
  "BackgroundSequence c =
     (if c = kDefault then esc ''49m''
      else let v = color_value c in esc (show_int (if v < 8 then 40 + v else 100 + (v - 8)) @ ''m''))"

record TerminalStyle =
  foreground :: TerminalColor
  background :: TerminalColor
  bold :: bool
  dim :: bool
  italic :: bool
  underline :: bool
  inverse_video :: bool

definition default_style :: TerminalStyle where
  "default_style = \<lparr>foreground = kDefault, background = kDefault, bold = False, dim = False, italic = False,
     underline = False, inverse_video = False\<rparr>"

definition BeginStyleSequence :: "TerminalStyle \<Rightarrow> string" where
  "BeginStyleSequence st =
     (if bold st then esc ''1m'' else []) @ (if dim st then esc ''2m'' else []) @
     (if italic st then esc ''3m'' else []) @ (if underline st then esc ''4m'' else []) @
     (if inverse_video st then esc ''7m'' else []) @
     (if foreground st \<noteq> kDefault then ForegroundSequence (foreground st) else []) @
     (if background st \<noteq> kDefault then BackgroundSequence (background st) else [])"

definition ResetStyleSequence :: string where
  "ResetStyleSequence = esc ''0m''"

definition ApplyStyle :: "string \<Rightarrow> TerminalStyle \<Rightarrow> string" where
  "ApplyStyle s st =
     (let prefix = BeginStyleSequence st in if prefix = [] then s else prefix @ s @ ResetStyleSequence)"

subsection \<open>Frame buffer\<close>

record FrameCell =
  glyph :: char
  cell_style :: TerminalStyle

record FrameBuffer =
  fb_width :: nat
  fb_height :: nat
  fb_cells :: "FrameCell list"

definition new_cell :: FrameCell where
  "new_cell = \<lparr>glyph = CHR '' '', cell_style = default_style\<rparr>"

definition Resize :: "nat \<Rightarrow> nat \<Rightarrow> FrameBuffer \<Rightarrow> FrameBuffer" where
  "Resize w h f = f\<lparr>fb_width := w, fb_height := h, fb_cells := replicate (w * h mod 2 ^ 64) new_cell\<rparr>"

definition new_frame_buffer :: "nat \<Rightarrow> nat \<Rightarrow> FrameBuffer" where
  "new_frame_buffer w h = Resize w h \<lparr>fb_width = 0, fb_height = 0, fb_cells = []\<rparr>"

definition Frame_Clear :: "char \<Rightarrow> TerminalStyle \<Rightarrow> FrameBuffer \<Rightarrow> FrameBuffer" where
  "Frame_Clear fill st f = f\<lparr>fb_cells := map (\<lambda>c. c\<lparr>glyph := fill, cell_style := st\<rparr>) (fb_cells f)\<rparr>"

definition InBounds :: "FrameBuffer \<Rightarrow> nat \<Rightarrow> nat \<Rightarrow> bool" where
  "InBounds f x y \<longleftrightarrow> x < fb_width f \<and> y < fb_height f"

definition Index :: "FrameBuffer \<Rightarrow> nat \<Rightarrow> nat \<Rightarrow> nat" where
  "Index f x y = (y * fb_width f + x) mod 2 ^ 64"

definition SetCell :: "nat \<Rightarrow> nat \<Rightarrow> char \<Rightarrow> TerminalStyle \<Rightarrow> FrameBuffer \<Rightarrow> (string, FrameBuffer) exec" where
  "SetCell x y g st f =
     (if \<not> InBounds f x y then Ok f
      else if Index f x y < length (fb_cells f)
      then Ok (f\<lparr>fb_cells := (fb_cells f)[Index f x y := \<lparr>glyph = g, cell_style = st\<rparr>]\<rparr>)
      else Undef)"

definition GetCell :: "FrameBuffer \<Rightarrow> nat \<Rightarrow> nat \<Rightarrow> (string, FrameCell) exec" where
  "GetCell f x y = (if InBounds f x y then rd (fb_cells f) (Index f x y) else Ok new_cell)"

fun write_text :: "nat \<Rightarrow> nat \<Rightarrow> nat \<Rightarrow> string \<Rightarrow> TerminalStyle \<Rightarrow> FrameBuffer \<Rightarrow> (string, FrameBuffer) exec" where
  "write_text x cx cy [] st f = Ok f"
| "write_text x cx cy (ch # chs) st f =
     (if ch = ch_newline then write_text x x (cy + 1) chs st f
      else if \<not> InBounds f cx cy then
        (if cy \<ge> fb_height f then Ok f else write_text x (cx + 1) cy chs st f)
      else ebind (SetCell cx cy ch st f) (write_text x (cx + 1) cy chs st))"

definition WriteText :: "nat \<Rightarrow> nat \<Rightarrow> string \<Rightarrow> TerminalStyle \<Rightarrow> FrameBuffer \<Rightarrow> (string, FrameBuffer) exec" where
  "WriteText x y s st f = write_text x x y s st f"

definition TrimRightSpaces :: "string \<Rightarrow> string" where
  "TrimRightSpaces line = rev (dropWhile (\<lambda>c. c = CHR '' '') (rev line))"

text \<open>The cells of a row, and the same for every row.\<close>

fun emap :: "('a \<Rightarrow> ('e, 'b) exec) \<Rightarrow> 'a list \<Rightarrow> ('e, 'b list) exec" where
  "emap g [] = Ok []"
| "emap g (x # xs) = ebind (g x) (\<lambda>y. ebind (emap g xs) (\<lambda>ys. Ok (y # ys)))"

definition row_cells :: "FrameBuffer \<Rightarrow> nat \<Rightarrow> (string, FrameCell list) exec" where
  "row_cells f y = emap (\<lambda>x. GetCell f x y) [0..<fb_width f]"

definition PlainLines :: "FrameBuffer \<Rightarrow> (string, string list) exec" where
  "PlainLines f = emap (\<lambda>y. ebind (row_cells f y) (\<lambda>cs. Ok (TrimRightSpaces (map glyph cs)))) [0..<fb_height f]"

subsection \<open>Renderer and pipeline\<close>

definition IsDefaultStyle :: "TerminalStyle \<Rightarrow> bool" where
  "IsDefaultStyle st \<longleftrightarrow> foreground st = kDefault \<and> background st = kDefault \<and> \<not> bold st \<and> \<not> dim st \<and>
     \<not> italic st \<and> \<not> underline st \<and> \<not> inverse_video st"

definition StylesEqual :: "TerminalStyle \<Rightarrow> TerminalStyle \<Rightarrow> bool" where
  "StylesEqual a b \<longleftrightarrow> foreground a = foreground b \<and> background a = background b \<and> bold a = bold b \<and> dim a = dim b \<and>
     italic a = italic b \<and> underline a = underline b \<and> inverse_video a = inverse_video b"

definition RenderPlainText :: "FrameBuffer \<Rightarrow> (string, string) exec" where
  "RenderPlainText f = ebind (PlainLines f) (\<lambda>ls. Ok (concat (map (\<lambda>l. l @ [ch_newline]) ls)))"

fun ansi_cells :: "FrameCell list \<Rightarrow> TerminalStyle \<Rightarrow> bool \<Rightarrow> string" where
  "ansi_cells [] current_style style_active = (if style_active then ResetStyleSequence else [])"
| "ansi_cells (c # cs) current_style style_active =
     (if \<not> style_active \<or> \<not> StylesEqual current_style (cell_style c) then
        (if style_active then ResetStyleSequence else []) @
        (if \<not> IsDefaultStyle (cell_style c) then BeginStyleSequence (cell_style c) else []) @
        glyph c # ansi_cells cs (cell_style c) (\<not> IsDefaultStyle (cell_style c))
      else glyph c # ansi_cells cs current_style style_active)"

text \<open>The cells up to the last one that is not blank.\<close>

definition visible_cells :: "FrameCell list \<Rightarrow> FrameCell list" where
  "visible_cells cs = rev (dropWhile (\<lambda>c. glyph c = CHR '' '') (rev cs))"

definition RenderAnsi :: "FrameBuffer \<Rightarrow> (string, string) exec" where
  "RenderAnsi f =
     ebind (emap (\<lambda>y. ebind (row_cells f y) (\<lambda>cs. Ok (ansi_cells (visible_cells cs) default_style False @ [ch_newline])))
             [0..<fb_height f])
       (\<lambda>rows. Ok (concat rows))"

text \<open>The pipeline; what it writes to the terminal is the third component.\<close>

record RenderPipeline =
  last_plain_frame :: string
  last_ansi_frame :: string
  frame_count :: nat

definition Present :: "FrameBuffer \<Rightarrow> RenderPipeline \<Rightarrow> (string, bool \<times> RenderPipeline \<times> string option) exec" where
  "Present f p =
     ebind (RenderPlainText f) (\<lambda>plain_text.
     ebind (RenderAnsi f) (\<lambda>ansi.
     if ansi = last_ansi_frame p then Ok (False, p, None)
     else Ok (True, \<lparr>last_plain_frame = plain_text, last_ansi_frame = ansi, frame_count = frame_count p + 1\<rparr>, Some ansi)))"

definition Pipeline_Reset :: "RenderPipeline \<Rightarrow> RenderPipeline" where
  "Pipeline_Reset p = \<lparr>last_plain_frame = [], last_ansi_frame = [], frame_count = 0\<rparr>"

section \<open>The grid\<close>

text \<open>
  What text output relies on: a cell that was set is read back, the others keep their content, and
  coordinates outside are ignored.
\<close>

locale cell_grid =
  fixes inv :: "'f \<Rightarrow> bool"
    and inside :: "'f \<Rightarrow> nat \<Rightarrow> nat \<Rightarrow> bool"
    and get :: "'f \<Rightarrow> nat \<Rightarrow> nat \<Rightarrow> (string, 'c) exec"
    and put :: "nat \<Rightarrow> nat \<Rightarrow> 'c \<Rightarrow> 'f \<Rightarrow> (string, 'f) exec"
  assumes put_total: "inv f \<Longrightarrow> \<exists>f'. put x y c f = Ok f' \<and> inv f'"
    and get_total: "inv f \<Longrightarrow> \<exists>c. get f x y = Ok c"
    and get_put: "inv f \<Longrightarrow> put x y c f = Ok f' \<Longrightarrow> inside f x y \<Longrightarrow>
      get f' x' y' = (if x' = x \<and> y' = y then Ok c else get f x' y')"
    and put_outside: "\<not> inside f x y \<Longrightarrow> put x y c f = Ok f"
begin

lemma put_put: "inv f \<Longrightarrow> inside f x y \<Longrightarrow> inside f' x y \<Longrightarrow> put x y c f = Ok f' \<Longrightarrow> put x y d f' = Ok f'' \<Longrightarrow>
  inv f' \<Longrightarrow> get f'' x y = Ok d"
  using get_put by fastforce

lemma put_keeps: "inv f \<Longrightarrow> put x y c f = Ok f' \<Longrightarrow> x' \<noteq> x \<or> y' \<noteq> y \<Longrightarrow> get f' x' y' = get f x' y'"
  using get_put [of f x y c f' x' y'] put_outside [of f x y c] by (cases "inside f x y") auto

end

definition frame_ok :: "FrameBuffer \<Rightarrow> bool" where
  "frame_ok f \<longleftrightarrow> length (fb_cells f) = fb_width f * fb_height f \<and> fb_width f * fb_height f < 2 ^ 64"

lemma grid_index_less: "x < w \<Longrightarrow> y < h \<Longrightarrow> y * w + x < w * (h :: nat)"
proof -
  assume "x < w" "y < h"
  then have "y * w + x < Suc y * w" by simp
  also have "\<dots> \<le> h * w" using \<open>y < h\<close> by (intro mult_le_mono1) simp
  finally show ?thesis by (simp add: mult.commute)
qed

lemma Index_ok:
  assumes "frame_ok f" "InBounds f x y"
  shows "Index f x y = y * fb_width f + x" "Index f x y < length (fb_cells f)"
proof -
  have "y * fb_width f + x < fb_width f * fb_height f" using assms(2) by (simp add: InBounds_def grid_index_less)
  with assms(1) show "Index f x y = y * fb_width f + x" "Index f x y < length (fb_cells f)"
    by (simp_all add: Index_def frame_ok_def)
qed

lemma Index_inject:
  assumes "frame_ok f" "InBounds f x y" "InBounds f x' y'" "Index f x y = Index f x' y'"
  shows "x = x' \<and> y = y'"
proof -
  have e: "y * fb_width f + x = y' * fb_width f + x'" using assms Index_ok by metis
  have w: "x < fb_width f" "x' < fb_width f" using assms by (simp_all add: InBounds_def)
  then have "(y * fb_width f + x) div fb_width f = y" "(y' * fb_width f + x') div fb_width f = y'" by auto
  with e have "y = y'" by simp
  with e show ?thesis by simp
qed

lemma SetCell_total: "frame_ok f \<Longrightarrow> \<exists>f'. SetCell x y g st f = Ok f' \<and> frame_ok f'"
  using Index_ok [of f x y] by (auto simp: SetCell_def frame_ok_def)

lemma GetCell_total: "frame_ok f \<Longrightarrow> \<exists>c. GetCell f x y = Ok c"
  using Index_ok [of f x y] by (auto simp: GetCell_def)

lemma GetCell_SetCell:
  assumes "frame_ok f" "SetCell x y (glyph c) (cell_style c) f = Ok f'" "InBounds f x y"
  shows "GetCell f' x' y' = (if x' = x \<and> y' = y then Ok c else GetCell f x' y')"
proof -
  have f': "f' = f\<lparr>fb_cells := (fb_cells f)[Index f x y := c]\<rparr>"
    using assms by (cases c) (auto simp: SetCell_def split: if_splits)
  then have i: "InBounds f' = InBounds f" "Index f' = Index f" "fb_cells f' = (fb_cells f)[Index f x y := c]"
    by (simp_all add: InBounds_def Index_def fun_eq_iff)
  show ?thesis
  proof (cases "InBounds f x' y'")
    case True
    note l = Index_ok [OF assms(1) True] Index_ok [OF assms(1,3)]
    have "Index f x' y' = Index f x y \<longleftrightarrow> x' = x \<and> y' = y" using Index_inject [OF assms(1) True assms(3)] by auto
    with l(2,4) True show ?thesis by (auto simp: GetCell_def i nth_list_update)
  next
    case False
    with assms(3) show ?thesis by (auto simp: GetCell_def i)
  qed
qed

interpretation grid: cell_grid frame_ok InBounds GetCell "\<lambda>x y c. SetCell x y (glyph c) (cell_style c)"
proof unfold_locales
  fix f :: FrameBuffer and x y :: nat and c :: FrameCell
  show "frame_ok f \<Longrightarrow> \<exists>f'. SetCell x y (glyph c) (cell_style c) f = Ok f' \<and> frame_ok f'" by (rule SetCell_total)
  show "frame_ok f \<Longrightarrow> \<exists>c. GetCell f x y = Ok c" by (rule GetCell_total)
  show "\<not> InBounds f x y \<Longrightarrow> SetCell x y (glyph c) (cell_style c) f = Ok f" by (simp add: SetCell_def)
qed (rule GetCell_SetCell)

lemma frame_ok_Resize: "w * h < 2 ^ 64 \<Longrightarrow> frame_ok (Resize w h f)"
  by (simp add: frame_ok_def Resize_def)

lemma frame_ok_Clear: "frame_ok f \<Longrightarrow> frame_ok (Frame_Clear c st f)"
  by (simp add: frame_ok_def Frame_Clear_def)

lemma write_text_total: "frame_ok f \<Longrightarrow> \<exists>f'. write_text x cx cy s st f = Ok f' \<and> frame_ok f'"
proof (induction x cx cy s st f rule: write_text.induct)
  case (2 x cx cy ch chs st f)
  show ?case
  proof (cases "ch = ch_newline \<or> \<not> InBounds f cx cy")
    case True
    with 2 show ?thesis by auto
  next
    case False
    obtain f1 where "SetCell cx cy ch st f = Ok f1" "frame_ok f1" using SetCell_total [OF 2(4)] by blast
    with 2(3) False show ?thesis by (simp del: ebind_eq_Ok)
  qed
qed simp

text \<open>
  The cell count is a 64-bit product: with 2^32 columns and 2^32 rows the buffer holds no cell, and
  the first write inside the announced bounds is undefined.
\<close>

lemma Resize_wraps: "SetCell 0 0 g st (Resize (2 ^ 32) (2 ^ 32) f) = Undef"
  by (simp add: SetCell_def Resize_def InBounds_def)

section \<open>Rendering\<close>

lemma emap_Ok: "(\<And>x. x \<in> set xs \<Longrightarrow> g x = Ok (h x)) \<Longrightarrow> emap g xs = Ok (map h xs)"
  by (induction xs) (auto simp del: ebind_eq_Ok)

definition row :: "FrameBuffer \<Rightarrow> nat \<Rightarrow> FrameCell list" where
  "row f y = map (\<lambda>x. fb_cells f ! (y * fb_width f + x)) [0..<fb_width f]"

lemma row_cells_Ok:
  assumes "frame_ok f" "y < fb_height f"
  shows "row_cells f y = Ok (row f y)"
  unfolding row_cells_def row_def
proof (rule emap_Ok)
  fix x assume "x \<in> set [0..<fb_width f]"
  then have "InBounds f x y" using assms(2) by (simp add: InBounds_def)
  with Index_ok [OF assms(1) this] show "GetCell f x y = Ok (fb_cells f ! (y * fb_width f + x))"
    by (simp add: GetCell_def)
qed

lemma TrimRightSpaces_visible: "TrimRightSpaces (map glyph cs) = map glyph (visible_cells cs)"
  by (simp add: TrimRightSpaces_def visible_cells_def rev_map dropWhile_map comp_def)

lemma RenderPlainText_Ok:
  assumes "frame_ok f"
  shows "RenderPlainText f = Ok (concat (map (\<lambda>y. map glyph (visible_cells (row f y)) @ [ch_newline]) [0..<fb_height f]))"
proof -
  have "PlainLines f = Ok (map (\<lambda>y. map glyph (visible_cells (row f y))) [0..<fb_height f])"
    unfolding PlainLines_def by (rule emap_Ok) (simp add: row_cells_Ok [OF assms] TrimRightSpaces_visible del: ebind_eq_Ok)
  then show ?thesis by (simp add: RenderPlainText_def comp_def del: ebind_eq_Ok)
qed

lemma RenderAnsi_Ok:
  assumes "frame_ok f"
  shows "RenderAnsi f = Ok (concat (map (\<lambda>y. ansi_cells (visible_cells (row f y)) default_style False @ [ch_newline]) [0..<fb_height f]))"
proof -
  have "emap (\<lambda>y. ebind (row_cells f y) (\<lambda>cs. Ok (ansi_cells (visible_cells cs) default_style False @ [ch_newline]))) [0..<fb_height f] =
      Ok (map (\<lambda>y. ansi_cells (visible_cells (row f y)) default_style False @ [ch_newline]) [0..<fb_height f])"
    by (rule emap_Ok) (simp add: row_cells_Ok [OF assms] del: ebind_eq_Ok)
  then show ?thesis by (simp add: RenderAnsi_def del: ebind_eq_Ok)
qed

text \<open>Characters that start no control sequence.\<close>

definition plain_char :: "char \<Rightarrow> bool" where
  "plain_char c \<longleftrightarrow> c \<noteq> ch_escape \<and> code c \<notin> {0x90, 0x98, 0x9B, 0x9C, 0x9D, 0x9E, 0x9F}"

lemma StripAnsi_plain: "list_all plain_char s \<Longrightarrow> StripAnsi (s @ rest) = s @ StripAnsi rest"
  by (induction s) (auto simp: plain_char_def)

lemma skip_csi_parameters:
  "list_all (\<lambda>c. code c < 0x40) ps \<Longrightarrow> 0x40 \<le> code c \<Longrightarrow> code c \<le> 0x7E \<Longrightarrow> skip_csi (ps @ c # rest) = rest"
  by (induction ps) auto

lemma StripAnsi_esc: "list_all (\<lambda>c. code c < 0x40) ps \<Longrightarrow> StripAnsi (esc (ps @ ''m'') @ rest) = StripAnsi rest"
  using skip_csi_parameters [of ps "CHR ''m''" rest] by (simp add: esc_def SkipCsiSequence_def)

text \<open>
  A consumer of terminal output for which \<open>shows_as p t\<close> says that the bytes \<open>p\<close> come out as the text
  \<open>t\<close>: it composes, shows acceptable characters as they are and ignores the style sequences. Both the
  stripper and the emulator are such consumers.
\<close>

definition small_number :: "string \<Rightarrow> bool" where
  "small_number ps \<longleftrightarrow> ps \<noteq> [] \<and> list_all c_isdigit ps \<and> digits_value ps < 1000"

locale styled_output =
  fixes acceptable :: "char \<Rightarrow> bool"
    and shows_as :: "string \<Rightarrow> string \<Rightarrow> bool"
  assumes shows_Nil: "shows_as [] []"
    and shows_append: "shows_as p t \<Longrightarrow> shows_as q u \<Longrightarrow> shows_as (p @ q) (t @ u)"
    and shows_char: "acceptable c \<Longrightarrow> shows_as [c] [c]"
    and shows_newline: "shows_as [ch_newline] [ch_newline]"
    and shows_style: "small_number ps \<Longrightarrow> shows_as (esc (ps @ ''m'')) []"
begin

lemma shows_Cons: "acceptable c \<Longrightarrow> shows_as p t \<Longrightarrow> shows_as (c # p) (c # t)"
  using shows_append [OF shows_char] by simp

lemma shows_prefix: "shows_as p [] \<Longrightarrow> shows_as q t \<Longrightarrow> shows_as (p @ q) t"
  using shows_append by fastforce

lemma shows_digit: "c_isdigit d \<Longrightarrow> shows_as (esc [d, CHR ''m'']) []"
proof -
  assume d: "c_isdigit d"
  then have "code d - 48 < 1000" unfolding c_isdigit_def by linarith
  with d have "small_number [d]" by (simp add: small_number_def digits_value_def digit_val_def)
  from shows_style [OF this] show ?thesis by simp
qed

lemma shows_if: "(b \<Longrightarrow> shows_as p []) \<Longrightarrow> shows_as (if b then p else []) []"
  by (simp add: shows_Nil)

lemma shows_number: "0 \<le> v \<Longrightarrow> v < 1000 \<Longrightarrow> shows_as (esc (show_int v @ ''m'')) []"
  using show_nat_digits [of "nat v"] by (intro shows_style) (simp add: small_number_def show_int_def)

lemma shows_colors:
  "c \<noteq> kDefault \<Longrightarrow> shows_as (ForegroundSequence c) []"
  "c \<noteq> kDefault \<Longrightarrow> shows_as (BackgroundSequence c) []"
  by (cases c; simp add: ForegroundSequence_def BackgroundSequence_def shows_number)+

lemma shows_reset: "shows_as ResetStyleSequence []"
  by (simp add: ResetStyleSequence_def shows_digit c_isdigit_def)

lemma shows_begin: "shows_as (BeginStyleSequence st) []"
  unfolding BeginStyleSequence_def
  by (intro shows_prefix shows_if shows_digit shows_colors) (simp_all add: c_isdigit_def)

lemma shows_cells:
  "list_all (\<lambda>c. acceptable (glyph c)) cs \<Longrightarrow> shows_as (ansi_cells cs st b) (map glyph cs)"
proof (induction cs arbitrary: st b)
  case Nil
  then show ?case by (simp add: shows_Nil shows_reset)
next
  case (Cons c cs)
  then have "shows_as (glyph c # ansi_cells cs st' b') (map glyph (c # cs))" for st' b' by (simp add: shows_Cons)
  then show ?case by (auto intro!: shows_prefix shows_if shows_reset shows_begin simp del: list.map)
qed

lemma shows_rows:
  assumes "\<And>y. y \<in> set ys \<Longrightarrow> list_all (\<lambda>c. acceptable (glyph c)) (R y)"
  shows "shows_as (concat (map (\<lambda>y. ansi_cells (R y) default_style False @ [ch_newline]) ys))
    (concat (map (\<lambda>y. map glyph (R y) @ [ch_newline]) ys))"
  using assms
proof (induction ys)
  case (Cons y ys)
  have "shows_as ((ansi_cells (R y) default_style False @ [ch_newline]) @
        concat (map (\<lambda>y. ansi_cells (R y) default_style False @ [ch_newline]) ys))
      ((map glyph (R y) @ [ch_newline]) @ concat (map (\<lambda>y. map glyph (R y) @ [ch_newline]) ys))"
    using Cons by (intro shows_append shows_cells shows_newline) simp_all
  then show ?case by simp
qed (simp add: shows_Nil)

end

definition strips_to :: "string \<Rightarrow> string \<Rightarrow> bool" where
  "strips_to p t \<longleftrightarrow> (\<forall>rest. StripAnsi (p @ rest) = t @ StripAnsi rest)"

interpretation stripper: styled_output plain_char strips_to
proof unfold_locales
  fix c :: char and ps :: string
  show "plain_char c \<Longrightarrow> strips_to [c] [c]" using StripAnsi_plain [of "[c]"] by (simp add: strips_to_def)
  have "plain_char ch_newline" by (simp add: plain_char_def key_defs)
  then show "strips_to [ch_newline] [ch_newline]" using StripAnsi_plain [of "[ch_newline]"] by (simp add: strips_to_def)
  assume "small_number ps"
  then have "list_all (\<lambda>c. code c < 0x40) ps" by (auto simp: small_number_def list_all_iff c_isdigit_def)
  then show "strips_to (esc (ps @ ''m'')) []" using StripAnsi_esc by (simp add: strips_to_def)
qed (simp_all add: strips_to_def)

lemma visible_row_all:
  assumes "frame_ok f" "list_all (\<lambda>c. P (glyph c)) (fb_cells f)" "y < fb_height f"
  shows "list_all (\<lambda>c. P (glyph c)) (visible_cells (row f y))"
proof -
  have "set (visible_cells cs) \<subseteq> set cs" for cs
    by (auto simp: visible_cells_def dest: set_dropWhileD)
  moreover have "set (row f y) \<subseteq> set (fb_cells f)"
    using assms(1,3) by (auto simp: row_def frame_ok_def grid_index_less)
  ultimately show ?thesis using assms(2) unfolding list_all_iff by blast
qed

text \<open>
  C22. The two renderings of a frame agree: for every frame of plain characters, whatever the styles
  of its cells, the coloured text with its escape sequences stripped is the plain text. Neither
  rendering leaves the cell array.
\<close>

theorem StripAnsi_RenderAnsi:
  assumes "frame_ok f" "list_all (\<lambda>c. plain_char (glyph c)) (fb_cells f)"
  shows "\<exists>plain_text ansi. RenderPlainText f = Ok plain_text \<and> RenderAnsi f = Ok ansi \<and> StripAnsi ansi = plain_text"
proof -
  have "strips_to (concat (map (\<lambda>y. ansi_cells (visible_cells (row f y)) default_style False @ [ch_newline]) [0..<fb_height f]))
      (concat (map (\<lambda>y. map glyph (visible_cells (row f y)) @ [ch_newline]) [0..<fb_height f]))"
    using visible_row_all [OF assms] by (intro stripper.shows_rows) simp
  then have "StripAnsi (concat (map (\<lambda>y. ansi_cells (visible_cells (row f y)) default_style False @ [ch_newline]) [0..<fb_height f]) @ []) =
      concat (map (\<lambda>y. map glyph (visible_cells (row f y)) @ [ch_newline]) [0..<fb_height f]) @ StripAnsi []"
    unfolding strips_to_def by blast
  then show ?thesis using RenderPlainText_Ok [OF assms(1)] RenderAnsi_Ok [OF assms(1)] by simp
qed

theorem StripAnsi_RenderAnsi_witness:
  "\<exists>plain_text ansi.
     RenderPlainText \<lparr>fb_width = 2, fb_height = 1, fb_cells = [\<lparr>glyph = CHR ''a'', cell_style = default_style\<lparr>bold := True\<rparr>\<rparr>, new_cell]\<rparr> =
       Ok plain_text \<and>
     RenderAnsi \<lparr>fb_width = 2, fb_height = 1, fb_cells = [\<lparr>glyph = CHR ''a'', cell_style = default_style\<lparr>bold := True\<rparr>\<rparr>, new_cell]\<rparr> =
       Ok ansi \<and> StripAnsi ansi = plain_text"
  using StripAnsi_RenderAnsi [of "\<lparr>fb_width = 2, fb_height = 1, fb_cells = [\<lparr>glyph = CHR ''a'', cell_style = default_style\<lparr>bold := True\<rparr>\<rparr>, new_cell]\<rparr>"]
  by (simp add: frame_ok_def plain_char_def key_defs new_cell_def)

lemma Present_again:
  assumes "Present f p = Ok (b, p', out)" "Present f p' = Ok (b', p'', out')"
  shows "\<not> b' \<and> p'' = p' \<and> out' = None"
  using assms by (auto simp: Present_def split: if_splits)

end
