(* ===== verification/FluxTerminal.thy ===== *)
theory FluxTerminal
  imports FluxRender
begin

text \<open>
  The terminal emulator and the output buffers of the Flux console, \<^verbatim>\<open>src/src/flux/terminal\<close>
  (\<open>terminal_emulator.cc\<close>, \<open>terminal_buffer.cc\<close>, \<open>terminal_manager.cc\<close>, \<open>terminal_window.cc\<close>). An index
  into the text being fed is the rest of the text from it. Sizes and cursor positions are natural
  numbers. A number outside \<open>int\<close> makes \<open>std::atoi\<close>, and so \<open>Feed\<close>, undefined.
\<close>

section \<open>Definitions\<close>

subsection \<open>Emulator\<close>

record TerminalEmulator =
  em_lines :: "string list"
  cursor_row :: nat
  cursor_column :: nat

definition new_emulator :: TerminalEmulator where
  "new_emulator = \<lparr>em_lines = [], cursor_row = 0, cursor_column = 0\<rparr>"

definition kTabWidth :: nat where "kTabWidth = 8"

definition EnsureLine :: "string list \<Rightarrow> nat \<Rightarrow> string list" where
  "EnsureLine ls r = ls @ replicate (Suc r - length ls) []"

definition put_at :: "nat \<Rightarrow> char \<Rightarrow> string \<Rightarrow> string" where
  "put_at column ch line =
     (let padded = line @ replicate (column - length line) (CHR '' '')
      in if column < length padded then padded[column := ch] else padded @ [ch])"

definition WriteCharacter :: "string list \<Rightarrow> nat \<Rightarrow> nat \<Rightarrow> char \<Rightarrow> string list" where
  "WriteCharacter ls r column ch = (let ls' = EnsureLine ls r in ls'[r := put_at column ch (ls' ! r)])"

definition IsPrintable :: "char \<Rightarrow> bool" where
  "IsPrintable c \<longleftrightarrow> code c \<ge> 0x20 \<and> code c \<noteq> 0x7F"

definition Emu_IsStringSequenceInitiator :: "char \<Rightarrow> bool" where
  "Emu_IsStringSequenceInitiator c \<longleftrightarrow> c \<in> {CHR '']'', CHR ''P'', CHR ''_'', CHR ''^'', CHR ''X''}"

definition Emu_IsSingleEscapeSequence :: "char \<Rightarrow> bool" where
  "Emu_IsSingleEscapeSequence c \<longleftrightarrow> (0x30 \<le> code c \<and> code c \<le> 0x7E) \<or> code c = 0x5C"

fun emu_skip_string :: "bool \<Rightarrow> string \<Rightarrow> string" where
  "emu_skip_string bel [] = []"
| "emu_skip_string bel (c # cs) =
     (if bel \<and> code c = 7 then cs
      else if code c = 0x9C then cs
      else if c = ch_escape \<and> cs \<noteq> [] \<and> hd cs = ch_backslash then tl cs
      else emu_skip_string bel cs)"

definition Emu_SkipStringSequence :: "string \<Rightarrow> bool \<Rightarrow> bool \<Rightarrow> string" where
  "Emu_SkipStringSequence s bel escaped_form = emu_skip_string bel (drop (if escaped_form then 2 else 1) s)"

text \<open>The parameter characters, the final character and the rest; \<open>None\<close> for an unfinished sequence.\<close>

fun csi_scan :: "string \<Rightarrow> string \<Rightarrow> (string \<times> char \<times> string) option" where
  "csi_scan params_text [] = None"
| "csi_scan params_text (c # cs) =
     (if 0x40 \<le> code c \<and> code c \<le> 0x7E then Some (params_text, c, cs)
      else csi_scan (if (0x30 \<le> code c \<and> code c \<le> 0x3F) \<or> c = CHR '';'' then params_text @ [c] else params_text) cs)"

fun split_params :: "string \<Rightarrow> string list" where
  "split_params [] = [[]]"
| "split_params (c # cs) =
     (if c = CHR '';'' then [] # split_params cs
      else (c # hd (split_params cs)) # tl (split_params cs))"

text \<open>
  \<open>std::atoi\<close> on a parameter, whose characters lie between \<open>0\<close> and \<open>?\<close>: the value of the leading
  digits, undefined if it is no \<open>int\<close>.
\<close>

definition atoi :: "string \<Rightarrow> (string, int) exec" where
  "atoi token = (let v = int (digits_value (takeWhile c_isdigit token)) in if v < 2 ^ 31 then Ok v else Undef)"

definition ParseCsiSequence :: "string \<Rightarrow> (string, (char \<times> int list \<times> string) option) exec" where
  "ParseCsiSequence s =
     (case csi_scan [] (drop (if hd s = ch_escape then 2 else 1) s) of
        None \<Rightarrow> Ok None
      | Some (params_text, final_char, rest) \<Rightarrow>
          if params_text = [] then Ok (Some (final_char, [], rest))
          else ebind (emap (\<lambda>token. if token = [] then Ok 0 else atoi token) (split_params params_text)) (\<lambda>params.
               Ok (Some (final_char, params, rest))))"

definition ParamOr :: "int list \<Rightarrow> nat \<Rightarrow> int \<Rightarrow> int" where
  "ParamOr params i default_value = (if i \<ge> length params \<or> params ! i = 0 then default_value else params ! i)"

definition erase_in_line :: "int \<Rightarrow> TerminalEmulator \<Rightarrow> TerminalEmulator" where
  "erase_in_line mode em =
     (let ls = EnsureLine (em_lines em) (cursor_row em); line = ls ! cursor_row em; col = cursor_column em;
          line' = (if mode = 1 then replicate (col + 1) (CHR '' '') @ drop (col + 1) line
                   else if mode = 2 then []
                   else take col line)
      in em\<lparr>em_lines := ls[cursor_row em := line']\<rparr>)"

definition erase_in_display :: "int \<Rightarrow> TerminalEmulator \<Rightarrow> TerminalEmulator" where
  "erase_in_display mode em =
     (if mode = 1 then
        erase_in_line 1 (em\<lparr>em_lines := map (\<lambda>_. []) (take (cursor_row em) (em_lines em)) @ drop (cursor_row em) (em_lines em)\<rparr>)
      else if mode = 2 then \<lparr>em_lines = [], cursor_row = 0, cursor_column = 0\<rparr>
      else let em' = erase_in_line 0 em in em'\<lparr>em_lines := take (cursor_row em' + 1) (em_lines em')\<rparr>)"

definition apply_csi :: "char \<Rightarrow> int list \<Rightarrow> TerminalEmulator \<Rightarrow> TerminalEmulator" where
  "apply_csi final_char params em =
     (let amount = nat (ParamOr params 0 1) in
      if final_char = CHR ''A'' then em\<lparr>cursor_row := cursor_row em - amount\<rparr>
      else if final_char = CHR ''B'' then
        em\<lparr>cursor_row := cursor_row em + amount, em_lines := EnsureLine (em_lines em) (cursor_row em + amount)\<rparr>
      else if final_char = CHR ''C'' then em\<lparr>cursor_column := cursor_column em + amount\<rparr>
      else if final_char = CHR ''D'' then em\<lparr>cursor_column := cursor_column em - amount\<rparr>
      else if final_char = CHR ''K'' then erase_in_line (ParamOr params 0 0) em
      else if final_char = CHR ''J'' then erase_in_display (ParamOr params 0 0) em
      else em)"

definition put_char :: "char \<Rightarrow> TerminalEmulator \<Rightarrow> TerminalEmulator" where
  "put_char ch em =
     em\<lparr>em_lines := WriteCharacter (em_lines em) (cursor_row em) (cursor_column em) ch, cursor_column := cursor_column em + 1\<rparr>"

definition feed_char :: "char \<Rightarrow> TerminalEmulator \<Rightarrow> TerminalEmulator" where
  "feed_char ch em =
     (if ch = ch_newline then
        em\<lparr>em_lines := EnsureLine (EnsureLine (em_lines em) (cursor_row em)) (cursor_row em + 1),
           cursor_row := cursor_row em + 1, cursor_column := 0\<rparr>
      else if ch = ch_return then em\<lparr>em_lines := EnsureLine (em_lines em) (cursor_row em), cursor_column := 0\<rparr>
      else if ch = ch_bs then em\<lparr>cursor_column := cursor_column em - 1\<rparr>
      else if ch = ch_tab then
        (let next_tab_stop = (cursor_column em div kTabWidth + 1) * kTabWidth
         in (put_char (CHR '' '') ^^ (next_tab_stop - cursor_column em)) em)
      else if \<not> IsPrintable ch then em
      else put_char ch em)"

lemma length_emu_skip_string: "length (emu_skip_string b s) \<le> length s"
  by (induction b s rule: emu_skip_string.induct) auto

lemma length_Emu_SkipString: "length (Emu_SkipStringSequence (c # cs) b e) < Suc (length cs)"
  using length_emu_skip_string [of b "drop (if e then 2 else 1) (c # cs)"]
  by (cases e) (simp_all add: Emu_SkipStringSequence_def)

lemma csi_scan_less: "csi_scan ps s = Some (ps', c, rest) \<Longrightarrow> length rest < length s"
  by (induction ps s rule: csi_scan.induct) (auto split: if_splits)

lemma ParseCsi_less: "ParseCsiSequence (c # cs) = Ok (Some (f, ps, rest)) \<Longrightarrow> length rest < Suc (length cs)"
  by (auto simp: ParseCsiSequence_def split: option.splits if_splits dest!: csi_scan_less)

function Feed :: "string \<Rightarrow> TerminalEmulator \<Rightarrow> (string, TerminalEmulator) exec" where
  "Feed [] em = Ok em"
| "Feed (c # cs) em =
     (if c = ch_escape then
        (if cs = [] then Ok em
         else
           let other =
             (\<lambda>_. if hd cs = CHR '']'' then Feed (Emu_SkipStringSequence (c # cs) True True) em
              else if Emu_IsStringSequenceInitiator (hd cs) then Feed (Emu_SkipStringSequence (c # cs) False True) em
              else if Emu_IsSingleEscapeSequence (hd cs) then Feed (tl cs) em
              else Feed cs em)
           in if hd cs = CHR ''['' then
                (case ParseCsiSequence (c # cs) of
                   Ok (Some (final_char, params, rest)) \<Rightarrow> Feed rest (apply_csi final_char params em)
                 | Ok None \<Rightarrow> other ()
                 | Fail e \<Rightarrow> Fail e | Undef \<Rightarrow> Undef | OutOfFuel \<Rightarrow> OutOfFuel)
              else other ())
      else if code c = 0x9B then
        (case ParseCsiSequence (c # cs) of
           Ok (Some (final_char, params, rest)) \<Rightarrow> Feed rest (apply_csi final_char params em)
         | Ok None \<Rightarrow> Feed cs (feed_char c em)
         | Fail e \<Rightarrow> Fail e | Undef \<Rightarrow> Undef | OutOfFuel \<Rightarrow> OutOfFuel)
      else if code c = 0x9D then Feed (Emu_SkipStringSequence (c # cs) True False) em
      else if code c \<in> {0x90, 0x98, 0x9E, 0x9F} then Feed (Emu_SkipStringSequence (c # cs) False False) em
      else if code c = 0x9C then Feed cs em
      else Feed cs (feed_char c em))"
  by pat_completeness auto
termination
  by (relation "measure (\<lambda>(s, em). length s)") (auto simp: length_Emu_SkipString dest!: ParseCsi_less)

definition Emulator_Reset :: "TerminalEmulator \<Rightarrow> TerminalEmulator" where
  "Emulator_Reset em = \<lparr>em_lines = [], cursor_row = 0, cursor_column = 0\<rparr>"

fun join_lines :: "string list \<Rightarrow> string" where
  "join_lines [] = []"
| "join_lines [l] = l"
| "join_lines (l # ls) = l @ ch_newline # join_lines ls"

definition PlainText :: "TerminalEmulator \<Rightarrow> string" where
  "PlainText em = join_lines (em_lines em)"

definition EmulatePlainText :: "string \<Rightarrow> (string, string) exec" where
  "EmulatePlainText s = map_exec PlainText (Feed s new_emulator)"

subsection \<open>Buffers\<close>

datatype OutputStream = kStdout | kStderr

record TerminalBuffer =
  storage :: "OutputStream \<Rightarrow> string"
  emulator :: "OutputStream \<Rightarrow> TerminalEmulator"

definition new_buffer :: TerminalBuffer where
  "new_buffer = \<lparr>storage = (\<lambda>_. []), emulator = (\<lambda>_. new_emulator)\<rparr>"

definition TermBuf_Append :: "OutputStream \<Rightarrow> string \<Rightarrow> TerminalBuffer \<Rightarrow> (string, TerminalBuffer) exec" where
  "TermBuf_Append stream s b =
     ebind (Feed s (emulator b stream)) (\<lambda>em.
       Ok (b\<lparr>storage := (storage b)(stream := storage b stream @ s), emulator := (emulator b)(stream := em)\<rparr>))"

definition TermBuf_AppendLine :: "OutputStream \<Rightarrow> string \<Rightarrow> TerminalBuffer \<Rightarrow> (string, TerminalBuffer) exec" where
  "TermBuf_AppendLine stream s b =
     ebind (TermBuf_Append stream s b) (\<lambda>b1.
     ebind (Feed [ch_newline] (emulator b1 stream)) (\<lambda>em.
       Ok (b1\<lparr>storage := (storage b1)(stream := storage b1 stream @ [ch_newline]), emulator := (emulator b1)(stream := em)\<rparr>)))"

definition TermBuf_ClearAll :: "TerminalBuffer \<Rightarrow> TerminalBuffer" where
  "TermBuf_ClearAll b = \<lparr>storage = (\<lambda>_. []), emulator = (\<lambda>s. Emulator_Reset (emulator b s))\<rparr>"

definition TermBuf_Clear :: "OutputStream \<Rightarrow> TerminalBuffer \<Rightarrow> TerminalBuffer" where
  "TermBuf_Clear stream b =
     b\<lparr>storage := (storage b)(stream := []), emulator := (emulator b)(stream := Emulator_Reset (emulator b stream))\<rparr>"

definition Snapshot :: "TerminalBuffer \<Rightarrow> OutputStream \<Rightarrow> string" where
  "Snapshot b stream = storage b stream"

definition SnapshotPlainText :: "TerminalBuffer \<Rightarrow> OutputStream \<Rightarrow> string" where
  "SnapshotPlainText b stream = PlainText (emulator b stream)"

text \<open>\<open>SplitLines\<close>: a final line break gives a final empty line.\<close>

function split_lines :: "string \<Rightarrow> string list" where
  "split_lines s =
     (if s = [] then []
      else if ch_newline \<notin> set s then [s]
      else takeWhile (\<lambda>c. c \<noteq> ch_newline) s # split_lines (tl (dropWhile (\<lambda>c. c \<noteq> ch_newline) s)))"
  by pat_completeness auto
termination
proof (relation "measure length")
  fix s :: string assume "\<not> s = []"
  then show "(tl (dropWhile (\<lambda>c. c \<noteq> ch_newline) s), s) \<in> measure length"
    using length_dropWhile_le [of "\<lambda>c. c \<noteq> ch_newline" s] by (cases s) (auto simp: le_imp_less_Suc)
qed simp

declare split_lines.simps [simp del]

definition SplitLines :: "string \<Rightarrow> string list" where
  "SplitLines s = split_lines s @ (if s \<noteq> [] \<and> last s = ch_newline then [[]] else [])"

definition TermBuf_Lines :: "TerminalBuffer \<Rightarrow> OutputStream \<Rightarrow> string list" where
  "TermBuf_Lines b stream = SplitLines (storage b stream)"

subsection \<open>Window\<close>

record TerminalSize =
  size_columns :: nat
  size_rows :: nat
  interactive :: bool

definition ClampTerminalSize :: "TerminalSize \<Rightarrow> nat \<Rightarrow> nat \<Rightarrow> TerminalSize" where
  "ClampTerminalSize s min_columns min_rows =
     s\<lparr>size_columns := max min_columns (size_columns s), size_rows := max min_rows (size_rows s)\<rparr>"

definition set_size :: "TerminalSize \<Rightarrow> TerminalSize" where
  "set_size s = ClampTerminalSize s 20 5"

definition FitToWidth :: "TerminalSize \<Rightarrow> string \<Rightarrow> string" where
  "FitToWidth sz s =
     (if size_columns sz = 0 then []
      else if length s \<le> size_columns sz then s
      else if size_columns sz \<le> 3 then take (size_columns sz) s
      else take (size_columns sz - 3) s @ ''...'')"

definition Centered :: "TerminalSize \<Rightarrow> string \<Rightarrow> char \<Rightarrow> string" where
  "Centered sz s fill =
     (let fitted = FitToWidth sz s in
      if length fitted \<ge> size_columns sz then fitted
      else
        let total_padding = size_columns sz - length fitted; left_padding = total_padding div 2
        in replicate left_padding fill @ fitted @ replicate (total_padding - left_padding) fill)"

definition MakeRule :: "TerminalSize \<Rightarrow> char \<Rightarrow> string" where
  "MakeRule sz fill = replicate (size_columns sz) fill"

section \<open>Text at the end of the screen\<close>

text \<open>The cursor stands behind the last character: what a terminal that only received text looks like.\<close>

definition at_end :: "TerminalEmulator \<Rightarrow> bool" where
  "at_end em \<longleftrightarrow>
     (if em_lines em = [] then cursor_row em = 0 \<and> cursor_column em = 0
      else cursor_row em = length (em_lines em) - 1 \<and> cursor_column em = length (last (em_lines em)))"

definition text_char :: "char \<Rightarrow> bool" where
  "text_char c \<longleftrightarrow> c = ch_newline \<or> (IsPrintable c \<and> plain_char c)"

lemma EnsureLine_in: "r < length (EnsureLine ls r)"
  by (simp add: EnsureLine_def)

lemma join_lines_snoc: "ls \<noteq> [] \<Longrightarrow> join_lines (ls @ [l]) = join_lines ls @ ch_newline # l"
  by (induction ls rule: join_lines.induct) auto

lemma join_lines_extend: "join_lines (ls @ [l @ t]) = join_lines (ls @ [l]) @ t"
  by (cases "ls = []") (simp_all add: join_lines_snoc)

lemma feed_char_at_end:
  assumes "at_end em" "text_char c"
  shows "at_end (feed_char c em) \<and> PlainText (feed_char c em) = PlainText em @ [c]"
proof (cases "em_lines em" rule: rev_cases)
  case Nil
  with assms show ?thesis
    by (auto simp: at_end_def feed_char_def text_char_def PlainText_def EnsureLine_def put_char_def WriteCharacter_def
        put_at_def IsPrintable_def Let_def key_defs numeral_2_eq_2)
next
  case (snoc ls l)
  then have em: "cursor_row em = length ls" "cursor_column em = length l" using assms(1) by (simp_all add: at_end_def)
  show ?thesis
  proof (cases "c = ch_newline")
    case True
    have "em_lines (feed_char c em) = (ls @ [l]) @ [[]]" "cursor_row (feed_char c em) = Suc (length ls)" "cursor_column (feed_char c em) = 0"
      using True snoc em by (simp_all add: feed_char_def EnsureLine_def)
    then show ?thesis using True snoc join_lines_snoc [of "ls @ [l]" "[]"] by (simp add: at_end_def PlainText_def)
  next
    case False
    then have "feed_char c em = put_char c em"
      using assms(2) by (auto simp: feed_char_def text_char_def IsPrintable_def key_defs)
    moreover have "em_lines (put_char c em) = ls @ [l @ [c]]" "cursor_row (put_char c em) = length ls" "cursor_column (put_char c em) = Suc (length l)"
      using snoc em by (simp_all add: put_char_def WriteCharacter_def EnsureLine_def put_at_def Let_def)
    ultimately show ?thesis using snoc join_lines_extend [of ls l "[c]"] by (simp add: at_end_def PlainText_def)
  qed
qed

lemma Feed_plain: "plain_char c \<Longrightarrow> Feed (c # cs) em = Feed cs (feed_char c em)"
  by (simp add: plain_char_def)

definition emits :: "string \<Rightarrow> string \<Rightarrow> bool" where
  "emits p t \<longleftrightarrow> (\<forall>rest em. at_end em \<longrightarrow>
     (\<exists>em'. Feed (p @ rest) em = Feed rest em' \<and> at_end em' \<and> PlainText em' = PlainText em @ t))"

lemma emits_char: "text_char c \<Longrightarrow> emits [c] [c]"
proof -
  assume c: "text_char c"
  have "plain_char ch_newline" by (simp add: plain_char_def key_defs)
  with c have "plain_char c" by (auto simp: text_char_def)
  then show ?thesis unfolding emits_def using feed_char_at_end [OF _ c] Feed_plain by fastforce
qed

lemma csi_scan_digits: "list_all c_isdigit ps \<Longrightarrow> csi_scan qs (ps @ CHR ''m'' # rest) = Some (qs @ ps, CHR ''m'', rest)"
  by (induction ps arbitrary: qs) (auto simp: c_isdigit_def)

lemma split_params_digits: "list_all c_isdigit ps \<Longrightarrow> split_params ps = [ps]"
  by (induction ps) (auto simp: c_isdigit_def)

lemma Feed_style:
  assumes "small_number ps"
  shows "Feed (esc (ps @ ''m'') @ rest) em = Feed rest em"
proof -
  have ps: "ps \<noteq> []" "list_all c_isdigit ps" "digits_value ps < 1000" using assms by (simp_all add: small_number_def)
  then have "atoi ps = Ok (int (digits_value ps))" by (simp add: atoi_def)
  then have "ParseCsiSequence (esc (ps @ ''m'') @ rest) = Ok (Some (CHR ''m'', [int (digits_value ps)], rest))"
    using ps csi_scan_digits [OF ps(2), of "[]" rest] split_params_digits [OF ps(2)]
    by (simp add: ParseCsiSequence_def esc_def del: ebind_eq_Ok)
  moreover have "apply_csi (CHR ''m'') qs em = em" for qs by (simp add: apply_csi_def)
  ultimately show ?thesis by (simp add: esc_def Let_def)
qed

interpretation screen: styled_output text_char emits
proof unfold_locales
  fix p t q u :: string
  assume p: "emits p t" and q: "emits q u"
  show "emits (p @ q) (t @ u)" unfolding emits_def
  proof (intro allI impI)
    fix rest em assume "at_end em"
    then obtain em1 where 1: "Feed (p @ q @ rest) em = Feed (q @ rest) em1" "at_end em1" "PlainText em1 = PlainText em @ t"
      using p unfolding emits_def by blast
    then obtain em2 where "Feed (q @ rest) em1 = Feed rest em2" "at_end em2" "PlainText em2 = PlainText em1 @ u"
      using q unfolding emits_def by blast
    with 1 show "\<exists>em'. Feed ((p @ q) @ rest) em = Feed rest em' \<and> at_end em' \<and> PlainText em' = PlainText em @ t @ u"
      by auto
  qed
next
  show "emits [] []" unfolding emits_def by auto
  show "text_char c \<Longrightarrow> emits [c] [c]" for c by (rule emits_char)
  show "emits [ch_newline] [ch_newline]" by (rule emits_char) (simp add: text_char_def)
  show "small_number ps \<Longrightarrow> emits (esc (ps @ ''m'')) []" for ps unfolding emits_def using Feed_style by fastforce
qed

lemma at_end_new [simp]: "at_end new_emulator" "PlainText new_emulator = []"
  by (simp_all add: at_end_def new_emulator_def PlainText_def)

lemma EmulatePlainText_emits: "emits p t \<Longrightarrow> EmulatePlainText p = Ok t"
proof -
  assume "emits p t"
  then obtain em where "Feed (p @ []) new_emulator = Feed [] em" "PlainText em = PlainText new_emulator @ t"
    unfolding emits_def using at_end_new(1) by blast
  then show ?thesis by (simp add: EmulatePlainText_def)
qed

text \<open>
  C25. A frame sent to the terminal shows as its plain text: feeding the coloured rendering of a
  frame of printable characters, whatever the styles, to a new emulator leaves exactly the plain
  rendering on its screen.
\<close>

theorem EmulatePlainText_RenderAnsi:
  assumes "frame_ok f" "list_all (\<lambda>c. text_char (glyph c)) (fb_cells f)"
  shows "\<exists>plain_text ansi. RenderPlainText f = Ok plain_text \<and> RenderAnsi f = Ok ansi \<and> EmulatePlainText ansi = Ok plain_text"
proof -
  have "emits (concat (map (\<lambda>y. ansi_cells (visible_cells (row f y)) default_style False @ [ch_newline]) [0..<fb_height f]))
      (concat (map (\<lambda>y. map glyph (visible_cells (row f y)) @ [ch_newline]) [0..<fb_height f]))"
    using visible_row_all [OF assms] by (intro screen.shows_rows) simp
  then show ?thesis using EmulatePlainText_emits RenderPlainText_Ok [OF assms(1)] RenderAnsi_Ok [OF assms(1)] by blast
qed

theorem EmulatePlainText_RenderAnsi_witness:
  "\<exists>plain_text ansi.
     RenderPlainText \<lparr>fb_width = 1, fb_height = 1, fb_cells = [\<lparr>glyph = CHR ''a'', cell_style = default_style\<lparr>foreground := kRed\<rparr>\<rparr>]\<rparr> =
       Ok plain_text \<and>
     RenderAnsi \<lparr>fb_width = 1, fb_height = 1, fb_cells = [\<lparr>glyph = CHR ''a'', cell_style = default_style\<lparr>foreground := kRed\<rparr>\<rparr>]\<rparr> =
       Ok ansi \<and> EmulatePlainText ansi = Ok plain_text"
  using EmulatePlainText_RenderAnsi [of "\<lparr>fb_width = 1, fb_height = 1, fb_cells = [\<lparr>glyph = CHR ''a'', cell_style = default_style\<lparr>foreground := kRed\<rparr>\<rparr>]\<rparr>"]
  by (simp add: frame_ok_def text_char_def plain_char_def IsPrintable_def key_defs)

section \<open>Buffers\<close>

datatype output_step = Write OutputStream string | WriteLine OutputStream string | Wipe OutputStream | WipeAll

fun output_run :: "output_step list \<Rightarrow> TerminalBuffer \<Rightarrow> (string, TerminalBuffer) exec" where
  "output_run [] b = Ok b"
| "output_run (Write st s # os) b = ebind (TermBuf_Append st s b) (output_run os)"
| "output_run (WriteLine st s # os) b = ebind (TermBuf_AppendLine st s b) (output_run os)"
| "output_run (Wipe st # os) b = output_run os (TermBuf_Clear st b)"
| "output_run (WipeAll # os) b = output_run os (TermBuf_ClearAll b)"

fun step_text :: "output_step \<Rightarrow> string" where
  "step_text (Write st s) = s"
| "step_text (WriteLine st s) = s"
| "step_text _ = []"

text \<open>The screen of every stream shows what was stored for it.\<close>

definition in_sync :: "TerminalBuffer \<Rightarrow> bool" where
  "in_sync b \<longleftrightarrow> (\<forall>st. at_end (emulator b st) \<and> PlainText (emulator b st) = storage b st)"

lemma emits_text: "list_all text_char s \<Longrightarrow> emits s s"
  by (induction s) (auto intro: screen.shows_Nil screen.shows_Cons)

lemma Feed_text:
  assumes "at_end em" "list_all text_char s"
  shows "\<exists>em'. Feed s em = Ok em' \<and> at_end em' \<and> PlainText em' = PlainText em @ s"
  using emits_text [OF assms(2)] assms(1) unfolding emits_def by (metis Feed.simps(1) append_Nil2)

lemma TermBuf_Append_sync:
  assumes "in_sync b" "list_all text_char s"
  shows "\<exists>b'. TermBuf_Append st s b = Ok b' \<and> in_sync b'"
proof -
  obtain em where "Feed s (emulator b st) = Ok em" "at_end em" "PlainText em = storage b st @ s"
    using Feed_text [OF _ assms(2), of "emulator b st"] assms(1) by (auto simp: in_sync_def)
  with assms(1) show ?thesis by (auto simp: TermBuf_Append_def in_sync_def simp del: ebind_eq_Ok)
qed

lemma TermBuf_AppendLine_split:
  "TermBuf_AppendLine st s b = ebind (TermBuf_Append st s b) (TermBuf_Append st [ch_newline])"
  unfolding TermBuf_AppendLine_def
  by (rule arg_cong [where f = "ebind (TermBuf_Append st s b)"]) (rule ext, simp only: TermBuf_Append_def)

lemma at_end_reset [simp]: "at_end (Emulator_Reset em)" "PlainText (Emulator_Reset em) = []"
  by (simp_all add: at_end_def Emulator_Reset_def PlainText_def)

lemma output_run_sync:
  "in_sync b \<Longrightarrow> list_all (\<lambda>o'. list_all text_char (step_text o')) os \<Longrightarrow> \<exists>b'. output_run os b = Ok b' \<and> in_sync b'"
proof (induction os b rule: output_run.induct)
  case (2 st s os b)
  obtain b1 where "TermBuf_Append st s b = Ok b1" "in_sync b1" using TermBuf_Append_sync [of b s st] 2 by auto
  with 2 show ?case by (simp del: ebind_eq_Ok)
next
  case (3 st s os b)
  obtain b1 where 1: "TermBuf_Append st s b = Ok b1" "in_sync b1" using TermBuf_Append_sync [of b s st] 3 by auto
  obtain b2 where "TermBuf_Append st [ch_newline] b1 = Ok b2" "in_sync b2"
    using TermBuf_Append_sync [OF 1(2), of "[ch_newline]" st] by (auto simp: text_char_def)
  with 1 3 show ?case by (simp add: TermBuf_AppendLine_split del: ebind_eq_Ok)
next
  case (4 st os b)
  then have "in_sync (TermBuf_Clear st b)" by (simp add: in_sync_def TermBuf_Clear_def)
  with 4 show ?case by simp
next
  case (5 os b)
  then have "in_sync (TermBuf_ClearAll b)" by (simp add: in_sync_def TermBuf_ClearAll_def)
  with 5 show ?case by simp
qed simp

text \<open>
  C35. Whatever sequence of writes, line writes and clears of printable text and line breaks a new
  buffer receives on its two streams, in whatever pieces, the emulated screen of each stream and
  its raw snapshot stay equal.
\<close>

theorem buffer_snapshots_agree:
  assumes "list_all (\<lambda>o'. list_all text_char (step_text o')) os"
  shows "\<exists>b. output_run os new_buffer = Ok b \<and> SnapshotPlainText b st = Snapshot b st"
proof -
  have "in_sync new_buffer" by (simp add: in_sync_def new_buffer_def)
  from output_run_sync [OF this assms] show ?thesis by (auto simp: in_sync_def SnapshotPlainText_def Snapshot_def)
qed

theorem buffer_snapshots_agree_witness:
  "\<exists>b. output_run [Write kStdout ''ab'', WriteLine kStderr ''c'', Wipe kStderr, WriteLine kStdout ''d''] new_buffer = Ok b \<and>
     SnapshotPlainText b kStdout = Snapshot b kStdout"
  using buffer_snapshots_agree [of "[Write kStdout ''ab'', WriteLine kStderr ''c'', Wipe kStderr, WriteLine kStdout ''d'']" kStdout]
  by (simp add: text_char_def plain_char_def IsPrintable_def key_defs)

text \<open>
  For other output the pieces matter: an escape sequence that is cut between two writes is lost in
  part and its tail printed.
\<close>

lemma split_escape_printed:
  "map_exec PlainText (Feed (esc ''1m'' @ ''a'') new_emulator) = Ok ''a''"
  "map_exec PlainText (ebind (Feed (esc []) new_emulator) (Feed ''1ma'')) = Ok ''1ma''"
  by (simp_all add: esc_def ParseCsiSequence_def atoi_def Let_def c_isdigit_def digits_value_def digit_val_def apply_csi_def
      feed_char_def put_char_def WriteCharacter_def EnsureLine_def put_at_def IsPrintable_def key_defs PlainText_def
      new_emulator_def Emu_IsStringSequenceInitiator_def Emu_IsSingleEscapeSequence_def)

section \<open>Window\<close>

lemma FitToWidth_length: "length (FitToWidth sz s) \<le> size_columns sz"
  by (auto simp: FitToWidth_def)

lemma Centered_length: "length (Centered sz s fill) = size_columns sz"
  using FitToWidth_length [of sz s] by (auto simp: Centered_def Let_def)

end
