(* ===== verification/Monitor.thy ===== *)
theory Monitor
  imports XER_Prelude
begin

text \<open>
  The meaning of \<open>std::mutex\<close> and \<open>std::condition_variable\<close> that the classes of \<open>async_io\<close> rely on. A
  method of such a class locks its mutex, runs, may wait on the condition variable with a predicate,
  runs to its end and unlocks. The critical sections exclude each other, so a method is an atomic
  entry, a wait and an atomic body; what interleaves is described by the step relation \<open>mstep\<close>, with
  any number of threads, spurious wake-ups, time-outs, and notifications sent after the unlock.
  The interfaces \<open>monitor_invariant\<close> and \<open>monitor_account\<close> state what a class has to promise of its
  sections for a fact to hold in every reachable configuration.
\<close>

section \<open>Definitions\<close>

datatype notify = NotifyOne | NotifyAll

text \<open>
  \<open>m_enter\<close> runs once the mutex is taken and returns the local variables of the call; \<open>m_ready\<close> is the
  predicate of \<open>cv_.wait\<close> (true where a method does not wait); \<open>m_timed\<close> tells a \<open>wait_for\<close>; \<open>m_body\<close> is
  the rest of the critical section with the result and the notifications it sends under the mutex;
  \<open>m_after\<close> the notifications sent after the unlock.
\<close>

record ('op, 'l, 's, 'r) monitor =
  m_enter :: "'op \<Rightarrow> 's \<Rightarrow> 's \<times> 'l"
  m_ready :: "'op \<Rightarrow> 'l \<Rightarrow> 's \<Rightarrow> bool"
  m_timed :: "'op \<Rightarrow> bool"
  m_body :: "'op \<Rightarrow> 'l \<Rightarrow> 's \<Rightarrow> 's \<times> 'r \<times> notify list"
  m_after :: "'op \<Rightarrow> 'r \<Rightarrow> notify list"

datatype ('op, 'l) thread = Idle | Asleep 'op 'l | Awake 'op 'l

record ('op, 'l, 's) config =
  shared :: 's
  threads :: "nat \<Rightarrow> ('op, 'l) thread"
  pending :: "notify list"

datatype ('op, 'r) event = Called nat 'op | Returned nat 'op 'r

definition initial_config :: "'s \<Rightarrow> ('op, 'l, 's) config" where
  "initial_config s = \<lparr>shared = s, threads = (\<lambda>_. Idle), pending = []\<rparr>"

fun wake :: "('op, 'l) thread \<Rightarrow> ('op, 'l) thread" where
  "wake (Asleep op l) = Awake op l"
| "wake th = th"

fun blocked :: "('op, 'l) thread \<Rightarrow> bool" where
  "blocked Idle = False"
| "blocked th = True"

inductive wakes :: "notify \<Rightarrow> (nat \<Rightarrow> ('op, 'l) thread) \<Rightarrow> (nat \<Rightarrow> ('op, 'l) thread) \<Rightarrow> bool" where
  one: "ths t = Asleep op l \<Longrightarrow> wakes NotifyOne ths (ths(t := Awake op l))"
| none: "(\<And>t op l. ths t \<noteq> Asleep op l) \<Longrightarrow> wakes NotifyOne ths ths"
| all: "wakes NotifyAll ths (\<lambda>t. wake (ths t))"

inductive wakes_list :: "notify list \<Rightarrow> (nat \<Rightarrow> ('op, 'l) thread) \<Rightarrow> (nat \<Rightarrow> ('op, 'l) thread) \<Rightarrow> bool" where
  nil: "wakes_list [] ths ths"
| cons: "wakes n ths ths' \<Longrightarrow> wakes_list ns ths' ths'' \<Longrightarrow> wakes_list (n # ns) ths ths''"

inductive mstep :: "('op, 'l, 's, 'r) monitor \<Rightarrow> ('op, 'l, 's) config \<Rightarrow> ('op, 'r) event list \<Rightarrow> ('op, 'l, 's) config \<Rightarrow> bool"
  for M where
  pass: "threads c t = Idle \<Longrightarrow> m_enter M op (shared c) = (s1, l) \<Longrightarrow> m_ready M op l s1 \<Longrightarrow>
     m_body M op l s1 = (s2, r, ns) \<Longrightarrow> wakes_list ns (threads c) ths \<Longrightarrow>
     mstep M c [Called t op, Returned t op r] \<lparr>shared = s2, threads = ths, pending = pending c @ m_after M op r\<rparr>"
| block: "threads c t = Idle \<Longrightarrow> m_enter M op (shared c) = (s1, l) \<Longrightarrow> \<not> m_ready M op l s1 \<Longrightarrow>
     mstep M c [Called t op] (c\<lparr>shared := s1, threads := (threads c)(t := Asleep op l)\<rparr>)"
| resume: "threads c t = Awake op l \<Longrightarrow> m_ready M op l (shared c) \<Longrightarrow> m_body M op l (shared c) = (s2, r, ns) \<Longrightarrow>
     wakes_list ns ((threads c)(t := Idle)) ths \<Longrightarrow>
     mstep M c [Returned t op r] \<lparr>shared = s2, threads = ths, pending = pending c @ m_after M op r\<rparr>"
| resleep: "threads c t = Awake op l \<Longrightarrow> \<not> m_ready M op l (shared c) \<Longrightarrow>
     mstep M c [] (c\<lparr>threads := (threads c)(t := Asleep op l)\<rparr>)"
| spurious: "threads c t = Asleep op l \<Longrightarrow> mstep M c [] (c\<lparr>threads := (threads c)(t := Awake op l)\<rparr>)"
| timeout: "threads c t = Asleep op l \<or> threads c t = Awake op l \<Longrightarrow> m_timed M op \<Longrightarrow>
     m_body M op l (shared c) = (s2, r, ns) \<Longrightarrow> wakes_list ns ((threads c)(t := Idle)) ths \<Longrightarrow>
     mstep M c [Returned t op r] \<lparr>shared = s2, threads = ths, pending = pending c @ m_after M op r\<rparr>"
| deliver: "pending c = ns1 @ n # ns2 \<Longrightarrow> wakes n (threads c) ths \<Longrightarrow>
     mstep M c [] (c\<lparr>threads := ths, pending := ns1 @ ns2\<rparr>)"

inductive msteps :: "('op, 'l, 's, 'r) monitor \<Rightarrow> ('op, 'l, 's) config \<Rightarrow> ('op, 'r) event list \<Rightarrow> ('op, 'l, 's) config \<Rightarrow> bool"
  for M c where
  start: "msteps M c [] c"
| step: "msteps M c es c' \<Longrightarrow> mstep M c' es' c'' \<Longrightarrow> msteps M c (es @ es') c''"

inductive_cases wakes_oneE: "wakes NotifyOne ths ths'"
inductive_cases wakes_allE: "wakes NotifyAll ths ths'"
inductive_cases wakes_list_NilE: "wakes_list [] ths ths'"
inductive_cases wakes_list_ConsE: "wakes_list (n # ns) ths ths'"

section \<open>Waking\<close>

lemma wakes_list_Nil [simp]: "wakes_list [] ths ths' \<longleftrightarrow> ths' = ths"
  by (auto intro: wakes_list.nil elim: wakes_list_NilE)

lemma wakes_list_single [simp]: "wakes_list [n] ths ths' \<longleftrightarrow> wakes n ths ths'"
  by (auto intro: wakes_list.intros elim: wakes_list_ConsE)

lemma wakes_NotifyAll [simp]: "wakes NotifyAll ths ths' \<longleftrightarrow> ths' = (\<lambda>t. wake (ths t))"
  by (auto intro: wakes.all elim: wakes_allE)

text \<open>A notification only turns sleeping threads into woken ones, in the same call.\<close>

lemma wakes_cases:
  assumes "wakes n ths ths'"
  shows "ths' t = ths t \<or> ths' t = wake (ths t)"
  using assms by cases auto

lemma wake_wake [simp]: "wake (wake th) = wake th"
  by (cases th) auto

lemma wakes_list_cases:
  assumes "wakes_list ns ths ths'"
  shows "ths' t = ths t \<or> ths' t = wake (ths t)"
  using assms
proof induction
  case (cons n ths ths' ns ths'')
  then show ?case using wakes_cases [OF cons.hyps(1), of t] by (metis wake_wake)
qed auto

lemma wake_eq [simp]:
  "wake th = Idle \<longleftrightarrow> th = Idle"
  "wake th \<noteq> Asleep op l"
  "wake th = Awake op l \<longleftrightarrow> th = Asleep op l \<or> th = Awake op l"
  "blocked (wake th) = blocked th"
  by (cases th; auto)+

lemma wakes_list_Idle: "wakes_list ns ths ths' \<Longrightarrow> ths' t = Idle \<longleftrightarrow> ths t = Idle"
  using wakes_list_cases [of ns ths ths' t] by (cases "ths t") auto

lemma wakes_list_Asleep: "wakes_list ns ths ths' \<Longrightarrow> ths' t = Asleep op l \<Longrightarrow> ths t = Asleep op l"
  using wakes_list_cases [of ns ths ths' t] by (cases "ths t") auto

lemma wakes_list_Awake: "wakes_list ns ths ths' \<Longrightarrow> ths' t = Awake op l \<Longrightarrow> ths t = Asleep op l \<or> ths t = Awake op l"
  using wakes_list_cases [of ns ths ths' t] by (cases "ths t") auto

text \<open>The call a blocked thread is in.\<close>

fun call_of :: "('op, 'l) thread \<Rightarrow> ('op \<times> 'l) option" where
  "call_of Idle = None"
| "call_of (Asleep op l) = Some (op, l)"
| "call_of (Awake op l) = Some (op, l)"

lemma call_of_wake [simp]: "call_of (wake th) = call_of th"
  by (cases th) auto

lemma wakes_list_call_of: "wakes_list ns ths ths' \<Longrightarrow> call_of (ths' t) = call_of (ths t)"
  using wakes_list_cases [of ns ths ths' t] by auto

lemma wakes_call_of: "wakes n ths ths' \<Longrightarrow> call_of (ths' t) = call_of (ths t)"
  using wakes_cases [of n ths ths' t] by auto

text \<open>Notifications on their way are those that methods send after their unlock.\<close>

lemma pending_after:
  assumes "msteps M c es c'" "\<And>op r. n \<notin> set (m_after M op r)" "n \<notin> set (pending c)"
  shows "n \<notin> set (pending c')"
  using assms
proof (induction rule: msteps.induct)
  case (step es c' es' c'')
  from step.hyps(2) step.IH step.prems show ?case by (induction rule: mstep.induct) auto
qed simp

section \<open>Interfaces\<close>

text \<open>
  What a class promises so that a relation between the calls and returns seen so far and its fields
  holds in every reachable configuration: every section keeps it, where a body runs only when the
  predicate holds or a time-out has passed.
\<close>

locale monitor_trace =
  fixes M :: "('op, 'l, 's, 'r) monitor" and rel :: "('op, 'r) event list \<Rightarrow> 's \<Rightarrow> bool"
  assumes enter_rel: "rel es s \<Longrightarrow> m_enter M op s = (s1, l) \<Longrightarrow> rel (es @ [Called t op]) s1"
    and body_rel: "rel es s \<Longrightarrow> m_ready M op l s \<or> m_timed M op \<Longrightarrow> m_body M op l s = (s2, r, ns) \<Longrightarrow> rel (es @ [Returned t op r]) s2"
begin

lemma step_rel:
  assumes "mstep M c es' c'" "rel es (shared c)"
  shows "rel (es @ es') (shared c')"
  using assms
proof (induction rule: mstep.induct)
  case (pass c t op s1 l s2 r ns ths)
  then have "rel (es @ [Called t op]) s1" by (auto intro: enter_rel)
  with pass body_rel [of "es @ [Called t op]" s1 op l s2 r ns t] show ?case by simp
qed (auto intro: enter_rel body_rel)

lemma run_rel: "msteps M c es c' \<Longrightarrow> rel [] (shared c) \<Longrightarrow> rel es (shared c')"
  by (induction rule: msteps.induct) (auto intro: step_rel)

end

text \<open>A property of the fields alone.\<close>

locale monitor_invariant =
  fixes M :: "('op, 'l, 's, 'r) monitor" and inv :: "'s \<Rightarrow> bool"
  assumes enter_inv: "inv s \<Longrightarrow> m_enter M op s = (s1, l) \<Longrightarrow> inv s1"
    and body_inv: "inv s \<Longrightarrow> m_ready M op l s \<or> m_timed M op \<Longrightarrow> m_body M op l s = (s2, r, ns) \<Longrightarrow> inv s2"

sublocale monitor_invariant \<subseteq> kept: monitor_trace M "\<lambda>_. inv"
  by unfold_locales (auto intro: enter_inv body_inv)

text \<open>A quantity of the fields that is the balance of the calls and returns seen so far.\<close>

fun event_weight :: "('op \<Rightarrow> int) \<Rightarrow> ('op \<Rightarrow> 'r \<Rightarrow> int) \<Rightarrow> ('op, 'r) event \<Rightarrow> int" where
  "event_weight call_weight return_weight (Called t op) = call_weight op"
| "event_weight call_weight return_weight (Returned t op r) = return_weight op r"

locale monitor_account =
  fixes M :: "('op, 'l, 's, 'r) monitor" and quantity :: "'s \<Rightarrow> int"
    and call_weight :: "'op \<Rightarrow> int" and return_weight :: "'op \<Rightarrow> 'r \<Rightarrow> int" and start :: int
  assumes enter_weight: "m_enter M op s = (s1, l) \<Longrightarrow> quantity s1 = quantity s + call_weight op"
    and body_weight: "m_body M op l s = (s2, r, ns) \<Longrightarrow> quantity s2 = quantity s + return_weight op r"

sublocale monitor_account \<subseteq> balanced: monitor_trace M
  "\<lambda>es s. quantity s = start + sum_list (map (event_weight call_weight return_weight) es)"
  by unfold_locales (auto simp: enter_weight body_weight)

section \<open>No lost wake-ups\<close>

definition asleep :: "(nat \<Rightarrow> ('op, 'l) thread) \<Rightarrow> nat set" where
  "asleep ths = {t. \<exists>op l. ths t = Asleep op l}"

definition awake :: "(nat \<Rightarrow> ('op, 'l) thread) \<Rightarrow> nat set" where
  "awake ths = {t. \<exists>op l. ths t = Awake op l}"

definition inside :: "(nat \<Rightarrow> ('op, 'l) thread) \<Rightarrow> nat set" where
  "inside ths = {t. ths t \<noteq> Idle}"

lemmas thread_set_defs = asleep_def awake_def inside_def

lemma awake_inside: "awake ths \<subseteq> inside ths"
  by (auto simp: thread_set_defs)

lemma inside_upd: "inside (ths(t := th)) = (if th = Idle then inside ths - {t} else insert t (inside ths))"
  by (auto simp: inside_def)

lemma awake_upd: "awake (ths(t := th)) = (if \<exists>op l. th = Awake op l then insert t (awake ths) else awake ths - {t})"
  by (auto simp: awake_def)

lemma wakes_inside: "wakes n ths ths' \<Longrightarrow> inside ths' = inside ths"
  by (cases rule: wakes.cases, assumption) (auto simp: inside_def)

lemma wakes_list_inside: "wakes_list ns ths ths' \<Longrightarrow> inside ths' = inside ths"
  by (induction rule: wakes_list.induct) (auto simp: wakes_inside)

lemma wakes_one_awake:
  assumes "wakes NotifyOne ths ths'" "finite (inside ths)"
  shows "asleep ths' = {} \<or> card (awake ths') = Suc (card (awake ths))"
  using assms(1)
proof cases
  case (one t op l)
  have "finite (awake ths)" using assms(2) awake_inside by (rule finite_subset [rotated])
  with one show ?thesis by (simp add: awake_upd) (simp add: awake_def)
next
  case none
  then show ?thesis by (auto simp: asleep_def)
qed

lemma asleep_wake [simp]: "asleep (\<lambda>t. wake (ths t)) = {}"
  by (auto simp: asleep_def)

lemma wakes_all_asleep: "wakes NotifyAll ths ths' \<Longrightarrow> asleep ths' = {}"
  by auto

lemma wakes_asleep_empty: "wakes n ths ths' \<Longrightarrow> asleep ths = {} \<Longrightarrow> asleep ths' = {}"
  by (cases rule: wakes.cases, assumption) (auto simp: asleep_def)

lemma wakes_list_asleep_empty: "wakes_list ns ths ths' \<Longrightarrow> asleep ths = {} \<Longrightarrow> asleep ths' = {}"
  by (induction rule: wakes_list.induct) (auto dest: wakes_asleep_empty)

text \<open>Each notification wakes a further thread, as long as one is left to wake.\<close>

lemma wakes_list_awake:
  assumes "wakes_list ns ths ths'" "finite (inside ths)" "asleep ths' \<noteq> {}"
  shows "NotifyAll \<notin> set ns \<and> card (awake ths') = card (awake ths) + length ns"
  using assms
proof (induction rule: wakes_list.induct)
  case (cons n ths ths' ns ths'')
  have "asleep ths' \<noteq> {}" using cons.hyps(2) cons.prems(2) wakes_list_asleep_empty by blast
  then have "n = NotifyOne" using cons.hyps(1) by (cases n) (auto dest: wakes_all_asleep)
  with cons \<open>asleep ths' \<noteq> {}\<close> show ?case using wakes_one_awake [of ths ths'] wakes_inside [OF cons.hyps(1)] by auto
qed simp

text \<open>
  A class whose waiting methods share one condition, \<open>closed\<close> or a positive \<open>stock\<close>, and which sends a
  notification for each unit it adds (and one to all when it closes) never leaves a thread asleep
  beside an available unit: for each unit there is a woken thread or a notification on its way.
\<close>

locale monitor_supply =
  fixes M :: "('op, 'l, 's, 'r) monitor" and waits :: "'op \<Rightarrow> bool" and stock :: "'s \<Rightarrow> nat" and closed :: "'s \<Rightarrow> bool"
  assumes enter_same: "m_enter M op s = (s1, l) \<Longrightarrow> s1 = s"
    and untimed: "\<not> m_timed M op"
    and ready_iff: "m_ready M op l s \<longleftrightarrow> \<not> waits op \<or> closed s \<or> 0 < stock s"
    and stays_closed: "m_body M op l s = (s2, r, ns) \<Longrightarrow> closed s \<Longrightarrow> closed s2"
    and closing: "m_body M op l s = (s2, r, ns) \<Longrightarrow> \<not> closed s \<Longrightarrow> closed s2 \<Longrightarrow> NotifyAll \<in> set (ns @ m_after M op r)"
    and supplied: "m_body M op l s = (s2, r, ns) \<Longrightarrow> \<not> closed s2 \<Longrightarrow> NotifyAll \<notin> set (ns @ m_after M op r) \<Longrightarrow>
        m_ready M op l s \<Longrightarrow> stock s2 + (if waits op then 1 else 0) \<le> stock s + length (ns @ m_after M op r)"
begin

definition attended :: "('op, 'l, 's) config \<Rightarrow> bool" where
  "attended c \<longleftrightarrow> asleep (threads c) = {} \<or> NotifyAll \<in> set (pending c) \<or>
     \<not> closed (shared c) \<and> stock (shared c) \<le> card (awake (threads c)) + length (pending c)"

definition supply_inv :: "('op, 'l, 's) config \<Rightarrow> bool" where
  "supply_inv c \<longleftrightarrow> finite (inside (threads c)) \<and> (\<forall>t op l. call_of (threads c t) = Some (op, l) \<longrightarrow> waits op) \<and> attended c"

lemma supply_inv_init: "supply_inv (initial_config s)"
  by (simp add: supply_inv_def attended_def initial_config_def thread_set_defs)

lemma supply_inv_waits: "supply_inv c \<Longrightarrow> call_of (threads c t) = Some (op, l) \<Longrightarrow> waits op"
  unfolding supply_inv_def by blast

text \<open>The effect of a body, for a thread that was awake (\<open>k = 1\<close>) or not in a call (\<open>k = 0\<close>).\<close>

lemma attended_body:
  assumes body: "m_body M op l s = (s2, r, ns)" "m_ready M op l s" and wk: "wakes_list ns ths ths'"
    and fin: "finite (inside ths)" and k: "k \<le> (if waits op then 1 else 0)"
    and before: "asleep ths = {} \<or> NotifyAll \<in> set ps \<or> \<not> closed s \<and> stock s \<le> card (awake ths) + k + length ps"
  shows "asleep ths' = {} \<or> NotifyAll \<in> set (ps @ m_after M op r) \<or>
     \<not> closed s2 \<and> stock s2 \<le> card (awake ths') + length (ps @ m_after M op r)"
proof (cases "asleep ths' = {} \<or> NotifyAll \<in> set (ps @ m_after M op r)")
  case False
  then have aw: "NotifyAll \<notin> set ns" "card (awake ths') = card (awake ths) + length ns"
    using wakes_list_awake [OF wk fin] by auto
  have "asleep ths \<noteq> {}" using False wakes_list_asleep_empty [OF wk] by auto
  with before False have s: "\<not> closed s" "stock s \<le> card (awake ths) + k + length ps" by auto
  have none: "NotifyAll \<notin> set (ns @ m_after M op r)" using False aw by auto
  then have "\<not> closed s2" using closing [OF body(1) s(1)] by auto
  with supplied [OF body(1) _ none body(2)] s(2) aw(2) k show ?thesis by auto
qed auto

lemma supply_inv_step: "mstep M c es c' \<Longrightarrow> supply_inv c \<Longrightarrow> supply_inv c'"
proof (induction rule: mstep.induct)
  case (pass c t op s1 l s2 r ns ths)
  then have "s1 = shared c" by (auto dest: enter_same)
  with pass attended_body [of op l s1 s2 r ns "threads c" ths 0 "pending c"] show ?case
    by (auto simp: supply_inv_def attended_def wakes_list_inside wakes_list_call_of)
next
  case (block c t op s1 l)
  then have "s1 = shared c" by (auto dest: enter_same)
  with block show ?case by (auto simp: supply_inv_def attended_def inside_upd ready_iff split: if_splits)
next
  case (resume c t op l s2 r ns ths)
  then have w: "waits op" using supply_inv_waits [of c t op l] by simp
  have t: "t \<in> awake (threads c)" "finite (inside (threads c))" using resume by (auto simp: awake_def supply_inv_def)
  then have "finite (awake (threads c))" using awake_inside by (rule_tac finite_subset)
  with t have "card (awake (threads c)) = card (awake ((threads c)(t := Idle))) + 1"
    by (simp add: awake_upd card_gt_0_iff) (metis Suc_pred card_gt_0_iff empty_iff)
  moreover have "asleep (threads c) = asleep ((threads c)(t := Idle))" using resume.hyps(1) by (auto simp: asleep_def)
  ultimately show ?case
    using resume w t attended_body [of op l "shared c" s2 r ns "(threads c)(t := Idle)" ths 1 "pending c"]
    by (auto simp: supply_inv_def attended_def wakes_list_inside wakes_list_call_of inside_upd split: if_splits)
next
  case (resleep c t op l)
  then show ?case by (auto simp: supply_inv_def attended_def inside_upd ready_iff)
next
  case (spurious c t op l)
  then have fin: "finite (awake (threads c))" using awake_inside by (auto simp: supply_inv_def intro: finite_subset)
  have "t \<notin> awake (threads c)" "asleep ((threads c)(t := Awake op l)) \<subseteq> asleep (threads c)"
    using spurious.hyps by (auto simp: thread_set_defs)
  moreover have "waits op" using spurious supply_inv_waits [of c t op l] by simp
  ultimately show ?case using spurious fin by (auto simp: supply_inv_def attended_def inside_upd awake_upd)
next
  case (timeout c t op l s2 r ns ths)
  then show ?case by (simp add: untimed)
next
  case (deliver c ns1 n ns2 ths)
  have inside: "inside ths = inside (threads c)" "call_of (ths t) = call_of (threads c t)" for t
    using deliver.hyps(2) by (auto simp: wakes_inside wakes_call_of)
  have "attended (c\<lparr>threads := ths, pending := ns1 @ ns2\<rparr>)"
  proof (cases "asleep ths = {}")
    case False
    then have "asleep (threads c) \<noteq> {}" "n = NotifyOne"
      using deliver.hyps(2) wakes_asleep_empty wakes_all_asleep by (cases n; blast)+
    with False deliver wakes_one_awake [of "threads c" ths] show ?thesis by (auto simp: supply_inv_def attended_def)
  qed (simp add: attended_def)
  with deliver inside show ?case by (auto simp: supply_inv_def)
qed

lemma supply_inv_run: "msteps M (initial_config s) es c \<Longrightarrow> supply_inv c"
  by (induction rule: msteps.induct) (auto intro: supply_inv_init supply_inv_step)

text \<open>A sleeping thread beside an open supply has somebody who will look.\<close>

lemma no_lost_wakeup:
  assumes "msteps M (initial_config s) es c" "threads c t = Asleep op l" "m_ready M op l (shared c)"
  shows "awake (threads c) \<noteq> {} \<or> pending c \<noteq> []"
proof -
  from assms(1) have inv: "supply_inv c" by (rule supply_inv_run)
  with assms(2) have "waits op" "asleep (threads c) \<noteq> {}" using supply_inv_waits [of c t op l] by (auto simp: asleep_def)
  with assms(3) have "closed (shared c) \<or> 0 < stock (shared c)" by (simp add: ready_iff)
  with inv \<open>asleep (threads c) \<noteq> {}\<close> show ?thesis by (auto simp: supply_inv_def attended_def)
qed

lemma supply_covered:
  assumes "msteps M (initial_config s) es c" "asleep (threads c) \<noteq> {}" "NotifyAll \<notin> set (pending c)"
  shows "\<not> closed (shared c) \<and> stock (shared c) \<le> card (awake (threads c)) + length (pending c)"
  using supply_inv_run [OF assms(1)] assms(2,3) by (auto simp: supply_inv_def attended_def)

end

end
