(* ===== verification/SyncPrimitives.thy ===== *)
theory SyncPrimitives
  imports Monitor
begin

text \<open>
  The synchronisation classes of \<open>async_io/sync_primitives\<close>: the two barriers, the counting semaphore,
  the event listener, and the mutex, reader-writer and spin lock wrappers. The classes that wait
  on a condition variable are monitors in the sense of \<open>Monitor\<close>. The counters are integers: the
  code keeps them in \<open>int\<close>, which they leave only after \<open>2^31\<close> generations, phases or releases.
\<close>

section \<open>Definitions\<close>

subsection \<open>Barrier\<close>

record Barrier =
  thread_count :: int
  waiting_count :: int
  generation :: int

datatype BarrierOp = Barrier_Wait | Barrier_Reset

definition Barrier_new :: "int \<Rightarrow> Barrier" where
  "Barrier_new n = \<lparr>thread_count = n, waiting_count = 0, generation = 0\<rparr>"

text \<open>The local variables of \<open>Wait\<close>: the generation it has read, and whether it takes the branch of the last arrival.\<close>

fun Barrier_enter :: "BarrierOp \<Rightarrow> Barrier \<Rightarrow> Barrier \<times> (int \<times> bool)" where
  "Barrier_enter Barrier_Wait b =
     (b\<lparr>waiting_count := waiting_count b + 1\<rparr>, (generation b, waiting_count b + 1 \<ge> thread_count b))"
| "Barrier_enter Barrier_Reset b = (b, (0, False))"

fun Barrier_ready :: "BarrierOp \<Rightarrow> int \<times> bool \<Rightarrow> Barrier \<Rightarrow> bool" where
  "Barrier_ready Barrier_Wait (gen, is_last) b = (is_last \<or> generation b \<noteq> gen)"
| "Barrier_ready Barrier_Reset _ b = True"

fun Barrier_body :: "BarrierOp \<Rightarrow> int \<times> bool \<Rightarrow> Barrier \<Rightarrow> Barrier \<times> bool \<times> notify list" where
  "Barrier_body Barrier_Wait (gen, is_last) b =
     (if is_last then (b\<lparr>waiting_count := 0, generation := generation b + 1\<rparr>, True, [NotifyAll]) else (b, True, []))"
| "Barrier_body Barrier_Reset _ b =
     (if waiting_count b = 0 then (b\<lparr>generation := generation b + 1\<rparr>, True, []) else (b, False, []))"

definition Barrier_monitor :: "(BarrierOp, int \<times> bool, Barrier, bool) monitor" where
  "Barrier_monitor = \<lparr>m_enter = Barrier_enter, m_ready = Barrier_ready, m_timed = (\<lambda>_. False),
     m_body = Barrier_body, m_after = (\<lambda>_ _. [])\<rparr>"

subsection \<open>SyncBarrier\<close>

record SyncBarrier =
  sb_count :: int
  sb_waiting :: int
  sb_phase :: int

datatype SyncBarrierOp = Arrive | WaitPhase int | SyncBarrier_Reset


fun SyncBarrier_enter :: "SyncBarrierOp \<Rightarrow> SyncBarrier \<Rightarrow> SyncBarrier \<times> (int \<times> bool)" where
  "SyncBarrier_enter Arrive b = (b\<lparr>sb_waiting := sb_waiting b + 1\<rparr>, (sb_phase b, sb_waiting b + 1 = sb_count b))"
| "SyncBarrier_enter (WaitPhase p) b = (b, (p, False))"
| "SyncBarrier_enter SyncBarrier_Reset b = (b, (0, False))"

fun SyncBarrier_ready :: "SyncBarrierOp \<Rightarrow> int \<times> bool \<Rightarrow> SyncBarrier \<Rightarrow> bool" where
  "SyncBarrier_ready Arrive (current_phase, is_last) b = (is_last \<or> sb_phase b \<noteq> current_phase)"
| "SyncBarrier_ready (WaitPhase p) _ b = (sb_phase b \<ge> p)"
| "SyncBarrier_ready SyncBarrier_Reset _ b = True"

fun SyncBarrier_body :: "SyncBarrierOp \<Rightarrow> int \<times> bool \<Rightarrow> SyncBarrier \<Rightarrow> SyncBarrier \<times> bool \<times> notify list" where
  "SyncBarrier_body Arrive (current_phase, is_last) b =
     (if is_last then (b\<lparr>sb_phase := sb_phase b + 1, sb_waiting := 0\<rparr>, True, [NotifyAll]) else (b, True, []))"
| "SyncBarrier_body (WaitPhase p) _ b = (b, True, [])"
| "SyncBarrier_body SyncBarrier_Reset _ b = (if sb_waiting b \<noteq> 0 then (b, False, []) else (b\<lparr>sb_phase := 0\<rparr>, True, []))"

definition SyncBarrier_monitor :: "(SyncBarrierOp, int \<times> bool, SyncBarrier, bool) monitor" where
  "SyncBarrier_monitor = \<lparr>m_enter = SyncBarrier_enter, m_ready = SyncBarrier_ready, m_timed = (\<lambda>_. False),
     m_body = SyncBarrier_body, m_after = (\<lambda>_ _. [])\<rparr>"

subsection \<open>SyncSemaphoreCpu\<close>

datatype SemaphoreOp = Acquire | TryAcquire | Release | GetCount

definition SyncSemaphoreCpu_new :: "int \<Rightarrow> (string, int) exec" where
  "SyncSemaphoreCpu_new initial_count =
     (if initial_count < 0 then Fail ''SyncSemaphoreCpu: initial_count must be >= 0'' else Ok initial_count)"

fun Semaphore_ready :: "SemaphoreOp \<Rightarrow> unit \<Rightarrow> int \<Rightarrow> bool" where
  "Semaphore_ready Acquire _ n = (n > 0)"
| "Semaphore_ready _ _ n = True"

text \<open>The result is the value \<open>GetCount\<close> returns, or 1 and 0 for success and failure.\<close>

fun Semaphore_body :: "SemaphoreOp \<Rightarrow> unit \<Rightarrow> int \<Rightarrow> int \<times> int \<times> notify list" where
  "Semaphore_body Acquire _ n = (n - 1, 1, [])"
| "Semaphore_body TryAcquire _ n = (if n > 0 then (n - 1, 1, []) else (n, 0, []))"
| "Semaphore_body Release _ n = (n + 1, 1, [])"
| "Semaphore_body GetCount _ n = (n, n, [])"

fun Semaphore_after :: "SemaphoreOp \<Rightarrow> int \<Rightarrow> notify list" where
  "Semaphore_after Release _ = [NotifyOne]"
| "Semaphore_after _ _ = []"

definition Semaphore_monitor :: "(SemaphoreOp, unit, int, int) monitor" where
  "Semaphore_monitor = \<lparr>m_enter = (\<lambda>_ n. (n, ())), m_ready = Semaphore_ready, m_timed = (\<lambda>_. False),
     m_body = Semaphore_body, m_after = Semaphore_after\<rparr>"

subsection \<open>SyncEventListener\<close>

datatype EventOp = Event_Wait | Event_WaitFor | Signal | Event_Reset | IsTriggered

fun Event_ready :: "EventOp \<Rightarrow> unit \<Rightarrow> bool \<Rightarrow> bool" where
  "Event_ready Event_Wait _ triggered = triggered"
| "Event_ready Event_WaitFor _ triggered = triggered"
| "Event_ready _ _ triggered = True"

fun Event_body :: "EventOp \<Rightarrow> unit \<Rightarrow> bool \<Rightarrow> bool \<times> bool \<times> notify list" where
  "Event_body Event_Wait _ triggered = (triggered, True, [])"
| "Event_body Event_WaitFor _ triggered = (triggered, triggered, [])"
| "Event_body Signal _ triggered = (True, True, [])"
| "Event_body Event_Reset _ triggered = (False, True, [])"
| "Event_body IsTriggered _ triggered = (triggered, triggered, [])"

fun Event_after :: "EventOp \<Rightarrow> bool \<Rightarrow> notify list" where
  "Event_after Signal _ = [NotifyAll]"
| "Event_after _ _ = []"

definition Event_monitor :: "(EventOp, unit, bool, bool) monitor" where
  "Event_monitor = \<lparr>m_enter = (\<lambda>_ b. (b, ())), m_ready = Event_ready, m_timed = (\<lambda>op. op = Event_WaitFor),
     m_body = Event_body, m_after = Event_after\<rparr>"

lemmas monitor_defs = Barrier_monitor_def SyncBarrier_monitor_def Semaphore_monitor_def Event_monitor_def

subsection \<open>Lock wrappers\<close>

record MutexWrapper =
  mw_locked :: bool
  lock_count :: u64
  contention_count :: u64

definition Mutex_TryLock :: "MutexWrapper \<Rightarrow> bool \<times> MutexWrapper" where
  "Mutex_TryLock m = (if mw_locked m then (False, m) else (True, m\<lparr>mw_locked := True, lock_count := lock_count m + 1\<rparr>))"

text \<open>\<open>Lock\<close> up to the blocking \<open>mutex_.lock()\<close> (\<open>Inl\<close>), or to its end; and its end once that call has the mutex.\<close>

definition Mutex_Lock :: "MutexWrapper \<Rightarrow> MutexWrapper + MutexWrapper" where
  "Mutex_Lock m = (let (ok, m1) = Mutex_TryLock m in
     if \<not> ok then Inl (m1\<lparr>contention_count := contention_count m1 + 1\<rparr>)
     else Inr (m1\<lparr>lock_count := lock_count m1 + 1\<rparr>))"

definition Mutex_Lock_granted :: "MutexWrapper \<Rightarrow> MutexWrapper" where
  "Mutex_Lock_granted m = m\<lparr>mw_locked := True, lock_count := lock_count m + 1\<rparr>"

text \<open>The argument tells, for each pass of the loop before the deadline, whether \<open>try_lock\<close> gets the mutex.\<close>

fun Mutex_TryLockFor :: "bool list \<Rightarrow> MutexWrapper \<Rightarrow> bool \<times> MutexWrapper" where
  "Mutex_TryLockFor [] m = (False, m\<lparr>contention_count := contention_count m + 1\<rparr>)"
| "Mutex_TryLockFor (free # attempts) m =
     (if free then (True, m\<lparr>mw_locked := True, lock_count := lock_count m + 1\<rparr>) else Mutex_TryLockFor attempts m)"

definition Mutex_Unlock :: "MutexWrapper \<Rightarrow> MutexWrapper" where
  "Mutex_Unlock m = m\<lparr>mw_locked := False\<rparr>"

record ReadWriteLock =
  rw_readers :: nat
  rw_writer :: bool
  read_lock_count :: u64
  write_lock_count :: u64

definition RW_TryLockRead :: "ReadWriteLock \<Rightarrow> bool \<times> ReadWriteLock" where
  "RW_TryLockRead l =
     (if rw_writer l then (False, l) else (True, l\<lparr>rw_readers := rw_readers l + 1, read_lock_count := read_lock_count l + 1\<rparr>))"

definition RW_TryLockWrite :: "ReadWriteLock \<Rightarrow> bool \<times> ReadWriteLock" where
  "RW_TryLockWrite l =
     (if rw_writer l \<or> rw_readers l > 0 then (False, l) else (True, l\<lparr>rw_writer := True, write_lock_count := write_lock_count l + 1\<rparr>))"

text \<open>The blocking versions, \<open>None\<close> while they wait; unlocking a lock that is not held is undefined.\<close>

definition RW_LockRead :: "ReadWriteLock \<Rightarrow> ReadWriteLock option" where
  "RW_LockRead l = (if rw_writer l then None else Some (l\<lparr>rw_readers := rw_readers l + 1, read_lock_count := read_lock_count l + 1\<rparr>))"

definition RW_LockWrite :: "ReadWriteLock \<Rightarrow> ReadWriteLock option" where
  "RW_LockWrite l =
     (if rw_writer l \<or> rw_readers l > 0 then None else Some (l\<lparr>rw_writer := True, write_lock_count := write_lock_count l + 1\<rparr>))"

definition RW_UnlockRead :: "ReadWriteLock \<Rightarrow> (string, ReadWriteLock) exec" where
  "RW_UnlockRead l = (if rw_readers l = 0 then Undef else Ok (l\<lparr>rw_readers := rw_readers l - 1\<rparr>))"

definition RW_UnlockWrite :: "ReadWriteLock \<Rightarrow> (string, ReadWriteLock) exec" where
  "RW_UnlockWrite l = (if \<not> rw_writer l then Undef else Ok (l\<lparr>rw_writer := False\<rparr>))"

text \<open>The spin lock: its flag, and \<open>test_and_set\<close> on each turn of the loop.\<close>

definition Spin_TryLock :: "bool \<Rightarrow> bool \<times> bool" where
  "Spin_TryLock flag = (\<not> flag, True)"

definition Spin_Unlock :: "bool \<Rightarrow> bool" where
  "Spin_Unlock flag = False"

text \<open>The values the flag has when the loop tests it; \<open>None\<close> while it spins.\<close>

fun Spin_Lock :: "bool list \<Rightarrow> nat option" where
  "Spin_Lock [] = None"
| "Spin_Lock (flag # later) = (if fst (Spin_TryLock flag) then Some 0 else map_option Suc (Spin_Lock later))"

section \<open>Barrier\<close>

abbreviation wait_calls :: "(BarrierOp, bool) event list \<Rightarrow> nat" where
  "wait_calls es \<equiv> length (filter (\<lambda>e. \<exists>t. e = Called t Barrier_Wait) es)"

abbreviation wait_returns :: "(BarrierOp, bool) event list \<Rightarrow> nat" where
  "wait_returns es \<equiv> length (filter (\<lambda>e. \<exists>t r. e = Returned t Barrier_Wait r) es)"

text \<open>The threads of the current generation.\<close>

definition waiters :: "(BarrierOp, int \<times> bool, Barrier) config \<Rightarrow> nat set" where
  "waiters c = {t. call_of (threads c t) = Some (Barrier_Wait, (generation (shared c), False))}"

fun barrier_thread :: "int \<Rightarrow> (BarrierOp, int \<times> bool) thread \<Rightarrow> bool" where
  "barrier_thread gen Idle = True"
| "barrier_thread gen (Asleep op l) = (op = Barrier_Wait \<and> l = (gen, False))"
| "barrier_thread gen (Awake op l) = (op = Barrier_Wait \<and> fst l \<le> gen \<and> \<not> snd l)"

definition barrier_inv :: "int \<Rightarrow> (BarrierOp, bool) event list \<Rightarrow> (BarrierOp, int \<times> bool, Barrier) config \<Rightarrow> bool" where
  "barrier_inv n es c \<longleftrightarrow>
     thread_count (shared c) = n \<and> pending c = [] \<and> finite (inside (threads c)) \<and>
     waiting_count (shared c) = int (card (waiters c)) \<and> waiting_count (shared c) < n \<and>
     (\<forall>t. barrier_thread (generation (shared c)) (threads c t)) \<and>
     wait_returns es + card (inside (threads c)) = wait_calls es \<and>
     int (wait_calls es) mod n = waiting_count (shared c)"

lemma barrier_inv_thread: "barrier_inv n es c \<Longrightarrow> barrier_thread (generation (shared c)) (threads c t)"
  by (simp add: barrier_inv_def)

lemma barrier_thread_wake: "barrier_thread gen th \<Longrightarrow> barrier_thread (gen + 1) (wake th)"
  by (cases th) auto

lemma barrier_thread_old: "barrier_thread gen th \<Longrightarrow> call_of th \<noteq> Some (op, (gen + 1, x))"
  by (cases th) auto

lemma barrier_inv_init: "0 < n \<Longrightarrow> barrier_inv n [] (initial_config (Barrier_new n))"
  by (simp add: barrier_inv_def initial_config_def Barrier_new_def waiters_def inside_def)

lemma waiters_inside: "waiters c \<subseteq> inside (threads c)"
  by (auto simp: waiters_def inside_def)

lemma barrier_inv_no_waiters:
  "barrier_inv n es c \<Longrightarrow> waiting_count (shared c) = 0 \<Longrightarrow> waiters c = {}"
  using waiters_inside [of c] by (auto simp: barrier_inv_def dest: finite_subset)

lemma mod_succ_int: "(a::int) mod n = w \<Longrightarrow> w + 1 < n \<Longrightarrow> 0 \<le> w \<Longrightarrow> (a + 1) mod n = w + 1"
  by (metis add.commute add_nonneg_nonneg mod_add_right_eq mod_pos_pos_trivial zero_le_one)

lemma mod_wrap_int: "(a::int) mod n = w \<Longrightarrow> w + 1 = n \<Longrightarrow> (a + 1) mod n = 0"
  by (metis mod_add_left_eq mod_self)

text \<open>The last arrival starts the next generation and wakes everybody.\<close>

lemma barrier_release:
  assumes "barrier_inv n es c" "waiting_count (shared c) + 1 \<ge> n"
  shows "barrier_inv n (es @ [Called t Barrier_Wait, Returned t Barrier_Wait r])
     \<lparr>shared = (shared c)\<lparr>waiting_count := 0, generation := generation (shared c) + 1\<rparr>, threads = (\<lambda>t. wake (threads c t)), pending = []\<rparr>"
    (is "barrier_inv n ?es ?c")
proof -
  have w: "waiters ?c = {}"
    using assms(1) by (auto simp: waiters_def dest: barrier_inv_thread barrier_thread_old)
  have i: "inside (threads ?c) = inside (threads c)" by (auto simp: inside_def)
  have "(int (wait_calls es) + 1) mod n = 0"
    using assms by (auto simp: barrier_inv_def intro: mod_wrap_int)
  with assms show ?thesis unfolding barrier_inv_def w i by (simp add: barrier_thread_wake add.commute [of 1])
qed

lemma barrier_block:
  assumes "barrier_inv n es c" "threads c t = Idle" "waiting_count (shared c) + 1 < n"
  shows "barrier_inv n (es @ [Called t Barrier_Wait])
     (c\<lparr>shared := (shared c)\<lparr>waiting_count := waiting_count (shared c) + 1\<rparr>, threads := (threads c)(t := Asleep Barrier_Wait (generation (shared c), False))\<rparr>)"
    (is "barrier_inv n ?es ?c")
proof -
  have w: "waiters ?c = insert t (waiters c)" and i: "inside (threads ?c) = insert t (inside (threads c))"
    by (auto simp: waiters_def inside_def)
  have fin: "finite (inside (threads c))" "finite (waiters c)" and new: "t \<notin> inside (threads c)" "t \<notin> waiters c"
    using assms(1,2) waiters_inside [of c] by (auto simp: barrier_inv_def inside_def waiters_def dest: finite_subset)
  have "(int (wait_calls es) + 1) mod n = waiting_count (shared c) + 1"
    using assms by (auto simp: barrier_inv_def intro: mod_succ_int)
  with assms fin new show ?thesis unfolding barrier_inv_def w i by (simp add: add.commute)
qed

lemma barrier_return:
  assumes "barrier_inv n es c" "threads c t = Awake Barrier_Wait (g, False)" "generation (shared c) \<noteq> g"
  shows "barrier_inv n (es @ [Returned t Barrier_Wait r]) (c\<lparr>threads := (threads c)(t := Idle)\<rparr>)" (is "barrier_inv n ?es ?c")
proof -
  have w: "waiters ?c = waiters c" and i: "inside (threads ?c) = inside (threads c) - {t}" and t: "t \<in> inside (threads c)"
    using assms(2,3) by (auto simp: waiters_def inside_def)
  have "finite (inside (threads c))" using assms(1) by (simp add: barrier_inv_def)
  with t have "card (inside (threads c)) = Suc (card (inside (threads c) - {t}))" by (simp add: card_Suc_Diff1 del: card_Diff_insert)
  with assms show ?thesis unfolding barrier_inv_def w i by (simp del: card_Diff_insert)
qed

text \<open>A change of a blocked thread between sleeping and running within its call.\<close>

lemma barrier_shift:
  assumes "barrier_inv n es c" "call_of th = call_of (threads c t)" "barrier_thread (generation (shared c)) th"
  shows "barrier_inv n es (c\<lparr>threads := (threads c)(t := th)\<rparr>)" (is "barrier_inv n es ?c")
proof -
  have w: "waiters ?c = waiters c" using assms(2) by (auto simp: waiters_def)
  have "th = Idle \<longleftrightarrow> threads c t = Idle" using assms(2) by (cases th; cases "threads c t") auto
  then have i: "inside (threads ?c) = inside (threads c)" by (auto simp: inside_def)
  from assms show ?thesis unfolding barrier_inv_def w i by simp
qed

lemma barrier_reset:
  assumes "barrier_inv n es c" "waiting_count (shared c) = 0"
  shows "barrier_inv n (es @ [Called t Barrier_Reset, Returned t Barrier_Reset r])
     (c\<lparr>shared := (shared c)\<lparr>generation := generation (shared c) + 1\<rparr>\<rparr>)" (is "barrier_inv n ?es ?c")
proof -
  have none: "waiters c = {}" using assms by (rule barrier_inv_no_waiters)
  have w: "waiters ?c = {}"
    using assms(1) by (auto simp: waiters_def dest: barrier_inv_thread barrier_thread_old)
  have "barrier_thread (generation (shared c) + 1) (threads c u)" for u
  proof -
    have "call_of (threads c u) \<noteq> Some (Barrier_Wait, (generation (shared c), False))"
      using none by (auto simp: waiters_def)
    with barrier_inv_thread [OF assms(1), of u] show ?thesis by (cases "threads c u") auto
  qed
  moreover have i: "inside (threads ?c) = inside (threads c)" by (auto simp: inside_def)
  ultimately show ?thesis using assms none unfolding barrier_inv_def w i by simp
qed

lemma barrier_idle:
  "barrier_inv n es c \<Longrightarrow> barrier_inv n (es @ [Called t Barrier_Reset, Returned t Barrier_Reset r]) c"
  by (simp add: barrier_inv_def)

lemma barrier_inv_pass:
  assumes "barrier_inv n es c" "Barrier_enter op (shared c) = (s1, l)" "Barrier_ready op l s1"
    "Barrier_body op l s1 = (s2, r, ns)" "wakes_list ns (threads c) ths"
  shows "barrier_inv n (es @ [Called t op, Returned t op r]) \<lparr>shared = s2, threads = ths, pending = pending c\<rparr>"
proof -
  have n: "thread_count (shared c) = n" "pending c = []" using assms(1) by (auto simp: barrier_inv_def)
  show ?thesis
  proof (cases op)
    case Barrier_Wait
    with assms n show ?thesis using barrier_release [OF assms(1), of t r] by (auto split: if_splits)
  next
    case Barrier_Reset
    with assms show ?thesis
      using barrier_reset [OF assms(1), of t True] barrier_idle [OF assms(1), of t False]
      by (cases c) (auto split: if_splits)
  qed
qed

lemma barrier_inv_step: "mstep Barrier_monitor c es' c' \<Longrightarrow> barrier_inv n es c \<Longrightarrow> barrier_inv n (es @ es') c'"
proof (induction rule: mstep.induct)
  case (pass c t op s1 l s2 r ns ths)
  then show ?case using barrier_inv_pass [of n es c op s1 l s2 r ns ths t] by (simp add: Barrier_monitor_def)
next
  case (block c t op s1 l)
  then show ?case using barrier_block [of n es c t] by (cases op) (auto simp: Barrier_monitor_def barrier_inv_def)
next
  case (resume c t op l s2 r ns ths)
  obtain g where "op = Barrier_Wait" "l = (g, False)" 
    using barrier_inv_thread [OF resume.prems, of t] resume.hyps(1) by (cases l) auto
  then show ?case using barrier_return [OF resume.prems, of t g r] resume.hyps
    by (cases c) (auto simp: Barrier_monitor_def)
next
  case (resleep c t op l)
  have "barrier_thread (generation (shared c)) (Asleep op l)"
    using barrier_inv_thread [OF resleep.prems, of t] resleep.hyps by (cases l) (auto simp: Barrier_monitor_def)
  with resleep show ?case using barrier_shift [of n es c "Asleep op l" t] by simp
next
  case (spurious c t op l)
  have "barrier_thread (generation (shared c)) (Awake op l)"
    using barrier_inv_thread [OF spurious.prems, of t] spurious.hyps by auto
  with spurious show ?case using barrier_shift [of n es c "Awake op l" t] by simp
qed (auto simp: Barrier_monitor_def barrier_inv_def)

lemma barrier_inv_run:
  assumes "msteps Barrier_monitor (initial_config (Barrier_new n)) es c" "0 < n"
  shows "barrier_inv n es c"
  using assms by (induction rule: msteps.induct) (auto intro: barrier_inv_init barrier_inv_step)

lemma barrier_not_ready:
  assumes "barrier_inv n es c"
  shows "{t. \<exists>op l. call_of (threads c t) = Some (op, l) \<and> \<not> Barrier_ready op l (shared c)} = waiters c"
proof -
  have "call_of (threads c t) = Some (op, l) \<Longrightarrow> op = Barrier_Wait \<and> \<not> snd l" for t op l
    using barrier_inv_thread [OF assms, of t] by (cases "threads c t") auto
  then show ?thesis by (fastforce simp: waiters_def)
qed

text \<open>
  C17. However the calls of \<open>Wait\<close> and \<open>Reset\<close> interleave, threads pass a barrier of \<open>n\<close> in full groups only: the returns
  never exceed the arrivals rounded down to a multiple of \<open>n\<close>, the arrivals beyond it are exactly the threads that
  still have to wait, and no thread sleeps whose group is complete.
\<close>

theorem Barrier_groups:
  assumes "msteps Barrier_monitor (initial_config (Barrier_new n)) es c" "0 < n"
  shows "int (wait_returns es) \<le> n * (int (wait_calls es) div n) \<and>
    int (card {t. \<exists>op l. call_of (threads c t) = Some (op, l) \<and> \<not> Barrier_ready op l (shared c)}) = int (wait_calls es) mod n \<and>
    {t. \<exists>op l. threads c t = Asleep op l \<and> Barrier_ready op l (shared c)} = {}"
proof -
  from assms have inv: "barrier_inv n es c" by (rule barrier_inv_run)
  then have calls: "wait_returns es + card (inside (threads c)) = wait_calls es" "finite (inside (threads c))"
    "int (card (waiters c)) = int (wait_calls es) mod n" by (auto simp: barrier_inv_def)
  have "card (waiters c) \<le> card (inside (threads c))" using calls(2) waiters_inside by (rule card_mono)
  then have "int (wait_returns es) \<le> int (wait_calls es) - int (wait_calls es) mod n"
    using calls(1,3) by linarith
  moreover have "int (wait_calls es) - int (wait_calls es) mod n = n * (int (wait_calls es) div n)"
    by (simp add: minus_mod_eq_mult_div)
  moreover have "\<not> Barrier_ready op l (shared c)" if "threads c t = Asleep op l" for t op l
    using barrier_inv_thread [OF inv, of t] that by auto
  ultimately show ?thesis unfolding barrier_not_ready [OF inv] using calls(3) by auto
qed

section \<open>SyncBarrier\<close>




lemma call_of_None [simp]: "call_of th = None \<longleftrightarrow> th = Idle"
  by (cases th) auto







section \<open>Semaphore\<close>

fun acquired :: "(SemaphoreOp, int) event \<Rightarrow> int" where
  "acquired (Returned t Acquire r) = 1"
| "acquired (Returned t TryAcquire r) = r"
| "acquired _ = 0"

fun released :: "(SemaphoreOp, int) event \<Rightarrow> int" where
  "released (Returned t Release r) = 1"
| "released _ = 0"

interpretation sem: monitor_invariant Semaphore_monitor "\<lambda>n. 0 \<le> n"
proof
  fix s s2 r :: int and op l ns
  assume "0 \<le> s" "m_ready Semaphore_monitor op l s \<or> m_timed Semaphore_monitor op" "m_body Semaphore_monitor op l s = (s2, r, ns)"
  then show "0 \<le> s2" by (cases op) (auto simp: Semaphore_monitor_def split: if_splits)
qed (simp add: Semaphore_monitor_def)

fun semaphore_weight :: "SemaphoreOp \<Rightarrow> int \<Rightarrow> int" where
  "semaphore_weight Acquire r = - 1"
| "semaphore_weight TryAcquire r = - r"
| "semaphore_weight Release r = 1"
| "semaphore_weight GetCount r = 0"

interpretation sem_count: monitor_account Semaphore_monitor "\<lambda>n. n" "\<lambda>_. 0" semaphore_weight n for n
proof
  fix s s2 r :: int and op l ns
  assume "m_body Semaphore_monitor op l s = (s2, r, ns)"
  then show "s2 = s + semaphore_weight op r" by (cases op) (auto simp: Semaphore_monitor_def split: if_splits)
qed (simp add: Semaphore_monitor_def)

interpretation sem_supply: monitor_supply Semaphore_monitor "\<lambda>op. op = Acquire" nat "\<lambda>_. False"
proof
  fix s s2 r :: int and op l and ns :: "notify list"
  assume "m_body Semaphore_monitor op l s = (s2, r, ns)" "m_ready Semaphore_monitor op l s"
  then show "nat s2 + (if op = Acquire then 1 else 0) \<le> nat s + length (ns @ m_after Semaphore_monitor op r)"
    by (cases op) (auto simp: Semaphore_monitor_def split: if_splits)
next
  fix op l and s :: int
  show "m_ready Semaphore_monitor op l s \<longleftrightarrow> \<not> op = Acquire \<or> False \<or> 0 < nat s"
    by (cases op) (auto simp: Semaphore_monitor_def)
qed (auto simp: Semaphore_monitor_def)

lemma semaphore_event_weight: "event_weight (\<lambda>_. 0) semaphore_weight e = released e - acquired e"
proof (cases e)
  case (Returned t op r)
  then show ?thesis by (cases op) auto
qed simp

lemma semaphore_balance:
  "sum_list (map (event_weight (\<lambda>_. 0) semaphore_weight) es) = sum_list (map released es) - sum_list (map acquired es)"
  by (induction es) (simp_all add: semaphore_event_weight)

text \<open>
  C29. The semaphore hands out no permit twice: in every reachable configuration the counter is the initial count
  plus the releases minus the acquisitions, which never exceed what was there to take; and when threads sleep in
  \<open>Acquire\<close>, every free permit has a woken thread or a notification on its way.
\<close>

theorem Semaphore_permits:
  assumes "SyncSemaphoreCpu_new k = Ok n" "msteps Semaphore_monitor (initial_config n) es c"
  shows "shared c = k + sum_list (map released es) - sum_list (map acquired es) \<and>
    sum_list (map acquired es) \<le> k + sum_list (map released es) \<and>
    (asleep (threads c) = {} \<or> nat (shared c) \<le> card (awake (threads c)) + length (pending c))"
proof -
  have n: "n = k" "0 \<le> n" using assms(1) by (auto simp: SyncSemaphoreCpu_new_def split: if_splits)
  have "shared c = n + sum_list (map released es) - sum_list (map acquired es)"
    using sem_count.balanced.run_rel [OF assms(2), of n] by (simp add: initial_config_def semaphore_balance)
  moreover have "0 \<le> shared c" using sem.kept.run_rel [OF assms(2)] n(2) by (simp add: initial_config_def)
  moreover have "m_after Semaphore_monitor op r = [] \<or> m_after Semaphore_monitor op r = [NotifyOne]" for op r
    by (cases op) (auto simp: Semaphore_monitor_def)
  then have "NotifyAll \<notin> set (m_after Semaphore_monitor op r)" for op r by (metis empty_iff list.set notify.distinct(1) set_ConsD)
  then have "NotifyAll \<notin> set (pending c)" using pending_after [OF assms(2)] by (simp add: initial_config_def)
  ultimately show ?thesis using sem_supply.supply_covered [OF assms(2)] n(1) by auto
qed

theorem Semaphore_permits_witness:
  "\<exists>c. msteps Semaphore_monitor (initial_config 1) [Called 0 Acquire, Returned 0 Acquire 1, Called 1 Acquire, Called 0 Release, Returned 0 Release 1] c \<and>
     shared c = 1 + 1 - 1 \<and> asleep (threads c) = {1} \<and> 1 \<le> card (awake (threads c)) + length (pending c)"
proof -
  let ?c0 = "initial_config 1 :: (SemaphoreOp, unit, int) config"
  let ?c1 = "\<lparr>shared = 0, threads = (\<lambda>_. Idle), pending = []\<rparr> :: (SemaphoreOp, unit, int) config"
  let ?c2 = "\<lparr>shared = 0, threads = (\<lambda>_. Idle)(1 := Asleep Acquire ()), pending = []\<rparr> :: (SemaphoreOp, unit, int) config"
  let ?c3 = "\<lparr>shared = 1, threads = (\<lambda>_. Idle)(1 := Asleep Acquire ()), pending = [NotifyOne]\<rparr> :: (SemaphoreOp, unit, int) config"
  note defs = Semaphore_monitor_def initial_config_def
  have s1: "mstep Semaphore_monitor ?c0 [Called 0 Acquire, Returned 0 Acquire 1] ?c1"
    using mstep.pass [of ?c0 0 Semaphore_monitor Acquire 1 "()" 0 1 "[]" "threads ?c1"] by (simp add: defs)
  have s2: "mstep Semaphore_monitor ?c1 [Called 1 Acquire] ?c2"
    using mstep.block [of ?c1 1 Semaphore_monitor Acquire] by (simp add: defs)
  have s3: "mstep Semaphore_monitor ?c2 [Called 0 Release, Returned 0 Release 1] ?c3"
    using mstep.pass [of ?c2 0 Semaphore_monitor Release 0 "()" 1 1 "[]" "threads ?c3"] by (simp add: defs)
  have run: "msteps Semaphore_monitor ?c0 [Called 0 Acquire, Returned 0 Acquire 1, Called 1 Acquire, Called 0 Release, Returned 0 Release 1] ?c3"
    using msteps.step [OF msteps.step [OF msteps.step [OF msteps.start s1] s2] s3] by simp
  have "SyncSemaphoreCpu_new 1 = Ok 1" by (simp add: SyncSemaphoreCpu_new_def)
  from Semaphore_permits [OF this run] have "shared ?c3 = 1 + 1 - 1 \<and> 1 \<le> card (awake (threads ?c3)) + length (pending ?c3)"
    by (auto simp: asleep_def)
  moreover have "asleep (threads ?c3) = {1}" by (auto simp: asleep_def)
  ultimately show ?thesis using run by blast
qed

theorem Barrier_groups_witness:
  "\<exists>c. msteps Barrier_monitor (initial_config (Barrier_new 2)) [Called 0 Barrier_Wait, Called 1 Barrier_Wait, Returned 1 Barrier_Wait True] c \<and>
     {t. \<exists>op l. threads c t = Asleep op l \<and> Barrier_ready op l (shared c)} = {} \<and> threads c 0 = Awake Barrier_Wait (0, False)"
proof -
  let ?c0 = "initial_config (Barrier_new 2) :: (BarrierOp, int \<times> bool, Barrier) config"
  let ?b1 = "(Barrier_new 2)\<lparr>waiting_count := 1\<rparr>" and ?b2 = "(Barrier_new 2)\<lparr>waiting_count := 2\<rparr>" and ?b3 = "(Barrier_new 2)\<lparr>generation := 1\<rparr>"
  let ?c1 = "\<lparr>shared = ?b1, threads = (\<lambda>_. Idle)(0 := Asleep Barrier_Wait (0, False)), pending = []\<rparr>"
  let ?c2 = "\<lparr>shared = ?b3, threads = (\<lambda>_. Idle)(0 := Awake Barrier_Wait (0, False)), pending = []\<rparr>"
  note defs = Barrier_monitor_def initial_config_def Barrier_new_def
  have s1: "mstep Barrier_monitor ?c0 [Called 0 Barrier_Wait] ?c1"
    using mstep.block [of ?c0 0 Barrier_monitor Barrier_Wait] by (simp add: defs)
  have s2: "mstep Barrier_monitor ?c1 [Called 1 Barrier_Wait, Returned 1 Barrier_Wait True] ?c2"
    using mstep.pass [of ?c1 1 Barrier_monitor Barrier_Wait ?b2 "(0, True)" ?b3 True "[NotifyAll]" "threads ?c2"]
    by (simp add: defs fun_eq_iff)
  have run: "msteps Barrier_monitor ?c0 [Called 0 Barrier_Wait, Called 1 Barrier_Wait, Returned 1 Barrier_Wait True] ?c2"
    using msteps.step [OF msteps.step [OF msteps.start s1] s2] by simp
  from Barrier_groups [OF this] have "{t. \<exists>op l. threads ?c2 t = Asleep op l \<and> Barrier_ready op l (shared ?c2)} = {}" by simp
  with run show ?thesis by fastforce
qed

section \<open>Lock wrappers\<close>

text \<open>\<open>Lock\<close> calls \<open>TryLock\<close>, which counts, and then counts again: an uncontended lock is counted twice.\<close>

lemma Mutex_Lock_counts_twice: "\<not> mw_locked m \<Longrightarrow> Mutex_Lock m = Inr (m\<lparr>mw_locked := True, lock_count := lock_count m + 2\<rparr>)"
  by (cases m) (simp add: Mutex_Lock_def Mutex_TryLock_def)

lemma Mutex_Lock_contended:
  "mw_locked m \<Longrightarrow> \<exists>m1. Mutex_Lock m = Inl m1 \<and> lock_count (Mutex_Lock_granted m1) = lock_count m + 1 \<and> contention_count m1 = contention_count m + 1"
  by (simp add: Mutex_Lock_def Mutex_TryLock_def Mutex_Lock_granted_def)

definition rw_exclusive :: "ReadWriteLock \<Rightarrow> bool" where
  "rw_exclusive l \<longleftrightarrow> \<not> (rw_writer l \<and> rw_readers l > 0)"

lemma rw_exclusive_kept:
  assumes "rw_exclusive l"
  shows "rw_exclusive (snd (RW_TryLockRead l))" "rw_exclusive (snd (RW_TryLockWrite l))"
    "RW_LockRead l = Some l1 \<Longrightarrow> rw_exclusive l1" "RW_LockWrite l = Some l1 \<Longrightarrow> rw_exclusive l1"
    "RW_UnlockRead l = Ok l1 \<Longrightarrow> rw_exclusive l1" "RW_UnlockWrite l = Ok l1 \<Longrightarrow> rw_exclusive l1"
  using assms by (auto simp: rw_exclusive_def RW_TryLockRead_def RW_TryLockWrite_def RW_LockRead_def RW_LockWrite_def
      RW_UnlockRead_def RW_UnlockWrite_def split: if_splits)

lemma Spin_Lock_first_clear: "Spin_Lock flags = Some k \<Longrightarrow> k < length flags \<and> \<not> flags ! k \<and> (\<forall>i<k. flags ! i)"
  by (induction flags arbitrary: k) (auto simp: Spin_TryLock_def less_Suc_eq_0_disj split: if_splits)

end
