(* ===== verification/TaskQueues.thy ===== *)
theory TaskQueues
  imports Monitor "HOL-Library.Multiset"
begin

text \<open>
  The task queues of \<open>async_io\<close>: \<open>std::priority_queue\<close> as a binary heap in a vector, the bounded queue with
  cancellation of \<open>async_task_queue.cc\<close> and the waiting queue of \<open>io_priority_queue.cc\<close>, as monitors. The order
  of tasks of equal priority, which C++ leaves open, is used by no statement. Task bodies and completion
  callbacks are opaque values. The identifiers and counters are natural numbers: the code keeps them
  in 64 bits.
\<close>

section \<open>Definitions\<close>

subsection \<open>std::priority_queue\<close>

definition swap_at :: "'a list \<Rightarrow> nat \<Rightarrow> nat \<Rightarrow> 'a list" where
  "swap_at v i j = v[i := v ! j, j := v ! i]"

definition heap_parent :: "nat \<Rightarrow> nat" where
  "heap_parent i = (i - 1) div 2"

function sift_up :: "('a \<Rightarrow> int) \<Rightarrow> 'a list \<Rightarrow> nat \<Rightarrow> 'a list" where
  "sift_up k v i = (if i = 0 \<or> k (v ! i) \<le> k (v ! heap_parent i) then v else sift_up k (swap_at v i (heap_parent i)) (heap_parent i))"
  by pat_completeness auto
termination
  by (relation "measure (\<lambda>(k, v, i). i)") (auto simp: heap_parent_def)

definition heap_child :: "('a \<Rightarrow> int) \<Rightarrow> 'a list \<Rightarrow> nat \<Rightarrow> nat" where
  "heap_child k v i = (if 2 * i + 2 < length v \<and> k (v ! (2 * i + 1)) < k (v ! (2 * i + 2)) then 2 * i + 2 else 2 * i + 1)"

function sift_down :: "('a \<Rightarrow> int) \<Rightarrow> 'a list \<Rightarrow> nat \<Rightarrow> 'a list" where
  "sift_down k v i =
     (if length v \<le> 2 * i + 1 \<or> k (v ! heap_child k v i) \<le> k (v ! i) then v
      else sift_down k (swap_at v i (heap_child k v i)) (heap_child k v i))"
  by pat_completeness auto
termination
  by (relation "measure (\<lambda>(k, v, i). length v - i)") (auto simp: swap_at_def heap_child_def)

declare sift_up.simps [simp del] sift_down.simps [simp del]

definition heap_push :: "('a \<Rightarrow> int) \<Rightarrow> 'a list \<Rightarrow> 'a \<Rightarrow> 'a list" where
  "heap_push k v x = sift_up k (v @ [x]) (length v)"

definition heap_pop :: "('a \<Rightarrow> int) \<Rightarrow> 'a list \<Rightarrow> 'a list" where
  "heap_pop k v = (if length v \<le> 1 then [] else sift_down k ((butlast v)[0 := last v]) 0)"

definition is_heap :: "('a \<Rightarrow> int) \<Rightarrow> 'a list \<Rightarrow> bool" where
  "is_heap k v \<longleftrightarrow> (\<forall>i < length v. 0 < i \<longrightarrow> k (v ! i) \<le> k (v ! heap_parent i))"

section \<open>The heap\<close>

lemma heap_parent_less: "0 < i \<Longrightarrow> heap_parent i < i"
  by (simp add: heap_parent_def)

lemma heap_parent_eq: "0 < j \<Longrightarrow> heap_parent j = i \<longleftrightarrow> j = 2 * i + 1 \<or> j = 2 * i + 2"
  by (auto simp: heap_parent_def)

lemma length_swap_at [simp]: "length (swap_at v i j) = length v"
  by (simp add: swap_at_def)

lemma mset_swap_at [simp]: "i < length v \<Longrightarrow> j < length v \<Longrightarrow> mset (swap_at v i j) = mset v"
  by (simp add: swap_at_def mset_swap)

lemma nth_swap_at:
  "i < length v \<Longrightarrow> j < length v \<Longrightarrow> swap_at v i j ! n = (if n = j then v ! i else if n = i then v ! j else v ! n)"
  by (simp add: swap_at_def nth_list_update)

text \<open>Heap order except between \<open>i\<close> and its parent, and except between \<open>i\<close> and its children.\<close>

definition heap_above :: "('a \<Rightarrow> int) \<Rightarrow> 'a list \<Rightarrow> nat \<Rightarrow> bool" where
  "heap_above k v i \<longleftrightarrow> (\<forall>j < length v. 0 < j \<longrightarrow>
     (j \<noteq> i \<longrightarrow> k (v ! j) \<le> k (v ! heap_parent j)) \<and> (heap_parent j = i \<longrightarrow> 0 < i \<longrightarrow> k (v ! j) \<le> k (v ! heap_parent i)))"

definition heap_below :: "('a \<Rightarrow> int) \<Rightarrow> 'a list \<Rightarrow> nat \<Rightarrow> bool" where
  "heap_below k v i \<longleftrightarrow> (\<forall>j < length v. 0 < j \<longrightarrow>
     (heap_parent j \<noteq> i \<longrightarrow> k (v ! j) \<le> k (v ! heap_parent j)) \<and> (heap_parent j = i \<longrightarrow> 0 < i \<longrightarrow> k (v ! j) \<le> k (v ! heap_parent i)))"

lemma sift_up_heap:
  assumes "i < length v" "heap_above k v i"
  shows "is_heap k (sift_up k v i) \<and> mset (sift_up k v i) = mset v"
  using assms
proof (induction k v i rule: sift_up.induct)
  case (1 k v i)
  show ?case
  proof (cases "i = 0 \<or> k (v ! i) \<le> k (v ! heap_parent i)")
    case True
    with 1(3) have "is_heap k v" by (auto simp: heap_above_def is_heap_def)
    with True show ?thesis by (auto simp: sift_up.simps)
  next
    case False
    then have p: "heap_parent i < i" "k (v ! heap_parent i) \<le> k (v ! i)" "heap_parent i \<noteq> i"
      using heap_parent_less [of i] by auto
    have "heap_above k (swap_at v i (heap_parent i)) (heap_parent i)"
      unfolding heap_above_def
    proof (intro allI impI)
      fix j assume j: "j < length (swap_at v i (heap_parent i))" "0 < j"
      have hj: "j \<noteq> i \<longrightarrow> k (v ! j) \<le> k (v ! heap_parent j)" "heap_parent j = i \<longrightarrow> 0 < i \<longrightarrow> k (v ! j) \<le> k (v ! heap_parent i)"
        using 1(3) j by (auto simp: heap_above_def)
      have hp: "0 < heap_parent i \<longrightarrow> k (v ! heap_parent i) \<le> k (v ! heap_parent (heap_parent i))"
        using 1(3) 1(2) p by (auto simp: heap_above_def)
      show "(j \<noteq> heap_parent i \<longrightarrow> k (swap_at v i (heap_parent i) ! j) \<le> k (swap_at v i (heap_parent i) ! heap_parent j)) \<and>
         (heap_parent j = heap_parent i \<longrightarrow> 0 < heap_parent i \<longrightarrow> k (swap_at v i (heap_parent i) ! j) \<le> k (swap_at v i (heap_parent i) ! heap_parent (heap_parent i)))"
        using hj hp p 1(2) j heap_parent_less [OF j(2)] by (auto simp: nth_swap_at)
    qed
    with 1(1) [OF False] 1(2) p False show ?thesis by (subst (1 2) sift_up.simps) auto
  qed
qed

lemma heap_child_props:
  assumes "2 * i + 1 < length v"
  shows "heap_child k v i < length v" "0 < heap_child k v i" "i < heap_child k v i" "heap_parent (heap_child k v i) = i"
    "j < length v \<Longrightarrow> 0 < j \<Longrightarrow> heap_parent j = i \<Longrightarrow> k (v ! j) \<le> k (v ! heap_child k v i)"
  using assms by (auto simp: heap_child_def heap_parent_eq)

lemma sift_down_heap:
  assumes "i < length v" "heap_below k v i"
  shows "is_heap k (sift_down k v i) \<and> mset (sift_down k v i) = mset v"
  using assms
proof (induction k v i rule: sift_down.induct)
  case (1 k v i)
  show ?case
  proof (cases "length v \<le> 2 * i + 1 \<or> k (v ! heap_child k v i) \<le> k (v ! i)")
    case True
    have "k (v ! j) \<le> k (v ! heap_parent j)" if j: "j < length v" "0 < j" for j
    proof (cases "heap_parent j = i")
      case c: True
      with j have "2 * i + 1 < length v" by (auto simp: heap_parent_eq)
      with heap_child_props(5) [OF this j c, where k = k] True c show ?thesis by simp
    next
      case False
      with 1(3) j show ?thesis by (auto simp: heap_below_def)
    qed
    with True show ?thesis by (simp add: sift_down.simps is_heap_def)
  next
    case False
    define m where "m = heap_child k v i"
    have "2 * i + 1 < length v" using False by simp
    note m = heap_child_props [OF this, where k = k, folded m_def]
    have less: "k (v ! i) < k (v ! m)" using False by (simp add: m_def)
    have "heap_below k (swap_at v i m) m"
      unfolding heap_below_def
    proof (intro allI impI)
      fix j assume j: "j < length (swap_at v i m)" "0 < j"
      have hj: "heap_parent j \<noteq> i \<longrightarrow> k (v ! j) \<le> k (v ! heap_parent j)" "heap_parent j = i \<longrightarrow> 0 < i \<longrightarrow> k (v ! j) \<le> k (v ! heap_parent i)"
        using 1(3) j by (auto simp: heap_below_def)
      have hm: "0 < i \<longrightarrow> k (v ! m) \<le> k (v ! heap_parent i)" using 1(3) m by (auto simp: heap_below_def)
      show "(heap_parent j \<noteq> m \<longrightarrow> k (swap_at v i m ! j) \<le> k (swap_at v i m ! heap_parent j)) \<and>
        (heap_parent j = m \<longrightarrow> 0 < m \<longrightarrow> k (swap_at v i m ! j) \<le> k (swap_at v i m ! heap_parent m))"
        using hj hm m less 1(2) j heap_parent_less [OF j(2)] m(5) [of j] by (auto simp: nth_swap_at)
    qed
    then have "is_heap k (sift_down k (swap_at v i m) m) \<and> mset (sift_down k (swap_at v i m) m) = mset (swap_at v i m)"
      using 1(1) [OF False, folded m_def] m(1) by simp
    moreover have "sift_down k v i = sift_down k (swap_at v i m) m" using False by (subst sift_down.simps) (simp add: m_def)
    ultimately show ?thesis using m(1) 1(2) by simp
  qed
qed

lemma heap_push_ok:
  assumes "is_heap k v"
  shows "is_heap k (heap_push k v x)" "mset (heap_push k v x) = add_mset x (mset v)"
proof -
  have "heap_above k (v @ [x]) (length v)"
    unfolding heap_above_def
  proof (intro allI impI)
    fix j assume j: "j < length (v @ [x])" "0 < j"
    have "heap_parent j < j" using j(2) by (rule heap_parent_less)
    with assms j show "(j \<noteq> length v \<longrightarrow> k ((v @ [x]) ! j) \<le> k ((v @ [x]) ! heap_parent j)) \<and>
       (heap_parent j = length v \<longrightarrow> 0 < length v \<longrightarrow> k ((v @ [x]) ! j) \<le> k ((v @ [x]) ! heap_parent (length v)))"
      by (auto simp: is_heap_def nth_append)
  qed
  from sift_up_heap [OF _ this] show "is_heap k (heap_push k v x)" "mset (heap_push k v x) = add_mset x (mset v)"
    by (auto simp: heap_push_def)
qed

lemma heap_pop_ok:
  assumes "is_heap k v" "v \<noteq> []"
  shows "is_heap k (heap_pop k v)" "add_mset (hd v) (mset (heap_pop k v)) = mset v"
proof -
  let ?w = "(butlast v)[0 := last v]"
  have "is_heap k (heap_pop k v) \<and> add_mset (hd v) (mset (heap_pop k v)) = mset v"
  proof (cases "length v \<le> 1")
    case True
    with assms(2) show ?thesis by (cases v) (auto simp: heap_pop_def is_heap_def)
  next
    case False
    then obtain x y ys where v: "v = x # ys @ [y]"
      by (metis append_butlast_last_id list.exhaust list.size(3) list.size(4) One_nat_def le0 add_0 order_refl length_0_conv)
    have w: "?w = y # ys" by (simp add: v)
    have "heap_below k ?w 0"
      unfolding heap_below_def w
    proof (intro allI impI)
      fix j assume j: "j < length (y # ys)" "0 < j"
      have "k (v ! j) \<le> k (v ! heap_parent j)" using assms(1) j by (auto simp: is_heap_def v)
      with j show "(heap_parent j \<noteq> 0 \<longrightarrow> k ((y # ys) ! j) \<le> k ((y # ys) ! heap_parent j)) \<and>
         (heap_parent j = 0 \<longrightarrow> 0 < (0::nat) \<longrightarrow> k ((y # ys) ! j) \<le> k ((y # ys) ! heap_parent 0))"
        using heap_parent_less [OF j(2)] by (auto simp: v nth_Cons' nth_append split: if_splits)
    qed
    with sift_down_heap [of 0 ?w k] False show ?thesis by (auto simp: heap_pop_def w v)
  qed
  then show "is_heap k (heap_pop k v)" "add_mset (hd v) (mset (heap_pop k v)) = mset v" by auto
qed

lemma is_heap_top:
  assumes "is_heap k v" "i < length v"
  shows "k (v ! i) \<le> k (v ! 0)"
  using assms(2)
proof (induction i rule: less_induct)
  case (less i)
  show ?case
  proof (cases "i = 0")
    case False
    then have "k (v ! i) \<le> k (v ! heap_parent i)" using assms(1) less.prems by (auto simp: is_heap_def)
    also have "\<dots> \<le> k (v ! 0)" using less False heap_parent_less [of i] by auto
    finally show ?thesis .
  qed simp
qed

lemma is_heap_hd: "is_heap k v \<Longrightarrow> x \<in> set v \<Longrightarrow> k x \<le> k (hd v)"
  by (metis in_set_conv_nth is_heap_top hd_conv_nth empty_iff list.set(1))

lemma is_heap_Nil [simp]: "is_heap k []"
  by (simp add: is_heap_def)

lemma length_sift_down [simp]: "length (sift_down k v i) = length v"
  by (induction k v i rule: sift_down.induct) (subst sift_down.simps, auto)

lemma length_sift_up [simp]: "length (sift_up k v i) = length v"
  by (induction k v i rule: sift_up.induct) (subst sift_up.simps, auto)

lemma length_heap_pop [simp]: "length (heap_pop k v) = length v - 1"
  by (auto simp: heap_pop_def)

lemma length_heap_push [simp]: "length (heap_push k v x) = Suc (length v)"
  by (simp add: heap_push_def)

section \<open>AsyncTaskQueue\<close>

record QueuedTask =
  task :: nat
  on_complete :: "nat option"
  priority :: int
  task_id :: nat

record AsyncTaskQueue =
  task_queue :: "QueuedTask list"
  cancelled_tasks :: "nat set"
  max_queue_size :: nat
  task_id_counter :: nat
  tasks_processed :: nat
  is_running :: bool

datatype TaskQueueOp =
    EnqueueTask nat int "nat option"
  | TryEnqueueTask nat int "nat option"
  | DequeueTask QueuedTask
  | Queue_Clear
  | Shutdown
  | CancelTask nat

datatype TaskQueueResult = TaskId nat | Flag bool | Dequeued bool QueuedTask | Done

definition AsyncTaskQueue_new :: "nat \<Rightarrow> AsyncTaskQueue" where
  "AsyncTaskQueue_new n = \<lparr>task_queue = [], cancelled_tasks = {}, max_queue_size = n, task_id_counter = 0, tasks_processed = 0, is_running = True\<rparr>"

definition push_task :: "AsyncTaskQueue \<Rightarrow> nat \<Rightarrow> int \<Rightarrow> nat option \<Rightarrow> AsyncTaskQueue" where
  "push_task q f p cb = q\<lparr>task_id_counter := task_id_counter q + 1,
     task_queue := heap_push priority (task_queue q) \<lparr>task = f, on_complete = cb, priority = p, task_id = task_id_counter q + 1\<rparr>\<rparr>"

text \<open>
  The loop of \<open>DequeueTask\<close> while the queue runs: the vector, the cancelled identifiers, the caller's variable, and
  the number of notifications sent so far.
\<close>

function dequeue_loop :: "QueuedTask list \<Rightarrow> nat set \<Rightarrow> QueuedTask \<Rightarrow> nat \<Rightarrow> QueuedTask list \<times> nat set \<times> bool \<times> QueuedTask \<times> nat" where
  "dequeue_loop v cancelled out n =
     (if v = [] then (v, cancelled, False, out, n)
      else if task_id (hd v) \<in> cancelled then dequeue_loop (heap_pop priority v) (cancelled - {task_id (hd v)}) (hd v) (n + 1)
      else (heap_pop priority v, cancelled, True, hd v, n + 1))"
  by pat_completeness auto
termination
  by (relation "measure (\<lambda>(v, c, out, n). length v)") auto

declare dequeue_loop.simps [simp del]

fun TaskQueue_ready :: "TaskQueueOp \<Rightarrow> unit \<Rightarrow> AsyncTaskQueue \<Rightarrow> bool" where
  "TaskQueue_ready (EnqueueTask f p cb) _ q = (\<not> is_running q \<or> length (task_queue q) < max_queue_size q)"
| "TaskQueue_ready _ _ q = True"

fun TaskQueue_body :: "TaskQueueOp \<Rightarrow> unit \<Rightarrow> AsyncTaskQueue \<Rightarrow> AsyncTaskQueue \<times> TaskQueueResult \<times> notify list" where
  "TaskQueue_body (EnqueueTask f p cb) _ q =
     (if \<not> is_running q then (q, TaskId 0, []) else (push_task q f p cb, TaskId (task_id_counter q + 1), [NotifyOne]))"
| "TaskQueue_body (TryEnqueueTask f p cb) _ q =
     (if \<not> is_running q \<or> length (task_queue q) \<ge> max_queue_size q then (q, Flag False, [])
      else (push_task q f p cb, Flag True, [NotifyOne]))"
| "TaskQueue_body (DequeueTask out) _ q =
     (if \<not> is_running q then (q, Dequeued False out, [])
      else case dequeue_loop (task_queue q) (cancelled_tasks q) out 0 of (v, c, ok, t, n) \<Rightarrow>
        (q\<lparr>task_queue := v, cancelled_tasks := c, tasks_processed := tasks_processed q + (if ok then 1 else 0)\<rparr>,
         Dequeued ok t, replicate n NotifyOne))"
| "TaskQueue_body Queue_Clear _ q = (q\<lparr>task_queue := [], cancelled_tasks := {}\<rparr>, Done, [NotifyAll])"
| "TaskQueue_body Shutdown _ q = (q\<lparr>is_running := False, task_queue := [], cancelled_tasks := {}\<rparr>, Done, [])"
| "TaskQueue_body (CancelTask i) _ q = (q\<lparr>cancelled_tasks := insert i (cancelled_tasks q)\<rparr>, Flag True, [])"

fun TaskQueue_after :: "TaskQueueOp \<Rightarrow> TaskQueueResult \<Rightarrow> notify list" where
  "TaskQueue_after Shutdown _ = [NotifyAll]"
| "TaskQueue_after _ _ = []"

definition TaskQueue_monitor :: "(TaskQueueOp, unit, AsyncTaskQueue, TaskQueueResult) monitor" where
  "TaskQueue_monitor = \<lparr>m_enter = (\<lambda>_ q. (q, ())), m_ready = TaskQueue_ready, m_timed = (\<lambda>_. False),
     m_body = TaskQueue_body, m_after = TaskQueue_after\<rparr>"

definition GetQueueSize :: "AsyncTaskQueue \<Rightarrow> int" where
  "GetQueueSize q = signed_take_bit 31 (int (length (task_queue q)))"

definition GetCancelledCount :: "AsyncTaskQueue \<Rightarrow> nat" where
  "GetCancelledCount q = card (cancelled_tasks q)"

section \<open>IOPriorityQueue\<close>

record IOPriorityItem =
  io_priority :: int
  io_task :: nat

datatype PriorityQueueOp = Push IOPriorityItem | TryPop IOPriorityItem | WaitPop IOPriorityItem | Empty

fun PriorityQueue_ready :: "PriorityQueueOp \<Rightarrow> unit \<Rightarrow> IOPriorityItem list \<Rightarrow> bool" where
  "PriorityQueue_ready (WaitPop _) _ q = (q \<noteq> [])"
| "PriorityQueue_ready _ _ q = True"

text \<open>The result: the returned flag and the caller's item.\<close>

fun PriorityQueue_body :: "PriorityQueueOp \<Rightarrow> unit \<Rightarrow> IOPriorityItem list \<Rightarrow> IOPriorityItem list \<times> (bool \<times> IOPriorityItem option) \<times> notify list" where
  "PriorityQueue_body (Push item) _ q = (heap_push io_priority q item, (True, None), [])"
| "PriorityQueue_body (TryPop item) _ q =
     (if q = [] then (q, (False, Some item), []) else (heap_pop io_priority q, (True, Some (hd q)), []))"
| "PriorityQueue_body (WaitPop item) _ q = (heap_pop io_priority q, (True, Some (hd q)), [])"
| "PriorityQueue_body Empty _ q = (q, (q = [], None), [])"

fun PriorityQueue_after :: "PriorityQueueOp \<Rightarrow> bool \<times> IOPriorityItem option \<Rightarrow> notify list" where
  "PriorityQueue_after (Push item) _ = [NotifyOne]"
| "PriorityQueue_after _ _ = []"

definition PriorityQueue_monitor :: "(PriorityQueueOp, unit, IOPriorityItem list, bool \<times> IOPriorityItem option) monitor" where
  "PriorityQueue_monitor = \<lparr>m_enter = (\<lambda>_ q. (q, ())), m_ready = PriorityQueue_ready, m_timed = (\<lambda>_. False),
     m_body = PriorityQueue_body, m_after = PriorityQueue_after\<rparr>"

section \<open>Dequeuing\<close>

lemma dequeue_loop_cases:
  "dequeue_loop [] C out n = ([], C, False, out, n)"
  "v \<noteq> [] \<Longrightarrow> task_id (hd v) \<in> C \<Longrightarrow>
     dequeue_loop v C out n = dequeue_loop (heap_pop priority v) (C - {task_id (hd v)}) (hd v) (n + 1)"
  "v \<noteq> [] \<Longrightarrow> task_id (hd v) \<notin> C \<Longrightarrow> dequeue_loop v C out n = (heap_pop priority v, C, True, hd v, n + 1)"
  by (simp_all add: dequeue_loop.simps [of v] dequeue_loop.simps [of "[]"])

lemma dequeue_loop_length:
  "dequeue_loop v C out n = (v', C', ok, t, n') \<Longrightarrow> length v' \<le> length v \<and> n' + length v' = n + length v"
proof (induction v C out n rule: dequeue_loop.induct)
  case (1 v C out n)
  consider "v = []" | "v \<noteq> []" "task_id (hd v) \<in> C" | "v \<noteq> []" "task_id (hd v) \<notin> C" by blast
  then show ?case
  proof cases
    case 2
    with 1 have "length v' \<le> length v - 1 \<and> n' + length v' = n + 1 + (length v - 1)" by (simp add: dequeue_loop_cases)
    with 2(1) show ?thesis by (cases v) auto
  qed (use "1.prems" in \<open>auto simp: dequeue_loop_cases\<close>)
qed

text \<open>What a call removes: the tasks it drops are cancelled ones, the task it returns is the best of the others.\<close>

lemma dequeue_loop_spec:
  assumes "dequeue_loop v C out n = (v', C', ok, t, n')" "is_heap priority v" "distinct (map task_id v)"
  shows "is_heap priority v' \<and> (\<exists>dropped. mset v = mset v' + mset dropped + (if ok then {#t#} else {#}) \<and>
     task_id ` set dropped \<subseteq> C \<and> C' = C - task_id ` set dropped \<and>
     (if ok then task_id t \<notin> C \<and> (\<forall>x \<in> set v'. priority x \<le> priority t) else v' = []))"
  using assms
proof (induction v C out n rule: dequeue_loop.induct)
  case (1 v C out n)
  consider "v = []" | "v \<noteq> []" "task_id (hd v) \<in> C" | "v \<noteq> []" "task_id (hd v) \<notin> C" by blast
  then show ?case
  proof cases
    case 1
    with "1.prems" show ?thesis by (auto simp: dequeue_loop_cases intro: exI [of _ "[]"])
  next
    case 2
    let ?w = "heap_pop priority v"
    have w: "is_heap priority ?w" "add_mset (hd v) (mset ?w) = mset v" using heap_pop_ok "1.prems"(2) 2(1) by auto
    have "mset (map task_id v) = add_mset (task_id (hd v)) (mset (map task_id ?w))" by (simp add: w(2) [symmetric])
    then have d: "distinct (map task_id ?w)" "task_id (hd v) \<notin> task_id ` set ?w"
      using "1.prems"(3) by (metis distinct.simps(2) mset.simps(2) mset_eq_imp_distinct_iff set_map)+
    from "1.IH" [OF 2] "1.prems"(1) 2 w(1) d(1) obtain dropped where h: "is_heap priority v'"
      "mset ?w = mset v' + mset dropped + (if ok then {#t#} else {#})"
      "task_id ` set dropped \<subseteq> C - {task_id (hd v)}" "C' = C - {task_id (hd v)} - task_id ` set dropped"
      "if ok then task_id t \<notin> C - {task_id (hd v)} \<and> (\<forall>x \<in> set v'. priority x \<le> priority t) else v' = []"
      by (auto simp: dequeue_loop_cases)
    have "t \<in># mset ?w" if ok using h(2) that by simp
    then have "ok \<Longrightarrow> t \<in> set ?w" by simp
    then have "ok \<Longrightarrow> task_id t \<noteq> task_id (hd v)" using d(2) by (metis imageI)
    moreover have "mset v = mset v' + mset (hd v # dropped) + (if ok then {#t#} else {#})"
      using h(2) by (simp add: w(2) [symmetric])
    ultimately show ?thesis using h(1,3,4,5) 2(2) by (intro conjI exI [of _ "hd v # dropped"]) auto
  next
    case 3
    have pop: "is_heap priority (heap_pop priority v)" "add_mset (hd v) (mset (heap_pop priority v)) = mset v"
      using heap_pop_ok "1.prems"(2) 3(1) by auto
    then have "set (heap_pop priority v) \<subseteq> set v" by (metis set_mset_mset set_mset_add_mset_insert subset_insertI)
    then have "\<forall>x \<in> set (heap_pop priority v). priority x \<le> priority (hd v)" using is_heap_hd [OF "1.prems"(2)] by blast
    with pop 3 "1.prems"(1) show ?thesis by (intro conjI exI [of _ "[]"]) (auto simp: dequeue_loop_cases)
  qed
qed

section \<open>AsyncTaskQueue: delivery\<close>

definition queued_ids :: "AsyncTaskQueue \<Rightarrow> nat set" where
  "queued_ids q = task_id ` set (task_queue q)"

definition task_queue_inv :: "AsyncTaskQueue \<Rightarrow> bool" where
  "task_queue_inv q \<longleftrightarrow> is_heap priority (task_queue q) \<and> distinct (map task_id (task_queue q)) \<and>
     (\<forall>i \<in> queued_ids q. i \<le> task_id_counter q) \<and> length (task_queue q) \<le> max_queue_size q \<and>
     (is_running q \<or> task_queue q = [])"

lemma distinct_map_mset: "mset xs = mset ys \<Longrightarrow> distinct (map f xs) \<longleftrightarrow> distinct (map f ys)"
  by (metis mset_eq_imp_distinct_iff mset_map)

lemma mset_push: "is_heap priority (task_queue q) \<Longrightarrow>
  mset (task_queue (push_task q f p cb)) = add_mset \<lparr>task = f, on_complete = cb, priority = p, task_id = task_id_counter q + 1\<rparr> (mset (task_queue q))"
  by (simp add: push_task_def heap_push_ok)

lemma set_push: "is_heap priority (task_queue q) \<Longrightarrow> queued_ids (push_task q f p cb) = insert (task_id_counter q + 1) (queued_ids q)"
  by (auto simp: queued_ids_def dest!: mset_push [of q f p cb] arg_cong [of _ _ set_mset])

lemma task_queue_inv_push:
  assumes "task_queue_inv q" "length (task_queue q) < max_queue_size q" "is_running q"
  shows "task_queue_inv (push_task q f p cb)"
proof -
  have h: "is_heap priority (task_queue q)" using assms(1) by (simp add: task_queue_inv_def)
  let ?new = "\<lparr>task = f, on_complete = cb, priority = p, task_id = task_id_counter q + 1\<rparr>"
  have "mset (task_queue (push_task q f p cb)) = mset (?new # task_queue q)" by (simp add: mset_push [OF h])
  then have "distinct (map task_id (task_queue (push_task q f p cb))) \<longleftrightarrow> distinct (map task_id (?new # task_queue q))"
    by (rule distinct_map_mset)
  moreover have "task_id_counter q + 1 \<notin> queued_ids q" using assms(1) by (force simp: task_queue_inv_def)
  ultimately have "distinct (map task_id (task_queue (push_task q f p cb)))"
    using assms(1) by (simp add: task_queue_inv_def queued_ids_def)
  with assms set_push [OF h, of f p cb] show ?thesis
    by (auto simp: task_queue_inv_def push_task_def heap_push_ok(1))
qed

lemma dequeue_keeps:
  assumes "dequeue_loop (task_queue q) (cancelled_tasks q) out n = (v, C, ok, t, n')" "task_queue_inv q"
  shows "is_heap priority v \<and> distinct (map task_id v) \<and> task_id ` set v \<subseteq> queued_ids q \<and> length v \<le> length (task_queue q) \<and>
     (ok \<longrightarrow> task_id t \<in> queued_ids q - task_id ` set v \<and> task_id t \<notin> cancelled_tasks q)"
proof -
  obtain dropped where d: "is_heap priority v" "mset (task_queue q) = mset v + mset dropped + (if ok then {#t#} else {#})"
    "ok \<Longrightarrow> task_id t \<notin> cancelled_tasks q"
    using dequeue_loop_spec [OF assms(1)] assms(2) by (auto simp: task_queue_inv_def split: if_splits)
  let ?all = "v @ dropped @ (if ok then [t] else [])"
  have "mset (task_queue q) = mset ?all" using d(2) by simp
  then have "distinct (map task_id ?all)" "set (task_queue q) = set ?all"
    using assms(2) distinct_map_mset [of "task_queue q" ?all task_id] mset_eq_setD [of "task_queue q" ?all]
    unfolding task_queue_inv_def by blast+
  with d dequeue_loop_length [OF assms(1)] show ?thesis by (auto simp: queued_ids_def split: if_splits)
qed

fun handed_out :: "(TaskQueueOp, TaskQueueResult) event \<Rightarrow> nat list" where
  "handed_out (Returned thr (DequeueTask out) (Dequeued True t)) = [task_id t]"
| "handed_out _ = []"

abbreviation handed :: "(TaskQueueOp, TaskQueueResult) event list \<Rightarrow> nat list" where
  "handed es \<equiv> concat (map handed_out es)"

definition delivery_rel :: "nat \<Rightarrow> (TaskQueueOp, TaskQueueResult) event list \<Rightarrow> AsyncTaskQueue \<Rightarrow> bool" where
  "delivery_rel n es q \<longleftrightarrow> task_queue_inv q \<and> max_queue_size q = n \<and> distinct (handed es) \<and>
     set (handed es) \<inter> queued_ids q = {} \<and> (\<forall>i \<in> set (handed es). i \<le> task_id_counter q) \<and> tasks_processed q = length (handed es)"

lemma delivery_push:
  assumes "delivery_rel n es q" "length (task_queue q) < max_queue_size q" "is_running q"
  shows "delivery_rel n es (push_task q f p cb)"
  using assms task_queue_inv_push [of q f p cb] set_push [of q f p cb]
  by (fastforce simp: delivery_rel_def task_queue_inv_def push_task_def)

lemma delivery_dequeue:
  assumes "delivery_rel n es q" "is_running q" "dequeue_loop (task_queue q) (cancelled_tasks q) out k = (v, C, ok, t, k')"
  shows "delivery_rel n (es @ [Returned thr (DequeueTask out) (Dequeued ok t)])
     (q\<lparr>task_queue := v, cancelled_tasks := C, tasks_processed := tasks_processed q + (if ok then 1 else 0)\<rparr>)"
    (is "delivery_rel n ?es ?q")
proof -
  have inv: "task_queue_inv q" using assms(1) by (simp add: delivery_rel_def)
  note keeps = dequeue_keeps [OF assms(3) inv]
  then have "task_queue_inv ?q" using inv assms(2) unfolding task_queue_inv_def queued_ids_def by (auto 4 3)
  moreover have ids: "queued_ids ?q = task_id ` set v" by (simp add: queued_ids_def)
  moreover have "task_id t \<notin> set (handed es)" "task_id t \<le> task_id_counter q" if ok
    using keeps that assms(1) inv unfolding delivery_rel_def task_queue_inv_def by blast+
  ultimately show ?thesis using keeps assms(1) unfolding delivery_rel_def ids by (cases ok) auto
qed

interpretation tq: monitor_trace TaskQueue_monitor "delivery_rel n" for n
proof
  fix es s op s1 l t
  assume "delivery_rel n es s" "m_enter TaskQueue_monitor op s = (s1, l)"
  then show "delivery_rel n (es @ [Called t op]) s1" by (simp add: TaskQueue_monitor_def delivery_rel_def)
next
  fix es s op l s2 r ns t
  assume rel: "delivery_rel n es s" and ready: "m_ready TaskQueue_monitor op l s \<or> m_timed TaskQueue_monitor op"
    and body: "m_body TaskQueue_monitor op l s = (s2, r, ns)"
  have other: "delivery_rel n (es @ [Returned t op r]) s2" if "delivery_rel n es s2" "handed_out (Returned t op r) = []"
    using that by (simp add: delivery_rel_def)
  show "delivery_rel n (es @ [Returned t op r]) s2"
  proof (cases op)
    case (DequeueTask out)
    with body rel delivery_dequeue [of n es s out 0] show ?thesis
      by (auto simp: TaskQueue_monitor_def delivery_rel_def split: if_splits prod.splits)
  next
    case (EnqueueTask f p cb)
    then have "delivery_rel n es s2"
      using body ready rel delivery_push [OF rel, of f p cb] by (auto simp: TaskQueue_monitor_def split: if_splits)
    with EnqueueTask show ?thesis by (intro other) simp_all
  next
    case (TryEnqueueTask f p cb)
    then have "delivery_rel n es s2"
      using body rel delivery_push [OF rel, of f p cb] by (auto simp: TaskQueue_monitor_def split: if_splits)
    with TryEnqueueTask show ?thesis by (intro other) simp_all
  qed (use rel body other in \<open>auto simp: TaskQueue_monitor_def delivery_rel_def task_queue_inv_def queued_ids_def\<close>)
qed

fun is_enqueue :: "TaskQueueOp \<Rightarrow> bool" where
  "is_enqueue (EnqueueTask f p cb) = True"
| "is_enqueue _ = False"

definition free_slots :: "AsyncTaskQueue \<Rightarrow> nat" where
  "free_slots q = max_queue_size q - length (task_queue q)"

interpretation tq_supply: monitor_supply TaskQueue_monitor is_enqueue free_slots "\<lambda>q. \<not> is_running q"
proof
  fix op l s s2 r ns
  assume body: "m_body TaskQueue_monitor op l s = (s2, r, ns)"
  have deq: "free_slots s2 \<le> free_slots s + length ns" if "op = DequeueTask out" for out
    using body that dequeue_loop_length [of "task_queue s" "cancelled_tasks s" out 0]
    by (auto simp: TaskQueue_monitor_def free_slots_def split: if_splits prod.splits)
  show "\<not> is_running s \<Longrightarrow> \<not> is_running s2"
    using body by (cases op) (auto simp: TaskQueue_monitor_def push_task_def split: if_splits prod.splits)
  show "\<not> \<not> is_running s \<Longrightarrow> \<not> is_running s2 \<Longrightarrow> NotifyAll \<in> set (ns @ m_after TaskQueue_monitor op r)"
    using body by (cases op) (auto simp: TaskQueue_monitor_def push_task_def split: if_splits prod.splits)
  show "\<not> \<not> is_running s2 \<Longrightarrow> NotifyAll \<notin> set (ns @ m_after TaskQueue_monitor op r) \<Longrightarrow> m_ready TaskQueue_monitor op l s \<Longrightarrow>
      free_slots s2 + (if is_enqueue op then 1 else 0) \<le> free_slots s + length (ns @ m_after TaskQueue_monitor op r)"
    using body deq by (cases op) (auto simp: TaskQueue_monitor_def free_slots_def push_task_def split: if_splits)
next
  fix op l s
  show "m_ready TaskQueue_monitor op l s \<longleftrightarrow> \<not> is_enqueue op \<or> \<not> is_running s \<or> 0 < free_slots s"
    by (cases op) (auto simp: TaskQueue_monitor_def free_slots_def)
qed (auto simp: TaskQueue_monitor_def)

text \<open>
  C20. However producers, consumers, cancellations and shutdown interleave, the bounded queue never holds more than its
  limit, hands out every task identifier at most once, and never leaves a producer asleep beside a free slot
  unnoticed: as many woken producers and notifications are under way as there are free slots.
\<close>

theorem TaskQueue_delivery:
  assumes "msteps TaskQueue_monitor (initial_config (AsyncTaskQueue_new n)) es c"
  shows "length (task_queue (shared c)) \<le> n \<and> distinct (handed es) \<and> tasks_processed (shared c) = length (handed es) \<and>
    (asleep (threads c) = {} \<or> NotifyAll \<in> set (pending c) \<or>
     is_running (shared c) \<and> n - length (task_queue (shared c)) \<le> card (awake (threads c)) + length (pending c))"
proof -
  have "delivery_rel n [] (AsyncTaskQueue_new n)"
    by (simp add: delivery_rel_def task_queue_inv_def queued_ids_def AsyncTaskQueue_new_def)
  then have rel: "delivery_rel n es (shared c)" using tq.run_rel [OF assms] by (simp add: initial_config_def)
  with tq_supply.supply_covered [OF assms] show ?thesis by (auto simp: delivery_rel_def task_queue_inv_def free_slots_def)
qed

text \<open>
  A successful \<open>DequeueTask\<close> in a reachable queue returns a task that is queued, not cancelled, and of the highest
  priority among the queued tasks that are not cancelled; apart from it only cancelled tasks leave the queue. It
  fails exactly when every queued task is cancelled.
\<close>

theorem TaskQueue_best_task:
  assumes "msteps TaskQueue_monitor (initial_config (AsyncTaskQueue_new n)) es c" "is_running (shared c)"
    and "TaskQueue_body (DequeueTask out) () (shared c) = (q', Dequeued ok t, ns)"
  shows "(ok \<longleftrightarrow> \<not> queued_ids (shared c) \<subseteq> cancelled_tasks (shared c)) \<and>
    (if ok then t \<in> set (task_queue (shared c)) \<and> task_id t \<notin> cancelled_tasks (shared c) \<and>
        {x \<in> set (task_queue (shared c)). task_id x \<notin> cancelled_tasks (shared c) \<and> priority t < priority x} = {} \<and>
        {x \<in> set (task_queue (shared c)) - set (task_queue q'). task_id x \<notin> cancelled_tasks (shared c)} = {t}
     else task_queue q' = [])"
proof -
  let ?q = "shared c"
  have "delivery_rel n [] (AsyncTaskQueue_new n)"
    by (simp add: delivery_rel_def task_queue_inv_def queued_ids_def AsyncTaskQueue_new_def)
  then have inv: "task_queue_inv ?q" using tq.run_rel [OF assms(1)] by (simp add: initial_config_def delivery_rel_def)
  obtain v C k where loop: "dequeue_loop (task_queue ?q) (cancelled_tasks ?q) out 0 = (v, C, ok, t, k)" "task_queue q' = v"
    using assms(2,3) by (auto split: prod.splits)
  then obtain dropped where d: "mset (task_queue ?q) = mset v + mset dropped + (if ok then {#t#} else {#})"
    "task_id ` set dropped \<subseteq> cancelled_tasks ?q"
    "if ok then task_id t \<notin> cancelled_tasks ?q \<and> (\<forall>x \<in> set v. priority x \<le> priority t) else v = []"
    using dequeue_loop_spec [OF loop(1)] inv by (auto simp: task_queue_inv_def)
  have keeps: "ok \<longrightarrow> task_id t \<in> queued_ids ?q - task_id ` set v" using dequeue_keeps [OF loop(1) inv] by blast
  have "set (task_queue ?q) = set v \<union> set dropped \<union> (if ok then {t} else {})"
    using arg_cong [OF d(1), of set_mset] by simp
  with d(2,3) keeps loop(2) show ?thesis by (cases ok) (fastforce simp: queued_ids_def)+
qed

definition sample_task :: "nat \<Rightarrow> int \<Rightarrow> nat \<Rightarrow> QueuedTask" where
  "sample_task f p i = \<lparr>task = f, on_complete = None, priority = p, task_id = i\<rparr>"

definition sample_queue :: AsyncTaskQueue where
  "sample_queue = \<lparr>task_queue = [sample_task 8 9 2, sample_task 7 5 1], cancelled_tasks = {}, max_queue_size = 2, task_id_counter = 2, tasks_processed = 0, is_running = True\<rparr>"

lemmas sample_defs = sample_task_def sample_queue_def TaskQueue_monitor_def initial_config_def AsyncTaskQueue_new_def push_task_def
  heap_push_def sift_up.simps swap_at_def heap_parent_def heap_pop_def sift_down.simps heap_child_def dequeue_loop.simps

text \<open>Two producers fill a queue of two; a third one blocks.\<close>

definition sample_events :: "(TaskQueueOp, TaskQueueResult) event list" where
  "sample_events = [Called 0 (EnqueueTask 7 5 None), Returned 0 (EnqueueTask 7 5 None) (TaskId 1),
     Called 0 (EnqueueTask 8 9 None), Returned 0 (EnqueueTask 8 9 None) (TaskId 2), Called 1 (EnqueueTask 9 1 None)]"

lemma sample_run:
  "msteps TaskQueue_monitor (initial_config (AsyncTaskQueue_new 2)) sample_events
     \<lparr>shared = sample_queue, threads = (\<lambda>_. Idle)(1 := Asleep (EnqueueTask 9 1 None) ()), pending = []\<rparr>"
proof -
  let ?c0 = "initial_config (AsyncTaskQueue_new 2) :: (TaskQueueOp, unit, AsyncTaskQueue) config"
  let ?q1 = "(AsyncTaskQueue_new 2)\<lparr>task_queue := [sample_task 7 5 1], task_id_counter := 1\<rparr>"
  let ?c1 = "\<lparr>shared = ?q1, threads = (\<lambda>_. Idle), pending = []\<rparr> :: (TaskQueueOp, unit, AsyncTaskQueue) config"
  let ?c2 = "\<lparr>shared = sample_queue, threads = (\<lambda>_. Idle), pending = []\<rparr> :: (TaskQueueOp, unit, AsyncTaskQueue) config"
  let ?c3 = "\<lparr>shared = sample_queue, threads = (\<lambda>_. Idle)(1 := Asleep (EnqueueTask 9 1 None) ()), pending = []\<rparr>"
  have w: "wakes_list [NotifyOne] (\<lambda>_. Idle) (\<lambda>_. Idle)" by (auto intro: wakes.none)
  have s1: "mstep TaskQueue_monitor ?c0 [Called 0 (EnqueueTask 7 5 None), Returned 0 (EnqueueTask 7 5 None) (TaskId 1)] ?c1"
    using mstep.pass [of ?c0 0 TaskQueue_monitor "EnqueueTask 7 5 None" "shared ?c0" "()" ?q1 "TaskId 1" "[NotifyOne]" "\<lambda>_. Idle"] w
    by (simp add: sample_defs)
  have s2: "mstep TaskQueue_monitor ?c1 [Called 0 (EnqueueTask 8 9 None), Returned 0 (EnqueueTask 8 9 None) (TaskId 2)] ?c2"
    using mstep.pass [of ?c1 0 TaskQueue_monitor "EnqueueTask 8 9 None" ?q1 "()" sample_queue "TaskId 2" "[NotifyOne]" "\<lambda>_. Idle"] w
    by (simp add: sample_defs)
  have s3: "mstep TaskQueue_monitor ?c2 [Called 1 (EnqueueTask 9 1 None)] ?c3"
    using mstep.block [of ?c2 1 TaskQueue_monitor "EnqueueTask 9 1 None"] by (simp add: sample_defs)
  from msteps.step [OF msteps.step [OF msteps.step [OF msteps.start s1] s2] s3] show ?thesis by (simp add: sample_events_def)
qed

theorem TaskQueue_delivery_witness:
  "length (task_queue sample_queue) \<le> 2 \<and> distinct (handed sample_events) \<and> is_running sample_queue"
  using TaskQueue_delivery [OF sample_run] by (auto simp: asleep_def sample_queue_def)

theorem TaskQueue_best_task_witness:
  "TaskQueue_body (DequeueTask (sample_task 0 0 0)) () sample_queue =
     (sample_queue\<lparr>task_queue := [sample_task 7 5 1], tasks_processed := 1\<rparr>, Dequeued True (sample_task 8 9 2), [NotifyOne]) \<and>
   {x \<in> set (task_queue sample_queue). task_id x \<notin> cancelled_tasks sample_queue \<and> priority (sample_task 8 9 2) < priority x} = {}"
proof -
  have body: "TaskQueue_body (DequeueTask (sample_task 0 0 0)) () sample_queue =
     (sample_queue\<lparr>task_queue := [sample_task 7 5 1], tasks_processed := 1\<rparr>, Dequeued True (sample_task 8 9 2), [NotifyOne])"
    by (simp add: sample_defs)
  let ?c = "\<lparr>shared = sample_queue, threads = (\<lambda>_. Idle)(1 := Asleep (EnqueueTask 9 1 None) ()), pending = []\<rparr>"
  have c: "is_running (shared ?c)" "TaskQueue_body (DequeueTask (sample_task 0 0 0)) () (shared ?c) =
     (sample_queue\<lparr>task_queue := [sample_task 7 5 1], tasks_processed := 1\<rparr>, Dequeued True (sample_task 8 9 2), [NotifyOne])"
    using body by (simp_all add: sample_queue_def del: TaskQueue_body.simps)
  from TaskQueue_best_task [OF sample_run c] body show ?thesis by simp
qed

text \<open>An identifier can be cancelled before it exists: the task that gets it later is dropped.\<close>

lemma CancelTask_drops_future_task:
  defines "q1 \<equiv> fst (TaskQueue_body (CancelTask 1) () (AsyncTaskQueue_new 4))"
  defines "q2 \<equiv> fst (TaskQueue_body (EnqueueTask 7 5 None) () q1)"
  shows "TaskQueue_body (EnqueueTask 7 5 None) () q1 = (q2, TaskId 1, [NotifyOne]) \<and>
    (\<exists>q3 t ns. TaskQueue_body (DequeueTask out) () q2 = (q3, Dequeued False t, ns))"
  unfolding q2_def q1_def by (simp add: sample_defs)

section \<open>IOPriorityQueue: delivery\<close>

interpretation pq: monitor_invariant PriorityQueue_monitor "is_heap io_priority"
proof
  fix s op l s2 r ns
  assume "is_heap io_priority s" "m_ready PriorityQueue_monitor op l s \<or> m_timed PriorityQueue_monitor op"
    "m_body PriorityQueue_monitor op l s = (s2, r, ns)"
  then show "is_heap io_priority s2"
    by (cases op) (auto simp: PriorityQueue_monitor_def heap_push_ok heap_pop_ok split: if_splits)
qed (simp add: PriorityQueue_monitor_def)

interpretation pq_supply: monitor_supply PriorityQueue_monitor "\<lambda>op. \<exists>i. op = WaitPop i" length "\<lambda>_. False"
proof
  fix op l s s2 r ns
  assume "m_body PriorityQueue_monitor op l s = (s2, r, ns)" "m_ready PriorityQueue_monitor op l s"
  then show "length s2 + (if \<exists>i. op = WaitPop i then 1 else 0) \<le> length s + length (ns @ m_after PriorityQueue_monitor op r)"
    by (cases op; cases s) (auto simp: PriorityQueue_monitor_def split: if_splits)
next
  fix op l s
  show "m_ready PriorityQueue_monitor op l s \<longleftrightarrow> \<not> (\<exists>i. op = WaitPop i) \<or> False \<or> 0 < length s"
    by (cases op) (auto simp: PriorityQueue_monitor_def)
qed (auto simp: PriorityQueue_monitor_def)

lemma WaitPop_returns_best:
  assumes "msteps PriorityQueue_monitor (initial_config []) es c" "shared c \<noteq> []"
    and "PriorityQueue_body (WaitPop item) () (shared c) = (q', (ok, Some best), ns)"
  shows "ok \<and> best \<in> set (shared c) \<and> (\<forall>x \<in> set (shared c). io_priority x \<le> io_priority best) \<and> add_mset best (mset q') = mset (shared c)"
proof -
  have "is_heap io_priority (shared c)" using pq.kept.run_rel [OF assms(1)] by (simp add: initial_config_def)
  with assms(2,3) heap_pop_ok show ?thesis by (auto dest: is_heap_hd)
qed

lemmas WaitPop_no_lost_wakeup = pq_supply.no_lost_wakeup

end
