(* ===== verification/ThreadPool.thy ===== *)
theory ThreadPool
  imports NetworkText "HOL-Library.Multiset"
begin

text \<open>
  The worker pool of \<open>async_io/io_thread_pool.cc\<close>: starting, enqueuing, the worker loop and the phases of stopping,
  as a step relation over the pool, its workers and the notifications on their way; and the reading of its settings
  from the environment. Tasks are opaque values. The ghost record \<open>history\<close> keeps, since the last stop, the tasks enqueued,
  taken from the queue and executed, and how many were enqueued when a stop began; no step of the code reads it.
\<close>

section \<open>Definitions\<close>

text \<open>
  A worker waits on the condition variable (\<open>Sleeping\<close>), is about to test its predicate (\<open>Checking\<close>), runs a task, or
  has left its loop. The thread in \<open>Stop\<close> has set the flag, has notified, or has joined the workers.
\<close>

datatype 'a worker = Sleeping | Checking | Running 'a | Exited

datatype stop_phase = NotStopping | FlagSet | Notified | Joined

record 'a IOThreadPool =
  configured_thread_count :: nat
  workers :: "'a worker list"
  tasks :: "'a list"
  stopping :: bool
  started :: bool

record 'a history =
  enqueued :: "'a list"
  taken :: "'a list"
  executed :: "'a list"
  before_stop :: nat

record 'a pool_config =
  pool :: "'a IOThreadPool"
  stop_phase :: stop_phase
  notices :: nat
  history :: "'a history"

definition IOThreadPool_new :: "nat \<Rightarrow> 'a IOThreadPool" where
  "IOThreadPool_new n = \<lparr>configured_thread_count = (if n = 0 then 1 else n), workers = [], tasks = [], stopping = False, started = False\<rparr>"

definition Pool_Start :: "'a IOThreadPool \<Rightarrow> 'a IOThreadPool" where
  "Pool_Start p = (if started p then p
     else p\<lparr>stopping := False, started := True, workers := workers p @ replicate (configured_thread_count p) Checking\<rparr>)"

definition Pool_Enqueue :: "'a IOThreadPool \<Rightarrow> 'a \<Rightarrow> 'a IOThreadPool" where
  "Pool_Enqueue p x = p\<lparr>tasks := tasks p @ [x]\<rparr>"

text \<open>One turn of \<open>WorkerLoop\<close> under the mutex: the worker's next state and the pool.\<close>

definition Worker_turn :: "'a IOThreadPool \<Rightarrow> 'a worker \<times> 'a IOThreadPool" where
  "Worker_turn p =
     (if \<not> (stopping p \<or> tasks p \<noteq> []) then (Sleeping, p)
      else if stopping p \<and> tasks p = [] then (Exited, p)
      else (Running (hd (tasks p)), p\<lparr>tasks := tl (tasks p)\<rparr>))"

definition Stop_begin :: "'a IOThreadPool \<Rightarrow> 'a IOThreadPool" where
  "Stop_begin p = p\<lparr>stopping := True\<rparr>"

definition Stop_join :: "'a IOThreadPool \<Rightarrow> 'a IOThreadPool" where
  "Stop_join p = p\<lparr>workers := []\<rparr>"

definition Stop_finish :: "'a IOThreadPool \<Rightarrow> 'a IOThreadPool" where
  "Stop_finish p = p\<lparr>started := False, tasks := []\<rparr>"

fun rouse :: "'a worker \<Rightarrow> 'a worker" where
  "rouse Sleeping = Checking"
| "rouse w = w"

definition Pool_IsRunning :: "'a IOThreadPool \<Rightarrow> bool" where
  "Pool_IsRunning p \<longleftrightarrow> started p \<and> \<not> stopping p"

text \<open>
  The steps. \<open>Enqueue\<close> may be called at any time; its notification is sent after the unlock. \<open>Start\<close> and \<open>Stop\<close> are not
  called while a \<open>Stop\<close> is under way.
\<close>

inductive pool_step :: "'a pool_config \<Rightarrow> 'a pool_config \<Rightarrow> bool" where
  start: "stop_phase c = NotStopping \<Longrightarrow> pool_step c (c\<lparr>pool := Pool_Start (pool c)\<rparr>)"
| enqueue: "pool_step c (c\<lparr>pool := Pool_Enqueue (pool c) x, notices := Suc (notices c),
     history := (history c)\<lparr>enqueued := enqueued (history c) @ [x]\<rparr>\<rparr>)"
| notify_one: "notices c = Suc n \<Longrightarrow> i < length (workers (pool c)) \<Longrightarrow> workers (pool c) ! i = Sleeping \<Longrightarrow>
     pool_step c (c\<lparr>pool := (pool c)\<lparr>workers := (workers (pool c))[i := Checking]\<rparr>, notices := n\<rparr>)"
| notify_none: "notices c = Suc n \<Longrightarrow> Sleeping \<notin> set (workers (pool c)) \<Longrightarrow> pool_step c (c\<lparr>notices := n\<rparr>)"
| spurious: "i < length (workers (pool c)) \<Longrightarrow> workers (pool c) ! i = Sleeping \<Longrightarrow>
     pool_step c (c\<lparr>pool := (pool c)\<lparr>workers := (workers (pool c))[i := Checking]\<rparr>\<rparr>)"
| turn: "i < length (workers (pool c)) \<Longrightarrow> workers (pool c) ! i = Checking \<Longrightarrow> Worker_turn (pool c) = (w, p) \<Longrightarrow>
     pool_step c (c\<lparr>pool := p\<lparr>workers := (workers p)[i := w]\<rparr>,
       history := (history c)\<lparr>taken := taken (history c) @ take (length (tasks (pool c)) - length (tasks p)) (tasks (pool c))\<rparr>\<rparr>)"
| finish_task: "i < length (workers (pool c)) \<Longrightarrow> workers (pool c) ! i = Running x \<Longrightarrow>
     pool_step c (c\<lparr>pool := (pool c)\<lparr>workers := (workers (pool c))[i := Checking]\<rparr>,
       history := (history c)\<lparr>executed := executed (history c) @ [x]\<rparr>\<rparr>)"
| stop_begin: "stop_phase c = NotStopping \<Longrightarrow> started (pool c) \<Longrightarrow>
     pool_step c (c\<lparr>pool := Stop_begin (pool c), stop_phase := FlagSet, history := (history c)\<lparr>before_stop := length (enqueued (history c))\<rparr>\<rparr>)"
| stop_notify: "stop_phase c = FlagSet \<Longrightarrow>
     pool_step c (c\<lparr>pool := (pool c)\<lparr>workers := map rouse (workers (pool c))\<rparr>, stop_phase := Notified\<rparr>)"
| stop_join: "stop_phase c = Notified \<Longrightarrow> set (workers (pool c)) \<subseteq> {Exited} \<Longrightarrow>
     pool_step c (c\<lparr>pool := Stop_join (pool c), stop_phase := Joined\<rparr>)"
| stop_finish: "stop_phase c = Joined \<Longrightarrow>
     pool_step c (c\<lparr>pool := Stop_finish (pool c), stop_phase := NotStopping, history := \<lparr>enqueued = [], taken = [], executed = [], before_stop = 0\<rparr>\<rparr>)"

definition pool_init :: "nat \<Rightarrow> 'a pool_config" where
  "pool_init n = \<lparr>pool = IOThreadPool_new n, stop_phase = NotStopping, notices = 0,
     history = \<lparr>enqueued = [], taken = [], executed = [], before_stop = 0\<rparr>\<rparr>"

subsection \<open>Settings\<close>

text \<open>An environment maps names to values; the hardware concurrency is a parameter.\<close>

definition read_env_positive :: "(string \<rightharpoonup> string) \<Rightarrow> string \<Rightarrow> nat" where
  "read_env_positive env key = (case env key of None \<Rightarrow> 0 | Some raw \<Rightarrow>
     if raw = [] then 0 else case stoi raw of None \<Rightarrow> 0 | Some v \<Rightarrow> if v > 0 then nat v else 0)"

definition ResolveSharedThreadCount :: "(string \<rightharpoonup> string) \<Rightarrow> nat \<Rightarrow> nat" where
  "ResolveSharedThreadCount env hardware_concurrency =
     (let n = read_env_positive env ''ENGINE_ASYNC_IO_WORKERS'';
          n = (if n = 0 then read_env_positive env ''ENGINE_MAX_CPU_THREADS'' else n)
      in if n = 0 then max 2 hardware_concurrency else n)"

definition CPU_SETSIZE :: int where
  "CPU_SETSIZE = 1024"

text \<open>The loop over the specification with a comma appended; the set of cores.\<close>

fun affinity_loop :: "string \<Rightarrow> string \<Rightarrow> int set \<Rightarrow> int set" where
  "affinity_loop [] token out = out"
| "affinity_loop (c # rest) token out =
     (if c = CHR '','' then
        (if token \<noteq> [] then
           affinity_loop rest [] (case stoi token of None \<Rightarrow> out
             | Some core \<Rightarrow> if 0 \<le> core \<and> core < CPU_SETSIZE then insert core out else out)
         else affinity_loop rest token out)
      else affinity_loop rest (token @ [c]) out)"

definition ParseCpuAffinity :: "string \<Rightarrow> bool \<times> int set" where
  "ParseCpuAffinity spec = (if spec = [] then (False, {}) else
     let out = affinity_loop (spec @ '','') [] {} in (out \<noteq> {}, out))"

section \<open>Invariant\<close>

fun running_task :: "'a worker \<Rightarrow> 'a list" where
  "running_task (Running x) = [x]"
| "running_task _ = []"

abbreviation running_tasks :: "'a worker list \<Rightarrow> 'a list" where
  "running_tasks ws \<equiv> concat (map running_task ws)"

definition phase_inv :: "'a pool_config \<Rightarrow> bool" where
  "phase_inv c \<longleftrightarrow> 0 < configured_thread_count (pool c) \<and>
     (case stop_phase c of
       NotStopping \<Rightarrow> if started (pool c) then \<not> stopping (pool c) \<and> Exited \<notin> set (workers (pool c)) \<and> workers (pool c) \<noteq> []
                      else workers (pool c) = []
     | FlagSet \<Rightarrow> started (pool c) \<and> stopping (pool c) \<and> workers (pool c) \<noteq> []
     | Notified \<Rightarrow> started (pool c) \<and> stopping (pool c) \<and> workers (pool c) \<noteq> [] \<and> Sleeping \<notin> set (workers (pool c))
     | Joined \<Rightarrow> started (pool c) \<and> stopping (pool c) \<and> workers (pool c) = [])"

definition task_inv :: "'a pool_config \<Rightarrow> bool" where
  "task_inv c \<longleftrightarrow> taken (history c) @ tasks (pool c) = enqueued (history c) \<and>
     mset (taken (history c)) = mset (executed (history c)) + mset (running_tasks (workers (pool c))) \<and>
     (Exited \<in> set (workers (pool c)) \<or> stop_phase c = Joined \<longrightarrow> before_stop (history c) \<le> length (taken (history c)))"

definition notice_inv :: "'a pool_config \<Rightarrow> bool" where
  "notice_inv c \<longleftrightarrow> (Sleeping \<in> set (workers (pool c)) \<longrightarrow> stop_phase c \<noteq> FlagSet \<longrightarrow>
     length (tasks (pool c)) \<le> notices c + count_list (workers (pool c)) Checking)"

lemma pool_inv_init: "phase_inv (pool_init n)" "task_inv (pool_init n)" "notice_inv (pool_init n)"
  by (simp_all add: phase_inv_def task_inv_def notice_inv_def pool_init_def IOThreadPool_new_def)

lemma mset_running_update:
  "i < length ws \<Longrightarrow> mset (running_tasks (ws[i := w])) + mset (running_task (ws ! i)) = mset (running_tasks ws) + mset (running_task w)"
  by (induction ws arbitrary: i) (auto simp: nth_Cons split: nat.splits)

lemma count_list_update:
  "i < length ws \<Longrightarrow> count_list (ws[i := w]) x + (if ws ! i = x then 1 else 0) = count_list ws x + (if w = x then 1 else 0)"
proof (induction ws arbitrary: i)
  case (Cons a ws)
  show ?case
  proof (cases i)
    case (Suc j)
    with Cons.prems Cons.IH [of j] show ?thesis by (auto split: if_splits)
  qed simp
qed simp

lemma in_set_update: "i < length ws \<Longrightarrow> y \<in> set (ws[i := w]) \<Longrightarrow> y = w \<or> y \<in> set ws"
  by (auto dest: set_update_subset_insert [THEN subsetD])

lemma Worker_turn_cases:
  assumes "Worker_turn p = (w, p')"
  obtains "w = Sleeping" "p' = p" "tasks p = []" "\<not> stopping p"
  | "w = Exited" "p' = p" "tasks p = []" "stopping p"
  | x xs where "w = Running x" "tasks p = x # xs" "p' = p\<lparr>tasks := xs\<rparr>"
  using assms by (cases "tasks p") (auto simp: Worker_turn_def split: if_splits)

lemma running_rouse [simp]: "running_task (rouse w) = running_task w"
  by (cases w) auto

lemma rouse_simps [simp]: "rouse w = Exited \<longleftrightarrow> w = Exited" "Exited = rouse w \<longleftrightarrow> w = Exited" "rouse w \<noteq> Sleeping" "Sleeping \<noteq> rouse w"
  by (cases w; auto)+

lemma phase_inv_worker:
  assumes "phase_inv c" "i < length (workers (pool c))" "stopping (pool c) \<Longrightarrow> w \<noteq> Sleeping" "w = Exited \<Longrightarrow> stopping (pool c)"
  shows "phase_inv (c\<lparr>pool := (pool c)\<lparr>tasks := ts, workers := (workers (pool c))[i := w]\<rparr>, notices := n, history := h\<rparr>)"
proof -
  have "workers (pool c) \<noteq> []" using assms(2) by auto
  with assms show ?thesis
    by (cases "stop_phase c") (auto simp: phase_inv_def split: if_splits dest: in_set_update [OF assms(2)])
qed

lemma phase_inv_step: "pool_step c c' \<Longrightarrow> phase_inv c \<Longrightarrow> phase_inv c'"
proof (induction rule: pool_step.induct)
  case (notify_one c n i)
  then show ?case using phase_inv_worker [of c i Checking "history c" n "tasks (pool c)"] by simp
next
  case (spurious i c)
  then show ?case using phase_inv_worker [of c i Checking "history c" "notices c" "tasks (pool c)"] by simp
next
  case (turn i c w p)
  have w: "stopping (pool c) \<Longrightarrow> w \<noteq> Sleeping" "w = Exited \<Longrightarrow> stopping (pool c)"
    and p: "p\<lparr>workers := (workers p)[i := w]\<rparr> = (pool c)\<lparr>tasks := tasks p, workers := (workers (pool c))[i := w]\<rparr>"
    using turn.hyps(3) by (auto simp: Worker_turn_def split: if_splits)
  show ?case unfolding p using phase_inv_worker [OF turn.prems turn.hyps(1) w, of _ "notices c" "tasks p"] by simp
next
  case (finish_task i c x)
  then show ?case
    using phase_inv_worker [of c i Checking "(history c)\<lparr>executed := executed (history c) @ [x]\<rparr>" "notices c" "tasks (pool c)"] by simp
next
  case (stop_notify c)
  then show ?case by (auto simp: phase_inv_def)
qed (auto simp: phase_inv_def Pool_Start_def Pool_Enqueue_def Stop_begin_def Stop_join_def Stop_finish_def
     split: stop_phase.splits if_splits)

lemma task_inv_worker:
  assumes "task_inv c" "phase_inv c" "i < length (workers (pool c))" "running_task w = running_task (workers (pool c) ! i)" "w \<noteq> Exited"
  shows "task_inv (c\<lparr>pool := (pool c)\<lparr>workers := (workers (pool c))[i := w]\<rparr>, notices := n\<rparr>)"
proof -
  have "mset (running_tasks ((workers (pool c))[i := w])) = mset (running_tasks (workers (pool c)))"
    using mset_running_update [OF assms(3), of w] assms(4) by simp
  with assms(1,5) show ?thesis unfolding task_inv_def by (auto dest: in_set_update [OF assms(3)])
qed

lemma task_inv_take:
  assumes "task_inv c" "i < length (workers (pool c))" "workers (pool c) ! i = Checking" "tasks (pool c) = x # xs"
  shows "task_inv (c\<lparr>pool := (pool c)\<lparr>tasks := xs, workers := (workers (pool c))[i := Running x]\<rparr>, history := (history c)\<lparr>taken := taken (history c) @ [x]\<rparr>\<rparr>)"
proof -
  have "mset (running_tasks ((workers (pool c))[i := Running x])) = add_mset x (mset (running_tasks (workers (pool c))))"
    using mset_running_update [OF assms(2), of "Running x"] assms(3) by simp
  moreover have "Exited \<in> set ((workers (pool c))[i := Running x]) \<Longrightarrow> Exited \<in> set (workers (pool c))"
    using in_set_update [OF assms(2)] by fastforce
  ultimately show ?thesis using assms(1,4) unfolding task_inv_def by auto
qed

lemma task_inv_done:
  assumes "task_inv c" "i < length (workers (pool c))" "workers (pool c) ! i = Running x"
  shows "task_inv (c\<lparr>pool := (pool c)\<lparr>workers := (workers (pool c))[i := Checking]\<rparr>, history := (history c)\<lparr>executed := executed (history c) @ [x]\<rparr>\<rparr>)"
proof -
  have "add_mset x (mset (running_tasks ((workers (pool c))[i := Checking]))) = mset (running_tasks (workers (pool c)))"
    using mset_running_update [OF assms(2), of Checking] assms(3) by simp
  moreover have "Exited \<in> set ((workers (pool c))[i := Checking]) \<Longrightarrow> Exited \<in> set (workers (pool c))"
    using in_set_update [OF assms(2)] by fastforce
  ultimately show ?thesis using assms(1) unfolding task_inv_def by auto
qed

lemma task_inv_exit:
  assumes "task_inv c" "phase_inv c" "i < length (workers (pool c))" "workers (pool c) ! i = Checking" "tasks (pool c) = []"
    and "before_stop (history c) \<le> length (enqueued (history c))"
  shows "task_inv (c\<lparr>pool := (pool c)\<lparr>workers := (workers (pool c))[i := Exited]\<rparr>\<rparr>)"
proof -
  have "mset (running_tasks ((workers (pool c))[i := Exited])) = mset (running_tasks (workers (pool c)))"
    using mset_running_update [OF assms(3), of Exited] assms(4) by simp
  with assms(1,5,6) show ?thesis unfolding task_inv_def by auto
qed

lemma before_stop_bound: "pool_step\<^sup>*\<^sup>* (pool_init n) c \<Longrightarrow> before_stop (history c) \<le> length (enqueued (history c))"
proof (induction rule: rtranclp_induct)
  case (step c c')
  from step.hyps(2) step.IH show ?case by (induction rule: pool_step.induct) auto
qed (simp add: pool_init_def)

lemma task_inv_step:
  assumes "pool_step c c'" "task_inv c" "phase_inv c" "before_stop (history c) \<le> length (enqueued (history c))"
  shows "task_inv c'"
  using assms
proof (induction rule: pool_step.induct)
  case (start c)
  then show ?case by (auto simp: task_inv_def phase_inv_def Pool_Start_def split: if_splits)
next
  case (notify_one c n i)
  then show ?case using task_inv_worker [of c i Checking n] by simp
next
  case (spurious i c)
  then show ?case using task_inv_worker [of c i Checking "notices c"] by simp
next
  case (turn i c w p)
  show ?case
  proof (cases rule: Worker_turn_cases [OF turn.hyps(3)])
    case 1
    with turn task_inv_worker [of c i Sleeping "notices c"] show ?thesis by simp
  next
    case 2
    with turn task_inv_exit [of c i] show ?thesis by simp
  next
    case (3 x xs)
    with turn task_inv_take [of c i x xs] show ?thesis by simp
  qed
next
  case (finish_task i c x)
  then show ?case using task_inv_done [of c i x] by simp
next
  case (stop_begin c)
  then show ?case by (auto simp: task_inv_def phase_inv_def Stop_begin_def)
next
  case (stop_notify c)
  then show ?case by (auto simp: task_inv_def comp_def)
next
  case (stop_join c)
  have "running_tasks ws = []" if "set ws \<subseteq> {Exited}" for ws :: "'a worker list" using that by (induction ws) auto
  moreover have "Exited \<in> set (workers (pool c))" using stop_join by (cases "workers (pool c)") (auto simp: phase_inv_def)
  ultimately show ?case using stop_join by (auto simp: task_inv_def Stop_join_def)
qed (auto simp: task_inv_def Pool_Enqueue_def Stop_finish_def phase_inv_def)

lemma sleeping_update: "i < length ws \<Longrightarrow> w \<noteq> Sleeping \<Longrightarrow> Sleeping \<in> set (ws[i := w]) \<Longrightarrow> Sleeping \<in> set ws"
  using in_set_update by fastforce

lemma notice_inv_step:
  assumes "pool_step c c'" "notice_inv c" "phase_inv c"
  shows "notice_inv c'"
  using assms
proof (induction rule: pool_step.induct)
  case (start c)
  then show ?case by (auto simp: notice_inv_def phase_inv_def Pool_Start_def split: if_splits)
next
  case (notify_one c n i)
  then show ?case using count_list_update [OF notify_one.hyps(2), of Checking Checking]
    by (auto simp: notice_inv_def dest: sleeping_update in_set_conv_nth [THEN iffD2])
next
  case (spurious i c)
  then show ?case using count_list_update [OF spurious.hyps(1), of Checking Checking]
    by (auto simp: notice_inv_def dest: sleeping_update)
next
  case (turn i c w p)
  note upd = count_list_update [OF turn.hyps(1), of w Checking]
  show ?case
  proof (cases rule: Worker_turn_cases [OF turn.hyps(3)])
    case (3 x xs)
    with turn upd show ?thesis using sleeping_update [OF turn.hyps(1), of w] by (auto simp: notice_inv_def)
  qed (use turn in \<open>auto simp: notice_inv_def\<close>)
next
  case (finish_task i c x)
  then show ?case using count_list_update [OF finish_task.hyps(1), of Checking Checking]
    by (auto simp: notice_inv_def dest: sleeping_update)
qed (auto simp: notice_inv_def Pool_Enqueue_def Stop_begin_def Stop_join_def Stop_finish_def phase_inv_def)

lemma pool_invs:
  assumes "pool_step\<^sup>*\<^sup>* (pool_init n) c"
  shows "phase_inv c \<and> task_inv c \<and> notice_inv c"
  using assms
proof (induction rule: rtranclp_induct)
  case (step c c')
  with before_stop_bound [OF step.hyps(1)] show ?case
    by (auto intro: phase_inv_step task_inv_step notice_inv_step)
qed (simp add: pool_inv_init)

text \<open>
  C14. In every reachable state of the pool, under any interleaving of \<open>Enqueue\<close>, the workers and \<open>Stop\<close>: tasks leave the
  queue in the order they came; while workers sleep, every queued task has a worker about to look or a notification
  on its way; after the notification of \<open>Stop\<close> no worker sleeps, so the join cannot hang on one; and when the
  workers have been joined, every task enqueued before \<open>Stop\<close> began has been executed.
\<close>

theorem Pool_Stop_drains:
  assumes "pool_step\<^sup>*\<^sup>* (pool_init n) c"
  shows "taken (history c) @ tasks (pool c) = enqueued (history c) \<and>
    (Sleeping \<in> set (workers (pool c)) \<and> stop_phase c = NotStopping \<longrightarrow>
       length (tasks (pool c)) \<le> notices c + count_list (workers (pool c)) Checking) \<and>
    (stop_phase c = Notified \<longrightarrow> Sleeping \<notin> set (workers (pool c))) \<and>
    (stop_phase c = Joined \<longrightarrow> mset (take (before_stop (history c)) (enqueued (history c))) \<subseteq># mset (executed (history c)))"
proof -
  from pool_invs [OF assms] have inv: "phase_inv c" "task_inv c" "notice_inv c" by auto
  have "mset (take (before_stop (history c)) (enqueued (history c))) \<subseteq># mset (executed (history c))" if "stop_phase c = Joined"
  proof -
    have "before_stop (history c) \<le> length (taken (history c))" "workers (pool c) = []"
      using inv(1,2) that by (auto simp: task_inv_def phase_inv_def)
    then have "mset (executed (history c)) = mset (taken (history c))" "take (before_stop (history c)) (enqueued (history c)) = take (before_stop (history c)) (taken (history c))"
      using inv(2) by (auto simp: task_inv_def dest: sym)
    moreover have "mset (take k xs) \<subseteq># mset xs" for k and xs :: "'a list"
      by (metis append_take_drop_id mset_append mset_subset_eq_add_left)
    ultimately show ?thesis by simp
  qed
  with inv show ?thesis by (auto simp: phase_inv_def task_inv_def notice_inv_def)
qed

definition sample_config :: "nat worker list \<Rightarrow> nat list \<Rightarrow> bool \<Rightarrow> stop_phase \<Rightarrow> nat history \<Rightarrow> nat pool_config" where
  "sample_config ws ts stop ph h =
     \<lparr>pool = \<lparr>configured_thread_count = 1, workers = ws, tasks = ts, stopping = stop, started = True\<rparr>, stop_phase = ph, notices = 1, history = h\<rparr>"

theorem Pool_Stop_drains_witness:
  "\<exists>c. pool_step\<^sup>*\<^sup>* (pool_init 1 :: nat pool_config) c \<and> stop_phase c = Joined \<and> enqueued (history c) = [7] \<and> before_stop (history c) = 1 \<and>
     mset [7] \<subseteq># mset (executed (history c))"
proof -
  let ?h = "\<lparr>enqueued = [7], taken = [7], executed = [7], before_stop = 1\<rparr> :: nat history"
  let ?c1 = "(pool_init 1 :: nat pool_config)\<lparr>pool := Pool_Start (IOThreadPool_new 1)\<rparr>"
  let ?c2 = "sample_config [Checking] [7] False NotStopping \<lparr>enqueued = [7], taken = [], executed = [], before_stop = 0\<rparr>"
  let ?c3 = "sample_config [Running 7] [] False NotStopping \<lparr>enqueued = [7], taken = [7], executed = [], before_stop = 0\<rparr>"
  let ?c4 = "sample_config [Checking] [] False NotStopping \<lparr>enqueued = [7], taken = [7], executed = [7], before_stop = 0\<rparr>"
  let ?c5 = "sample_config [Checking] [] True FlagSet ?h" and ?c6 = "sample_config [Exited] [] True FlagSet ?h"
  let ?c7 = "sample_config [Exited] [] True Notified ?h" and ?c8 = "sample_config [] [] True Joined ?h"
  note defs = sample_config_def pool_init_def IOThreadPool_new_def Pool_Start_def Pool_Enqueue_def Worker_turn_def Stop_begin_def Stop_join_def
  have "pool_step (pool_init 1) ?c1" using pool_step.start [of "pool_init 1 :: nat pool_config"] by (simp add: pool_init_def)
  moreover have "pool_step ?c1 ?c2" using pool_step.enqueue [of ?c1 7] by (simp add: defs)
  moreover have "pool_step ?c2 ?c3" using pool_step.turn [of 0 ?c2 "Running 7" "pool ?c2\<lparr>tasks := []\<rparr>"] by (simp add: defs)
  moreover have "pool_step ?c3 ?c4" using pool_step.finish_task [of 0 ?c3 7] by (simp add: defs)
  moreover have "pool_step ?c4 ?c5" using pool_step.stop_begin [of ?c4] by (simp add: defs)
  moreover have "pool_step ?c5 ?c6" using pool_step.turn [of 0 ?c5 Exited "pool ?c5"] by (simp add: defs)
  moreover have "pool_step ?c6 ?c7" using pool_step.stop_notify [of ?c6] by (simp add: defs)
  moreover have "pool_step ?c7 ?c8" using pool_step.stop_join [of ?c7] by (simp add: defs)
  ultimately have run: "pool_step\<^sup>*\<^sup>* (pool_init 1) ?c8" by (meson rtranclp.rtrancl_refl converse_rtranclp_into_rtranclp)
  from Pool_Stop_drains [OF this] have "mset (take 1 [7]) \<subseteq># mset (executed (history ?c8))" by (simp add: sample_config_def)
  with run show ?thesis by (intro exI [of _ ?c8]) (simp add: sample_config_def)
qed

text \<open>A task enqueued while the pool is stopped stays in the queue: no step but a new \<open>Start\<close> can run it.\<close>

lemma stopped_pool_keeps_tasks:
  assumes "pool_step c c'" "\<not> started (pool c)" "workers (pool c) = []" "stop_phase c = NotStopping" "tasks (pool c) \<noteq> []"
  shows "tasks (pool c') \<noteq> [] \<and> executed (history c') = executed (history c)"
  using assms by (induction rule: pool_step.induct) (auto simp: Pool_Start_def Pool_Enqueue_def)

end
