(* ===== verification/IoCache.thy ===== *)
theory IoCache
  imports XER_Prelude
begin

text \<open>
  The byte cache of \<open>async_io/io_cache_manager.cc\<close>: a doubly linked list in order of use and a hash map of iterators into it.
  An iterator is the number of a list node; dereferencing one that is not in the list is undefined. The cache is
  shown to be a least-recently-used cache of bounded size, the abstract machine \<open>lru_run\<close>. Every method locks one mutex,
  so a history is a sequence of whole calls.
\<close>

section \<open>Definitions\<close>

record cache_entry =
  ce_key :: string
  ce_value :: bytes

record IOCacheManager =
  capacityBytes :: nat
  sizeBytes :: nat
  cacheList :: "(nat \<times> cache_entry) list"
  cacheMap :: "string \<rightharpoonup> nat"
  next_node :: nat

definition IOCacheManager_new :: "nat \<Rightarrow> IOCacheManager" where
  "IOCacheManager_new n = \<lparr>capacityBytes = n, sizeBytes = 0, cacheList = [], cacheMap = Map.empty, next_node = 0\<rparr>"

abbreviation list_erase :: "nat \<Rightarrow> (nat \<times> cache_entry) list \<Rightarrow> (nat \<times> cache_entry) list" where
  "list_erase it xs \<equiv> filter (\<lambda>(i, e). i \<noteq> it) xs"

function EvictIfNeeded :: "IOCacheManager \<Rightarrow> IOCacheManager" where
  "EvictIfNeeded c =
     (if sizeBytes c > capacityBytes c \<and> cacheList c \<noteq> [] then
        let entry = snd (last (cacheList c)) in
        EvictIfNeeded (c\<lparr>sizeBytes := sizeBytes c - length (ce_value entry),
          cacheList := butlast (cacheList c), cacheMap := (cacheMap c)(ce_key entry := None)\<rparr>)
      else c)"
  by pat_completeness auto
termination
  by (relation "measure (\<lambda>c. length (cacheList c))") auto

declare EvictIfNeeded.simps [simp del]

definition Cache_unlink :: "string \<Rightarrow> IOCacheManager \<Rightarrow> (string, IOCacheManager) exec" where
  "Cache_unlink k c = (case cacheMap c k of None \<Rightarrow> Ok c
     | Some it \<Rightarrow> (case map_of (cacheList c) it of None \<Rightarrow> Undef
         | Some e \<Rightarrow> Ok (c\<lparr>sizeBytes := sizeBytes c - length (ce_value e), cacheList := list_erase it (cacheList c),
                          cacheMap := (cacheMap c)(k := None)\<rparr>)))"

definition Cache_Put :: "string \<Rightarrow> bytes \<Rightarrow> IOCacheManager \<Rightarrow> (string, IOCacheManager) exec" where
  "Cache_Put k data c = ebind (Cache_unlink k c) (\<lambda>c.
     Ok (EvictIfNeeded (c\<lparr>sizeBytes := sizeBytes c + length data,
       cacheList := (next_node c, \<lparr>ce_key = k, ce_value = data\<rparr>) # cacheList c,
       cacheMap := (cacheMap c)(k \<mapsto> next_node c), next_node := next_node c + 1\<rparr>)))"

text \<open>\<open>None\<close> where \<open>Get\<close> returns false and leaves the caller's vector alone.\<close>

definition Cache_Get :: "string \<Rightarrow> IOCacheManager \<Rightarrow> (string, bytes option \<times> IOCacheManager) exec" where
  "Cache_Get k c = (case cacheMap c k of None \<Rightarrow> Ok (None, c)
     | Some it \<Rightarrow> (case map_of (cacheList c) it of None \<Rightarrow> Undef
         | Some e \<Rightarrow> Ok (Some (ce_value e), c\<lparr>cacheList := (it, e) # list_erase it (cacheList c)\<rparr>)))"

definition Cache_Clear :: "IOCacheManager \<Rightarrow> IOCacheManager" where
  "Cache_Clear c = c\<lparr>cacheList := [], cacheMap := Map.empty, sizeBytes := 0\<rparr>"

text \<open>The loop over the list, with the entries already kept.\<close>

fun remove_prefix_loop :: "string \<Rightarrow> (nat \<times> cache_entry) list \<Rightarrow> (nat \<times> cache_entry) list \<Rightarrow> IOCacheManager \<Rightarrow> IOCacheManager" where
  "remove_prefix_loop prefix kept [] c = c\<lparr>cacheList := kept\<rparr>"
| "remove_prefix_loop prefix kept ((i, e) # rest) c =
     (if take (length prefix) (ce_key e) = prefix then
        remove_prefix_loop prefix kept rest (c\<lparr>sizeBytes := sizeBytes c - length (ce_value e), cacheMap := (cacheMap c)(ce_key e := None)\<rparr>)
      else remove_prefix_loop prefix (kept @ [(i, e)]) rest c)"

definition Cache_RemoveByPrefix :: "string \<Rightarrow> IOCacheManager \<Rightarrow> IOCacheManager" where
  "Cache_RemoveByPrefix prefix c = remove_prefix_loop prefix [] (cacheList c) c"

definition Cache_GetEntryCount :: "IOCacheManager \<Rightarrow> nat" where
  "Cache_GetEntryCount c = card (dom (cacheMap c))"

subsection \<open>The abstract cache\<close>

text \<open>Keys and values, the most recently used first; the longest prefix that fits the capacity is kept.\<close>

type_synonym lru = "(string \<times> bytes) list"

fun lru_fit :: "nat \<Rightarrow> lru \<Rightarrow> lru" where
  "lru_fit n [] = []"
| "lru_fit n ((k, v) # xs) = (if length v \<le> n then (k, v) # lru_fit (n - length v) xs else [])"

datatype cache_op = OpPut string bytes | OpGet string | OpClear | OpRemoveByPrefix string

fun lru_step :: "nat \<Rightarrow> cache_op \<Rightarrow> lru \<Rightarrow> bytes option \<times> lru" where
  "lru_step n (OpPut k v) xs = (None, lru_fit n ((k, v) # filter (\<lambda>(k', _). k' \<noteq> k) xs))"
| "lru_step n (OpGet k) xs = (case map_of xs k of None \<Rightarrow> (None, xs)
     | Some v \<Rightarrow> (Some v, (k, v) # filter (\<lambda>(k', _). k' \<noteq> k) xs))"
| "lru_step n OpClear xs = (None, [])"
| "lru_step n (OpRemoveByPrefix p) xs = (None, filter (\<lambda>(k, _). take (length p) k \<noteq> p) xs)"

fun lru_run :: "nat \<Rightarrow> cache_op list \<Rightarrow> lru \<Rightarrow> bytes option list \<times> lru" where
  "lru_run n [] xs = ([], xs)"
| "lru_run n (op # ops) xs = (let (r, xs1) = lru_step n op xs; (rs, xs2) = lru_run n ops xs1 in (r # rs, xs2))"

fun cache_step :: "cache_op \<Rightarrow> IOCacheManager \<Rightarrow> (string, bytes option \<times> IOCacheManager) exec" where
  "cache_step (OpPut k v) c = map_exec (\<lambda>c. (None, c)) (Cache_Put k v c)"
| "cache_step (OpGet k) c = Cache_Get k c"
| "cache_step OpClear c = Ok (None, Cache_Clear c)"
| "cache_step (OpRemoveByPrefix p) c = Ok (None, Cache_RemoveByPrefix p c)"

fun cache_run :: "cache_op list \<Rightarrow> IOCacheManager \<Rightarrow> (string, bytes option list \<times> IOCacheManager) exec" where
  "cache_run [] c = Ok ([], c)"
| "cache_run (op # ops) c = ebind (cache_step op c) (\<lambda>(r, c1). map_exec (\<lambda>(rs, c2). (r # rs, c2)) (cache_run ops c1))"

definition lru_of :: "IOCacheManager \<Rightarrow> lru" where
  "lru_of c = map (\<lambda>(i, e). (ce_key e, ce_value e)) (cacheList c)"

definition lru_bytes :: "lru \<Rightarrow> nat" where
  "lru_bytes xs = sum_list (map (\<lambda>(k, v). length v) xs)"

section \<open>Invariant\<close>

text \<open>Nodes and keys are distinct, the map is the inverse of the list, and the size is the sum of the values.\<close>

definition cache_inv :: "IOCacheManager \<Rightarrow> bool" where
  "cache_inv c \<longleftrightarrow> distinct (map fst (cacheList c)) \<and> distinct (map (ce_key \<circ> snd) (cacheList c)) \<and>
     (\<forall>i \<in> fst ` set (cacheList c). i < next_node c) \<and>
     (\<forall>k i. cacheMap c k = Some i \<longleftrightarrow> (\<exists>e. (i, e) \<in> set (cacheList c) \<and> ce_key e = k)) \<and>
     sizeBytes c = lru_bytes (lru_of c)"

lemma cache_inv_new: "cache_inv (IOCacheManager_new n)"
  by (simp add: cache_inv_def IOCacheManager_new_def lru_bytes_def lru_of_def)

lemma key_unique:
  assumes "distinct (map (ce_key \<circ> snd) xs)" "(i, e) \<in> set xs" "(j, f) \<in> set xs" "ce_key e = ce_key f"
  shows "(i, e) = (j, f)"
proof -
  from assms(1) have "inj_on (ce_key \<circ> snd) (set xs)" by (simp add: distinct_map)
  from inj_onD [OF this _ assms(2,3)] assms(4) show ?thesis by simp
qed

lemma lookup_hit:
  assumes "cache_inv c" "cacheMap c k = Some it"
  obtains e where "map_of (cacheList c) it = Some e" "ce_key e = k" "(it, e) \<in> set (cacheList c)"
proof -
  from assms obtain e where e: "(it, e) \<in> set (cacheList c)" "ce_key e = k" unfolding cache_inv_def by blast
  moreover have "map_of (cacheList c) it = Some e" using e(1) assms(1) by (simp add: cache_inv_def)
  ultimately show ?thesis by (rule_tac that)
qed

text \<open>In a list with distinct nodes and keys, removing a node is removing its key.\<close>

lemma erase_by_key:
  assumes "cache_inv c" "(it, e) \<in> set (cacheList c)"
  shows "list_erase it (cacheList c) = filter (\<lambda>(i, f). ce_key f \<noteq> ce_key e) (cacheList c)"
proof (rule filter_cong [OF refl])
  fix x assume x: "x \<in> set (cacheList c)"
  have d: "distinct (map fst (cacheList c))" "distinct (map (ce_key \<circ> snd) (cacheList c))"
    using assms(1) by (auto simp: cache_inv_def)
  show "(case x of (i, f) \<Rightarrow> i \<noteq> it) = (case x of (i, f) \<Rightarrow> ce_key f \<noteq> ce_key e)"
  proof (cases x)
    case (Pair i f)
    have "f = e" if "i = it" using eq_key_imp_eq_value [OF d(1), of it f e] x assms(2) Pair that by simp
    moreover have "i = it" if "ce_key f = ce_key e" using key_unique [OF d(2), of i f it e] x assms(2) Pair that by simp
    ultimately show ?thesis using Pair by auto
  qed
qed

lemma lru_of_filter:
  "map (\<lambda>(i, e). (ce_key e, ce_value e)) (filter (\<lambda>(i, f). ce_key f \<noteq> k) xs) =
     filter (\<lambda>(k', _). k' \<noteq> k) (map (\<lambda>(i, e). (ce_key e, ce_value e)) xs)"
  "map (\<lambda>(i, e). (ce_key e, ce_value e)) (filter (\<lambda>(i, f). take n (ce_key f) \<noteq> p) xs) =
     filter (\<lambda>(k', _). take n k' \<noteq> p) (map (\<lambda>(i, e). (ce_key e, ce_value e)) xs)"
  by (induction xs) auto

lemma cache_inv_erase:
  assumes "cache_inv c" "(it, e) \<in> set (cacheList c)"
  shows "cache_inv (c\<lparr>sizeBytes := sizeBytes c - length (ce_value e), cacheList := list_erase it (cacheList c), cacheMap := (cacheMap c)(ce_key e := None)\<rparr>)"
proof -
  obtain xs ys where split: "cacheList c = xs @ (it, e) # ys" using assms(2) by (meson split_list)
  have d: "distinct (map fst (cacheList c))" using assms(1) by (simp add: cache_inv_def)
  then have fresh: "it \<notin> fst ` set xs" "it \<notin> fst ` set ys" by (auto simp: split)
  have none: "list_erase it zs = zs" if "it \<notin> fst ` set zs" for zs :: "(nat \<times> cache_entry) list"
    using that by (force simp: filter_id_conv)
  have l: "list_erase it (cacheList c) = xs @ ys" using fresh by (simp add: split none)
  have "sizeBytes c - length (ce_value e) = lru_bytes (map (\<lambda>(i, e). (ce_key e, ce_value e)) (xs @ ys))"
    using assms(1) by (simp add: cache_inv_def lru_bytes_def lru_of_def split)
  moreover have "((cacheMap c)(ce_key e := None)) k = Some i \<longleftrightarrow> (\<exists>f. (i, f) \<in> set (xs @ ys) \<and> ce_key f = k)" for k i
  proof -
    have "distinct (map (ce_key \<circ> snd) (xs @ (it, e) # ys))" using assms(1) by (simp add: cache_inv_def split)
    then have "ce_key e \<notin> (ce_key \<circ> snd) ` set (xs @ ys)" by auto
    moreover have "cacheMap c k = Some i \<longleftrightarrow> (\<exists>f. (i, f) \<in> set (xs @ (it, e) # ys) \<and> ce_key f = k)"
      using assms(1) by (simp add: cache_inv_def split)
    ultimately show ?thesis by force
  qed
  ultimately show ?thesis using assms(1) unfolding cache_inv_def l by (auto simp: lru_of_def split)
qed

lemma cache_inv_absent:
  assumes "cache_inv c" "cacheMap c k = None"
  shows "k \<notin> (ce_key \<circ> snd) ` set (cacheList c)"
proof
  assume "k \<in> (ce_key \<circ> snd) ` set (cacheList c)"
  then obtain i e where "(i, e) \<in> set (cacheList c)" "ce_key e = k" by auto
  with assms(1) have "cacheMap c k = Some i" unfolding cache_inv_def by blast
  with assms(2) show False by simp
qed

lemma lru_bytes_simps [simp]:
  "lru_bytes [] = 0" "lru_bytes (kv # xs) = length (snd kv) + lru_bytes xs" "lru_bytes (xs @ ys) = lru_bytes xs + lru_bytes ys"
  by (auto simp: lru_bytes_def split: prod.splits)

lemma lru_fit_all: "lru_bytes xs \<le> n \<Longrightarrow> lru_fit n xs = xs"
  by (induction n xs rule: lru_fit.induct) auto

lemma lru_fit_drop: "n < lru_bytes (xs @ [x]) \<Longrightarrow> lru_fit n (xs @ [x]) = lru_fit n xs"
  by (induction n xs rule: lru_fit.induct) (cases x, auto)

lemma lru_fit_bound: "lru_bytes (lru_fit n xs) \<le> n"
  by (induction n xs rule: lru_fit.induct) auto

lemma list_erase_absent: "it \<notin> fst ` set xs \<Longrightarrow> list_erase it xs = xs"
  by (force simp: filter_id_conv)

lemma list_erase_last:
  assumes "distinct (map fst (xs @ [(it, e)]))"
  shows "list_erase it (xs @ [(it, e)]) = xs"
  using assms list_erase_absent [of it xs] by simp

lemma EvictIfNeeded_spec:
  assumes "cache_inv c"
  shows "cache_inv (EvictIfNeeded c) \<and> lru_of (EvictIfNeeded c) = lru_fit (capacityBytes c) (lru_of c) \<and>
    capacityBytes (EvictIfNeeded c) = capacityBytes c"
  using assms
proof (induction c rule: EvictIfNeeded.induct)
  case (1 c)
  show ?case
  proof (cases "sizeBytes c > capacityBytes c \<and> cacheList c \<noteq> []")
    case True
    then obtain xs it e where l: "cacheList c = xs @ [(it, e)]" by (metis rev_exhaust surj_pair)
    let ?c = "c\<lparr>sizeBytes := sizeBytes c - length (ce_value e), cacheList := xs, cacheMap := (cacheMap c)(ce_key e := None)\<rparr>"
    have "list_erase it (cacheList c) = xs" using 1(2) list_erase_last [of xs it e] unfolding l cache_inv_def by simp
    moreover have "(it, e) \<in> set (cacheList c)" by (simp add: l)
    ultimately have inv: "cache_inv ?c" using cache_inv_erase [OF 1(2), of it e] by simp
    have ev: "EvictIfNeeded c = EvictIfNeeded ?c" using True by (subst EvictIfNeeded.simps) (simp add: l Let_def)
    have "capacityBytes c < lru_bytes (lru_of c)" using True 1(2) by (simp add: cache_inv_def)
    then have "lru_fit (capacityBytes c) (lru_of c) = lru_fit (capacityBytes c) (lru_of ?c)"
      using lru_fit_drop [of "capacityBytes c" "lru_of ?c" "(ce_key e, ce_value e)"] by (simp add: lru_of_def l)
    with 1(1) [OF True refl] inv ev show ?thesis by (simp add: l)
  next
    case False
    then have "EvictIfNeeded c = c" by (subst EvictIfNeeded.simps) auto
    moreover have "lru_bytes (lru_of c) \<le> capacityBytes c" using False 1(2) by (auto simp: cache_inv_def lru_of_def)
    ultimately show ?thesis using 1(2) lru_fit_all by simp
  qed
qed

lemma Cache_unlink_spec:
  assumes "cache_inv c"
  obtains c' where "Cache_unlink k c = Ok c'" "cache_inv c'" "lru_of c' = filter (\<lambda>(k', _). k' \<noteq> k) (lru_of c)"
    "cacheMap c' k = None" "capacityBytes c' = capacityBytes c"
proof (cases "cacheMap c k")
  case None
  have "k \<notin> (ce_key \<circ> snd) ` set (cacheList c)" using assms None by (rule cache_inv_absent)
  then have "filter (\<lambda>(k', _). k' \<noteq> k) (lru_of c) = lru_of c" by (force simp: lru_of_def filter_id_conv)
  with None assms show ?thesis by (intro that [of c]) (simp_all add: Cache_unlink_def)
next
  case (Some it)
  with assms obtain e where e: "map_of (cacheList c) it = Some e" "ce_key e = k" "(it, e) \<in> set (cacheList c)" by (rule lookup_hit)
  from cache_inv_erase [OF assms e(3)] erase_by_key [OF assms e(3)] e Some show ?thesis
    by (intro that [of "c\<lparr>sizeBytes := sizeBytes c - length (ce_value e), cacheList := list_erase it (cacheList c), cacheMap := (cacheMap c)(k := None)\<rparr>"])
      (auto simp: Cache_unlink_def lru_of_def lru_of_filter)
qed

lemma Cache_Put_spec:
  assumes "cache_inv c"
  obtains c' where "Cache_Put k v c = Ok c'" "cache_inv c'" "capacityBytes c' = capacityBytes c"
    "lru_of c' = lru_fit (capacityBytes c) ((k, v) # filter (\<lambda>(k', _). k' \<noteq> k) (lru_of c))"
proof -
  from assms obtain c1 where c1: "Cache_unlink k c = Ok c1" "cache_inv c1" "lru_of c1 = filter (\<lambda>(k', _). k' \<noteq> k) (lru_of c)"
    "cacheMap c1 k = None" "capacityBytes c1 = capacityBytes c" by (rule Cache_unlink_spec)
  let ?c = "c1\<lparr>sizeBytes := sizeBytes c1 + length v, cacheList := (next_node c1, \<lparr>ce_key = k, ce_value = v\<rparr>) # cacheList c1,
       cacheMap := (cacheMap c1)(k \<mapsto> next_node c1), next_node := next_node c1 + 1\<rparr>"
  have absent: "k \<notin> (ce_key \<circ> snd) ` set (cacheList c1)" using c1(2,4) by (rule cache_inv_absent)
  have fresh: "next_node c1 \<notin> fst ` set (cacheList c1)" using c1(2) unfolding cache_inv_def by blast
  have "((cacheMap c1)(k \<mapsto> next_node c1)) k' = Some i \<longleftrightarrow>
      (\<exists>e. (i, e) \<in> set ((next_node c1, \<lparr>ce_key = k, ce_value = v\<rparr>) # cacheList c1) \<and> ce_key e = k')" for k' i
  proof -
    have "cacheMap c1 k' = Some i \<longleftrightarrow> (\<exists>e. (i, e) \<in> set (cacheList c1) \<and> ce_key e = k')" using c1(2) by (simp add: cache_inv_def)
    with absent show ?thesis by force
  qed
  with c1(2) absent fresh have "cache_inv ?c" unfolding cache_inv_def by (auto simp: lru_of_def less_Suc_eq)
  from EvictIfNeeded_spec [OF this] c1 show ?thesis
    by (intro that [of "EvictIfNeeded ?c"]) (auto simp: Cache_Put_def lru_of_def)
qed

lemma Cache_Get_spec:
  assumes "cache_inv c"
  obtains r c' where "Cache_Get k c = Ok (r, c')" "cache_inv c'" "capacityBytes c' = capacityBytes c" "lru_step n (OpGet k) (lru_of c) = (r, lru_of c')"
proof (cases "cacheMap c k")
  case None
  have "k \<notin> fst ` set (lru_of c)" using cache_inv_absent [OF assms None] by (force simp: lru_of_def)
  then have "map_of (lru_of c) k = None" by (simp add: map_of_eq_None_iff)
  with None assms show ?thesis by (intro that [of None c]) (simp_all add: Cache_Get_def)
next
  case (Some it)
  with assms obtain e where e: "map_of (cacheList c) it = Some e" "ce_key e = k" "(it, e) \<in> set (cacheList c)" by (rule lookup_hit)
  let ?c = "c\<lparr>cacheList := (it, e) # list_erase it (cacheList c)\<rparr>"
  obtain xs ys where split: "cacheList c = xs @ (it, e) # ys" using e(3) by (meson split_list)
  have "distinct (map fst (cacheList c))" using assms by (simp add: cache_inv_def)
  then have l: "list_erase it (cacheList c) = xs @ ys"
    using list_erase_absent [of it xs] list_erase_absent [of it ys] by (simp add: split)
  have "cache_inv ?c" using assms unfolding cache_inv_def l by (auto simp: lru_of_def split)
  moreover have "(k, ce_value e) \<in> set (lru_of c)" using e by (force simp: lru_of_def)
  then have "map_of (lru_of c) k = Some (ce_value e)"
    using assms by (intro map_of_is_SomeI) (auto simp: cache_inv_def lru_of_def comp_def case_prod_beta)
  moreover have "lru_of ?c = (k, ce_value e) # filter (\<lambda>(k', _). k' \<noteq> k) (lru_of c)"
    using erase_by_key [OF assms e(3)] e(2) by (simp add: lru_of_def lru_of_filter)
  ultimately show ?thesis using e Some by (intro that [of "Some (ce_value e)" ?c]) (simp_all add: Cache_Get_def)
qed

lemma remove_prefix_loop_spec:
  assumes "cache_inv (c\<lparr>cacheList := kept @ rest\<rparr>)"
  shows "cache_inv (remove_prefix_loop p kept rest c) \<and> capacityBytes (remove_prefix_loop p kept rest c) = capacityBytes c \<and>
    cacheList (remove_prefix_loop p kept rest c) = kept @ filter (\<lambda>(i, e). take (length p) (ce_key e) \<noteq> p) rest"
  using assms
proof (induction p kept rest c rule: remove_prefix_loop.induct)
  case (2 p kept i e rest c)
  let ?c = "c\<lparr>cacheList := kept @ (i, e) # rest\<rparr>"
  show ?case
  proof (cases "take (length p) (ce_key e) = p")
    case True
    have "distinct (map fst (kept @ (i, e) # rest))" using "2.prems" by (simp add: cache_inv_def)
    then have "list_erase i (kept @ (i, e) # rest) = kept @ rest"
      using list_erase_absent [of i kept] list_erase_absent [of i rest] by simp
    moreover have "(i, e) \<in> set (cacheList ?c)" by simp
    ultimately have "cache_inv (c\<lparr>sizeBytes := sizeBytes c - length (ce_value e), cacheMap := (cacheMap c)(ce_key e := None), cacheList := kept @ rest\<rparr>)"
      using cache_inv_erase [OF "2.prems", of i e] by (cases c) (simp del: filter_append)
    with 2(1) [OF True] True show ?thesis by simp
  next
    case False
    with 2(2) [OF False] "2.prems" show ?thesis by simp
  qed
qed simp

lemma cache_step_refines:
  assumes "cache_inv c"
  obtains r c' where "cache_step op c = Ok (r, c')" "cache_inv c'" "capacityBytes c' = capacityBytes c"
    "lru_step (capacityBytes c) op (lru_of c) = (r, lru_of c')"
proof (cases op)
  case (OpPut k v)
  from assms obtain c' where "Cache_Put k v c = Ok c'" "cache_inv c'" "capacityBytes c' = capacityBytes c"
    "lru_of c' = lru_fit (capacityBytes c) ((k, v) # filter (\<lambda>(k', _). k' \<noteq> k) (lru_of c))" by (rule Cache_Put_spec)
  with OpPut show ?thesis by (intro that [of None c']) simp_all
next
  case (OpGet k)
  from assms obtain r c' where "Cache_Get k c = Ok (r, c')" "cache_inv c'" "capacityBytes c' = capacityBytes c"
    "lru_step (capacityBytes c) (OpGet k) (lru_of c) = (r, lru_of c')" by (rule Cache_Get_spec)
  with OpGet show ?thesis by (intro that [of r c']) simp_all
next
  case OpClear
  then show ?thesis by (intro that [of None "Cache_Clear c"]) (simp_all add: Cache_Clear_def cache_inv_def lru_of_def)
next
  case (OpRemoveByPrefix p)
  with assms remove_prefix_loop_spec [where c = c and kept = "[]" and rest = "cacheList c" and p = p] show ?thesis
    by (intro that [of None "Cache_RemoveByPrefix p c"]) (simp_all add: Cache_RemoveByPrefix_def lru_of_def lru_of_filter)
qed

lemma cache_run_refines:
  assumes "cache_inv c"
  obtains rs c' where "cache_run ops c = Ok (rs, c')" "cache_inv c'" "capacityBytes c' = capacityBytes c"
    "lru_run (capacityBytes c) ops (lru_of c) = (rs, lru_of c')"
  using assms
proof (induction ops arbitrary: c thesis)
  case Nil
  then show ?case by simp
next
  case (Cons op ops)
  from Cons.prems(2) obtain r c1 where c1: "cache_step op c = Ok (r, c1)" "cache_inv c1" "capacityBytes c1 = capacityBytes c"
    "lru_step (capacityBytes c) op (lru_of c) = (r, lru_of c1)" by (rule cache_step_refines)
  obtain rs c2 where c2: "cache_run ops c1 = Ok (rs, c2)" "cache_inv c2" "capacityBytes c2 = capacityBytes c1"
    "lru_run (capacityBytes c1) ops (lru_of c1) = (rs, lru_of c2)" using c1(2) by (rule Cons.IH [rotated])
  from c1 c2 show ?case by (intro Cons.prems(1) [of "r # rs" c2]) simp_all
qed

lemma lru_step_bound: "lru_bytes xs \<le> n \<Longrightarrow> lru_bytes (snd (lru_step n op xs)) \<le> n"
proof -
  have filter_le: "lru_bytes (filter P xs) \<le> lru_bytes xs" for P and xs :: lru by (induction xs) auto
  have get: "map_of xs k = Some v \<Longrightarrow> length v + lru_bytes (filter (\<lambda>(k', _). k' \<noteq> k) xs) \<le> lru_bytes xs" for k v and xs :: lru
    by (induction xs) (auto split: if_splits intro: le_trans [OF filter_le])
  have put: "lru_bytes (snd (lru_step n (OpPut k v) xs)) \<le> n" for k v
    using lru_fit_bound [of n "(k, v) # filter (\<lambda>(k', _). k' \<noteq> k) xs"] by (simp del: lru_fit.simps)
  assume xs: "lru_bytes xs \<le> n"
  then have "lru_bytes (filter P xs) \<le> n" for P using filter_le [of P xs] by simp
  with put xs show ?thesis
    by (cases op) (auto split: option.splits intro: le_trans dest!: get simp del: lru_step.simps(1))
qed

text \<open>
  C9. The cache is a least-recently-used cache. Any sequence of \<open>Put\<close>, \<open>Get\<close>, \<open>Clear\<close> and \<open>RemoveByPrefix\<close> on a new cache runs
  without dereferencing an invalid iterator, returns what the abstract cache returns, and leaves its contents in the
  same order of use; the recorded size is the number of bytes held and never exceeds the capacity.
\<close>

theorem IOCacheManager_refines_LRU:
  "\<exists>rs c. cache_run ops (IOCacheManager_new n) = Ok (rs, c) \<and> lru_run n ops [] = (rs, lru_of c) \<and>
     sizeBytes c = lru_bytes (lru_of c) \<and> sizeBytes c \<le> n"
proof -
  obtain rs c where c: "cache_run ops (IOCacheManager_new n) = Ok (rs, c)" "cache_inv c" "lru_run n ops [] = (rs, lru_of c)"
  proof (rule cache_run_refines [OF cache_inv_new [of n], of ops])
    fix rs c
    assume "cache_run ops (IOCacheManager_new n) = Ok (rs, c)" "cache_inv c"
      "lru_run (capacityBytes (IOCacheManager_new n)) ops (lru_of (IOCacheManager_new n)) = (rs, lru_of c)"
    then show thesis by (intro that) (simp_all add: IOCacheManager_new_def lru_of_def)
  qed
  have "lru_bytes xs \<le> n \<Longrightarrow> lru_bytes (snd (lru_run n ops xs)) \<le> n" for xs
  proof (induction ops arbitrary: xs)
    case (Cons op ops)
    from lru_step_bound [OF Cons.prems, of op] Cons.IH [of "snd (lru_step n op xs)"] show ?case by (auto split: prod.splits)
  qed simp
  from this [of "[]"] c show ?thesis by (auto simp: cache_inv_def)
qed

end
