(* ===== verification/Prefetch.thy ===== *)
theory Prefetch
  imports IoCache
begin

text \<open>
  The file regions of \<open>async_io/io_file_map.cc\<close> and the prefetcher of \<open>async_io/io_prefetch_manager.cc\<close> on top of them and of the
  cache. Files are a parameter, a map from paths to contents that the environment changes; offsets and lengths are
  64-bit words, whose sums wrap. A prefetch job is cut where other threads can run: the read, the test of the
  generation, the commit and the end.
\<close>

section \<open>Definitions\<close>

subsection \<open>IOFileMap\<close>

record MappedRegion =
  rg_offset :: u64
  rg_length :: u64
  rg_data :: bytes

type_synonym files = "string \<rightharpoonup> bytes"
type_synonym file_map = "string \<rightharpoonup> MappedRegion list"

definition slice :: "u64 \<Rightarrow> u64 \<Rightarrow> bytes \<Rightarrow> bytes" where
  "slice off len content = take (unat len) (drop (unat off) content)"

definition MapRegion :: "files \<Rightarrow> string \<Rightarrow> u64 \<Rightarrow> u64 \<Rightarrow> file_map \<Rightarrow> bool \<times> file_map" where
  "MapRegion fs path off len m = (case fs path of None \<Rightarrow> (False, m)
     | Some content \<Rightarrow>
         let fileSize = word_of_nat (length content) in
         if off > fileSize then (False, m)
         else let readLen = min len (fileSize - off);
                  region = \<lparr>rg_offset = off, rg_length = readLen, rg_data = slice off readLen content\<rparr>
              in (True, m(path \<mapsto> (case m path of None \<Rightarrow> [] | Some rs \<Rightarrow> rs) @ [region])))"

text \<open>The loop over the regions of a path; copying beyond the data of a region is undefined.\<close>

fun get_region_loop :: "u64 \<Rightarrow> u64 \<Rightarrow> MappedRegion list \<Rightarrow> (string, bytes option) exec" where
  "get_region_loop off len [] = Ok None"
| "get_region_loop off len (r # rs) =
     (if rg_offset r \<le> off \<and> off + len \<le> rg_offset r + rg_length r then
        let relative = off - rg_offset r in
        if unat relative + unat len \<le> length (rg_data r) then Ok (Some (slice relative len (rg_data r))) else Undef
      else get_region_loop off len rs)"

definition GetRegion :: "string \<Rightarrow> u64 \<Rightarrow> u64 \<Rightarrow> file_map \<Rightarrow> (string, bytes option) exec" where
  "GetRegion path off len m = (case m path of None \<Rightarrow> Ok None | Some rs \<Rightarrow> get_region_loop off len rs)"

definition Unmap :: "string \<Rightarrow> file_map \<Rightarrow> file_map" where
  "Unmap path m = m(path := None)"

definition GetMappedRegionCount :: "string \<Rightarrow> file_map \<Rightarrow> nat" where
  "GetMappedRegionCount path m = (case m path of None \<Rightarrow> 0 | Some rs \<Rightarrow> length rs)"

subsection \<open>IOPrefetchManager\<close>

record IOPrefetchManager =
  pf_cache :: IOCacheManager
  fileMap :: file_map
  inProgress :: "string set"
  pathGenerations :: "string \<Rightarrow> u64"

definition IOPrefetchManager_new :: "nat \<Rightarrow> IOPrefetchManager" where
  "IOPrefetchManager_new cacheSize =
     \<lparr>pf_cache = IOCacheManager_new cacheSize, fileMap = Map.empty, inProgress = {}, pathGenerations = (\<lambda>_. 0)\<rparr>"

definition BuildRegionKey :: "string \<Rightarrow> u64 \<Rightarrow> u64 \<Rightarrow> string" where
  "BuildRegionKey path off len = path @ '':'' @ show_nat (unat off) @ '':'' @ show_nat (unat len)"

record prefetch_job =
  j_path :: string
  j_off :: u64
  j_len :: u64
  j_generation :: u64
  j_read :: bool
  j_data :: bytes
  j_stale :: bool

text \<open>\<open>PrefetchAsync\<close> up to the enqueued job; \<open>None\<close> where the region is already being fetched.\<close>

definition PrefetchAsync :: "string \<Rightarrow> u64 \<Rightarrow> u64 \<Rightarrow> IOPrefetchManager \<Rightarrow> prefetch_job option \<times> IOPrefetchManager" where
  "PrefetchAsync path off len p =
     (let key = BuildRegionKey path off len in
      if key \<in> inProgress p then (None, p)
      else (Some \<lparr>j_path = path, j_off = off, j_len = len, j_generation = pathGenerations p path, j_read = False, j_data = [], j_stale = False\<rparr>,
            p\<lparr>inProgress := insert key (inProgress p)\<rparr>))"

definition job_fetch :: "files \<Rightarrow> prefetch_job \<Rightarrow> IOPrefetchManager \<Rightarrow> (string, prefetch_job \<times> IOPrefetchManager) exec" where
  "job_fetch fs j p =
     (let (ok, m) = MapRegion fs (j_path j) (j_off j) (j_len j) (fileMap p) in
      if \<not> ok then Ok (j, p\<lparr>fileMap := m\<rparr>)
      else ebind (GetRegion (j_path j) (j_off j) (j_len j) m) (\<lambda>r. case r of
          None \<Rightarrow> Ok (j, p\<lparr>fileMap := m\<rparr>)
        | Some d \<Rightarrow> Ok (j\<lparr>j_read := True, j_data := d\<rparr>, p\<lparr>fileMap := m\<rparr>)))"

definition job_check :: "prefetch_job \<Rightarrow> IOPrefetchManager \<Rightarrow> prefetch_job" where
  "job_check j p = (if j_read j then j\<lparr>j_stale := (pathGenerations p (j_path j) \<noteq> j_generation j)\<rparr> else j)"

definition job_commit :: "prefetch_job \<Rightarrow> IOPrefetchManager \<Rightarrow> (string, bool \<times> IOPrefetchManager) exec" where
  "job_commit j p =
     (if \<not> j_stale j \<and> j_data j \<noteq> [] then
        map_exec (\<lambda>c. (True, p\<lparr>pf_cache := c\<rparr>)) (Cache_Put (BuildRegionKey (j_path j) (j_off j) (j_len j)) (j_data j) (pf_cache p))
      else if j_stale j then Ok (False, p\<lparr>fileMap := Unmap (j_path j) (fileMap p)\<rparr>)
      else Ok (False, p))"

definition job_end :: "prefetch_job \<Rightarrow> IOPrefetchManager \<Rightarrow> IOPrefetchManager" where
  "job_end j p = p\<lparr>inProgress := inProgress p - {BuildRegionKey (j_path j) (j_off j) (j_len j)}\<rparr>"

definition TryGet :: "string \<Rightarrow> u64 \<Rightarrow> u64 \<Rightarrow> IOPrefetchManager \<Rightarrow> (string, bytes option \<times> IOPrefetchManager) exec" where
  "TryGet path off len p =
     (let key = BuildRegionKey path off len in
      ebind (Cache_Get key (pf_cache p)) (\<lambda>(hit, c). case hit of
          Some d \<Rightarrow> Ok (Some d, p\<lparr>pf_cache := c\<rparr>)
        | None \<Rightarrow> ebind (GetRegion path off len (fileMap p)) (\<lambda>r. case r of
            None \<Rightarrow> Ok (None, p\<lparr>pf_cache := c\<rparr>)
          | Some d \<Rightarrow> map_exec (\<lambda>c. (Some d, p\<lparr>pf_cache := c\<rparr>)) (Cache_Put key d c))))"

text \<open>The three sections of \<open>InvalidatePath\<close>, and the call.\<close>

definition invalidate_bump :: "string \<Rightarrow> IOPrefetchManager \<Rightarrow> IOPrefetchManager" where
  "invalidate_bump path p = p\<lparr>pathGenerations := (pathGenerations p)(path := pathGenerations p path + 1)\<rparr>"

definition invalidate_cache :: "string \<Rightarrow> IOPrefetchManager \<Rightarrow> IOPrefetchManager" where
  "invalidate_cache path p = p\<lparr>pf_cache := Cache_RemoveByPrefix (path @ '':'') (pf_cache p)\<rparr>"

definition invalidate_map :: "string \<Rightarrow> IOPrefetchManager \<Rightarrow> IOPrefetchManager" where
  "invalidate_map path p = p\<lparr>fileMap := Unmap path (fileMap p)\<rparr>"

definition InvalidatePath :: "string \<Rightarrow> IOPrefetchManager \<Rightarrow> IOPrefetchManager" where
  "InvalidatePath path p = invalidate_map path (invalidate_cache path (invalidate_bump path p))"

text \<open>A prefetch whose job runs to its end before anything else happens: the value given to the callback, or \<open>None\<close>.\<close>

definition Prefetch_now :: "files \<Rightarrow> string \<Rightarrow> u64 \<Rightarrow> u64 \<Rightarrow> IOPrefetchManager \<Rightarrow> (string, bool option \<times> IOPrefetchManager) exec" where
  "Prefetch_now fs path off len p = (case PrefetchAsync path off len p of
       (None, p) \<Rightarrow> Ok (None, p)
     | (Some j, p) \<Rightarrow> ebind (job_fetch fs j p) (\<lambda>(j, p). let j = job_check j p in
         map_exec (\<lambda>(ok, p). (Some ok, job_end j p)) (job_commit j p)))"

section \<open>Region keys\<close>




section \<open>Freshness\<close>


























type_synonym hit = "string \<times> u64 \<times> u64 \<times> bytes \<times> bytes set"












section \<open>Interleaved jobs\<close>

text \<open>A job that sees another generation commits nothing to the cache.\<close>

lemma stale_job_commits_nothing:
  assumes "j_read j" "pathGenerations p (j_path j) \<noteq> j_generation j"
  shows "job_commit (job_check j p) q = Ok (False, q\<lparr>fileMap := Unmap (j_path j) (fileMap q)\<rparr>)"
  using assms by (simp add: job_commit_def job_check_def)

text \<open>
  The test and the commit are two critical sections. Here the job has passed the test when the file is rewritten and its path
  invalidated; the commit then stores the old content, and the next \<open>TryGet\<close> returns it.
\<close>

lemma commit_after_invalidation_serves_stale_data:
  "ebind (job_fetch [''a'' \<mapsto> [1, 2]] (the (fst (PrefetchAsync ''a'' 0 2 (IOPrefetchManager_new 100)))) (snd (PrefetchAsync ''a'' 0 2 (IOPrefetchManager_new 100))))
     (\<lambda>(j, p). let j = job_check j p; p = InvalidatePath ''a'' p in
        ebind (job_commit j p) (\<lambda>(_, p). map_exec fst (TryGet ''a'' 0 2 p))) = Ok (Some [1, 2])"
  by code_simp

text \<open>The sum \<open>offset + length\<close> of a request may wrap past the test of \<open>GetRegion\<close>, which then copies beyond the region.\<close>

lemma GetRegion_wraps:
  "GetRegion ''a'' 1 (- 1) [''a'' \<mapsto> [\<lparr>rg_offset = 0, rg_length = 2, rg_data = [1, 2]\<rparr>]] = Undef"
  by (simp add: GetRegion_def Let_def unsigned_minus_1_eq_mask mask_eq_exp_minus_1)

text \<open>A prefetch that reaches past the end of its file maps the part that exists and then reports failure.\<close>

lemma Prefetch_past_end_fails:
  "map_exec fst (Prefetch_now [''a'' \<mapsto> [1, 2]] ''a'' 0 3 (IOPrefetchManager_new 100)) = Ok (Some False)"
  by code_simp

end
