(* ===== verification/BufferPools.thy ===== *)
theory BufferPools
  imports XER_Prelude "HOL-Library.Monad_Syntax"
begin

text \<open>
  The two buffer pools of the asynchronous I/O layer: the pool of equal blocks of \<open>async_io/async_buffer_pool.cc\<close> and the pool of
  size buckets of \<open>async_io/io_buffer_pool.cc\<close>. Buffers are shared objects, so each pool keeps a store from the
  identities of its buffers to what the pool reads of them. Every operation runs under a mutex and is one step. What a user may
  rely on, that no buffer is leased twice, is stated once in the locale \<open>buffer_pool\<close>, which both pools interpret.
\<close>

section \<open>Definitions\<close>

subsection \<open>AsyncBufferPool\<close>

record BufferBlock =
  block_data :: bytes
  used_bytes :: nat
  in_use :: bool

definition BufferBlock_new :: "nat \<Rightarrow> BufferBlock" where
  "BufferBlock_new capacity = \<lparr>block_data = replicate capacity 0, used_bytes = 0, in_use = False\<rparr>"

record AsyncBufferPool =
  block_size :: nat
  all_blocks :: "nat list"
  available_blocks :: "nat list"
  blocks :: "nat \<Rightarrow> BufferBlock"
  next_block :: nat

fun AllocateBlocks :: "nat \<Rightarrow> AsyncBufferPool \<Rightarrow> AsyncBufferPool" where
  "AllocateBlocks 0 p = p"
| "AllocateBlocks (Suc n) p = (let b = next_block p in
     AllocateBlocks n (p\<lparr>all_blocks := all_blocks p @ [b], available_blocks := available_blocks p @ [b],
       blocks := (blocks p)(b := BufferBlock_new (block_size p)), next_block := b + 1\<rparr>))"

definition AsyncBufferPool_new :: "nat \<Rightarrow> nat \<Rightarrow> AsyncBufferPool" where
  "AsyncBufferPool_new bs initial_blocks = AllocateBlocks initial_blocks
     \<lparr>block_size = bs, all_blocks = [], available_blocks = [], blocks = (\<lambda>_. BufferBlock_new 0), next_block = 0\<rparr>"

definition AcquireBuffer :: "AsyncBufferPool \<Rightarrow> nat \<times> AsyncBufferPool" where
  "AcquireBuffer p =
     (let p = (if available_blocks p = [] then AllocateBlocks 1 p else p);
          b = hd (available_blocks p)
      in (b, p\<lparr>available_blocks := tl (available_blocks p), blocks := (blocks p)(b := (blocks p b)\<lparr>used_bytes := 0, in_use := True\<rparr>)\<rparr>))"

definition ReleaseBuffer :: "nat option \<Rightarrow> AsyncBufferPool \<Rightarrow> AsyncBufferPool" where
  "ReleaseBuffer buffer p = (case buffer of None \<Rightarrow> p
     | Some b \<Rightarrow>
         if \<not> in_use (blocks p b) then p
         else if b \<notin> set (all_blocks p) then p
         else p\<lparr>available_blocks := available_blocks p @ [b], blocks := (blocks p)(b := (blocks p b)\<lparr>used_bytes := 0, in_use := False\<rparr>)\<rparr>)"

definition GetUsedBlocks :: "AsyncBufferPool \<Rightarrow> nat" where
  "GetUsedBlocks p = (if length (available_blocks p) \<le> length (all_blocks p) then length (all_blocks p) - length (available_blocks p) else 0)"

definition Pool_Resize :: "nat \<Rightarrow> AsyncBufferPool \<Rightarrow> AsyncBufferPool" where
  "Pool_Resize total_blocks p =
     (let current_size = length (all_blocks p) in
      if total_blocks > current_size then AllocateBlocks (total_blocks - current_size) p
      else if total_blocks < current_size then
        let kept = take total_blocks (all_blocks p) in
        p\<lparr>all_blocks := kept, available_blocks := filter (\<lambda>b. \<not> in_use (blocks p b)) kept\<rparr>
      else p)"

definition Pool_Reset :: "AsyncBufferPool \<Rightarrow> AsyncBufferPool" where
  "Pool_Reset p = p\<lparr>available_blocks := all_blocks p,
     blocks := (\<lambda>b. if b \<in> set (all_blocks p) then (blocks p b)\<lparr>used_bytes := 0, in_use := False\<rparr> else blocks p b)\<rparr>"

definition Pool_Trim :: "AsyncBufferPool \<Rightarrow> AsyncBufferPool" where
  "Pool_Trim p = p\<lparr>all_blocks := [], available_blocks := []\<rparr>"

subsection \<open>IOBufferPool\<close>

record Bucket =
  bucket_size :: u64
  freeList :: "nat list"

record IOBufferPool =
  minBucketSize :: u64
  maxBucketSize :: u64
  maxPerBucket :: nat
  buckets :: "Bucket list"
  capacity :: "nat \<rightharpoonup> u64"
  next_buffer :: nat

text \<open>Doubling a size wraps, so the loops of the constructor and of \<open>RoundUpToBucket\<close> need not end: not returning is \<open>None\<close>.\<close>

partial_function (option) bucket_sizes :: "u64 \<Rightarrow> u64 \<Rightarrow> u64 list option" where
  "bucket_sizes mx b = (if b \<le> mx then (if b > (- 1) div 2 then Some [b] else do { bs \<leftarrow> bucket_sizes mx (push_bit 1 b); Some (b # bs) }) else Some [])"

definition IOBufferPool_new :: "u64 \<Rightarrow> u64 \<Rightarrow> nat \<Rightarrow> IOBufferPool option" where
  "IOBufferPool_new mn mx per =
     (let mn = max 1 mn; mx = max mn mx in
      map_option (\<lambda>sizes. \<lparr>minBucketSize = mn, maxBucketSize = mx, maxPerBucket = per,
          buckets = map (\<lambda>s. \<lparr>bucket_size = s, freeList = []\<rparr>) sizes, capacity = Map.empty, next_buffer = 0\<rparr>) (bucket_sizes mx mn))"

partial_function (option) round_loop :: "u64 \<Rightarrow> u64 \<Rightarrow> u64 \<Rightarrow> u64 option" where
  "round_loop mx sz result = (if result < sz \<and> result < mx then round_loop mx sz (push_bit 1 result) else Some result)"

declare bucket_sizes.simps [code] round_loop.simps [code]

definition RoundUpToBucket :: "u64 \<Rightarrow> IOBufferPool \<Rightarrow> u64 option" where
  "RoundUpToBucket sz p =
     (if sz \<le> minBucketSize p then Some (minBucketSize p)
      else map_option (\<lambda>result. if result < sz then sz else result) (round_loop (maxBucketSize p) sz (minBucketSize p)))"

function index_loop :: "nat \<Rightarrow> u64 \<Rightarrow> nat \<Rightarrow> u64 \<Rightarrow> nat \<times> u64" where
  "index_loop n sz index b = (if index + 1 < n \<and> b < sz then index_loop n sz (index + 1) (push_bit 1 b) else (index, b))"
  by pat_completeness auto
termination by (relation "measure (\<lambda>(n, _, index, _). n - index)") auto

declare index_loop.simps [simp del]

definition BucketIndexForSize :: "u64 \<Rightarrow> IOBufferPool \<Rightarrow> nat option" where
  "BucketIndexForSize sz p = map_option (\<lambda>sz.
     let (index, b) = index_loop (length (buckets p)) sz 0 (minBucketSize p) in
     if b < sz then length (buckets p) - 1 else index) (RoundUpToBucket sz p)"

text \<open>\<open>reserve\<close> keeps a capacity that is large enough; the buffers of the free lists live until \<open>Release\<close> or \<open>Clear\<close> deletes them.\<close>

definition Acquire :: "u64 \<Rightarrow> IOBufferPool \<Rightarrow> (nat \<times> IOBufferPool) option" where
  "Acquire minSize p =
     do { targetSize \<leftarrow> RoundUpToBucket minSize p;
          idx \<leftarrow> BucketIndexForSize targetSize p;
          let bucket = buckets p ! idx;
          if freeList bucket \<noteq> [] then
            (let reusable = last (freeList bucket) in
             Some (reusable, p\<lparr>buckets := (buckets p)[idx := bucket\<lparr>freeList := butlast (freeList bucket)\<rparr>],
               capacity := (capacity p)(reusable \<mapsto> max (the (capacity p reusable)) (bucket_size bucket))\<rparr>))
          else
            (let newBuffer = next_buffer p in
             Some (newBuffer, p\<lparr>capacity := (capacity p)(newBuffer \<mapsto> targetSize), next_buffer := newBuffer + 1\<rparr>)) }"

definition Release :: "nat \<Rightarrow> IOBufferPool \<Rightarrow> IOBufferPool option" where
  "Release buffer p =
     do { bucketSize \<leftarrow> RoundUpToBucket (the (capacity p buffer)) p;
          if bucketSize > maxBucketSize p \<or> bucketSize < minBucketSize p then Some (p\<lparr>capacity := (capacity p)(buffer := None)\<rparr>)
          else do {
            idx \<leftarrow> BucketIndexForSize bucketSize p;
            let bucket = buckets p ! idx;
            if length (freeList bucket) \<ge> maxPerBucket p then Some (p\<lparr>capacity := (capacity p)(buffer := None)\<rparr>)
            else Some (p\<lparr>buckets := (buckets p)[idx := bucket\<lparr>freeList := freeList bucket @ [buffer]\<rparr>]\<rparr>) } }"

definition Pool_Clear :: "IOBufferPool \<Rightarrow> IOBufferPool" where
  "Pool_Clear p = p\<lparr>buckets := map (\<lambda>b. b\<lparr>freeList := []\<rparr>) (buckets p),
     capacity := (capacity p) |` (- \<Union> (set ` freeList ` set (buckets p)))\<rparr>"

subsection \<open>Histories of leases\<close>

text \<open>
  A history acquires buffers, gives back buffers that are held and calls other operations of the pool. The run keeps the
  list of the buffers held and the list of the grants, each with its request and the pool after it.
\<close>

datatype ('a, 't) lease_op = Take 'a | Give nat | Other 't

fun lease_run :: "('a \<Rightarrow> 's \<Rightarrow> (nat \<times> 's) option) \<Rightarrow> (nat \<Rightarrow> 's \<Rightarrow> 's option) \<Rightarrow> ('t \<Rightarrow> nat list \<Rightarrow> 's \<Rightarrow> 's) \<Rightarrow>
    ('a, 't) lease_op list \<Rightarrow> nat list \<Rightarrow> 's \<Rightarrow> (('a \<times> nat \<times> 's) list \<times> nat list \<times> 's) option" where
  "lease_run acquire release other [] held s = Some ([], held, s)"
| "lease_run acquire release other (Take a # ops) held s =
     do { (b, s) \<leftarrow> acquire a s;
          (grants, held, s') \<leftarrow> lease_run acquire release other ops (held @ [b]) s;
          Some ((a, b, s) # grants, held, s') }"
| "lease_run acquire release other (Give i # ops) held s =
     (if i < length held then
        do { s \<leftarrow> release (held ! i) s; lease_run acquire release other ops (take i held @ drop (Suc i) held) s }
      else lease_run acquire release other ops held s)"
| "lease_run acquire release other (Other t # ops) held s = lease_run acquire release other ops held (other t held s)"

section \<open>The contract of a pool\<close>

lemma distinct_without_nth:
  assumes "distinct xs" "i < length xs"
  shows "distinct (take i xs @ drop (Suc i) xs)" "xs ! i \<notin> set (take i xs @ drop (Suc i) xs)"
proof -
  have "distinct (take i xs @ xs ! i # drop (Suc i) xs)" using assms by (simp only: id_take_nth_drop [symmetric])
  then show "distinct (take i xs @ drop (Suc i) xs)" "xs ! i \<notin> set (take i xs @ drop (Suc i) xs)" by auto
qed

text \<open>
  \<open>leased s\<close> are the buffers out of the pool. An acquisition returns a buffer that was not out and that satisfies
  \<open>good\<close> for the request, the return of one buffer concerns no other, and the other operations end no lease.
\<close>

locale buffer_pool =
  fixes inv :: "'s \<Rightarrow> bool"
    and leased :: "'s \<Rightarrow> nat set"
    and acquire :: "'a \<Rightarrow> 's \<Rightarrow> (nat \<times> 's) option"
    and release :: "nat \<Rightarrow> 's \<Rightarrow> 's option"
    and other :: "'t \<Rightarrow> nat list \<Rightarrow> 's \<Rightarrow> 's"
    and ok :: "'a \<Rightarrow> bool"
    and good :: "'a \<Rightarrow> nat \<Rightarrow> 's \<Rightarrow> bool"
  assumes acquire_law: "inv s \<Longrightarrow> \<exists>b s'. acquire a s = Some (b, s') \<and> inv s' \<and> b \<notin> leased s \<and> leased s' = insert b (leased s) \<and> (ok a \<longrightarrow> good a b s')"
    and release_law: "inv s \<Longrightarrow> b \<in> leased s \<Longrightarrow> \<exists>s'. release b s = Some s' \<and> inv s' \<and> leased s - {b} \<subseteq> leased s'"
    and other_law: "inv s \<Longrightarrow> set held \<subseteq> leased s \<Longrightarrow> inv (other t held s) \<and> leased s \<subseteq> leased (other t held s)"
begin

lemma lease_run_exclusive:
  assumes "inv s" "set held \<subseteq> leased s" "distinct held"
  shows "\<exists>grants held' s'. lease_run acquire release other ops held s = Some (grants, held', s') \<and> inv s' \<and> set held' \<subseteq> leased s' \<and>
    distinct held' \<and> (\<forall>(a, b, t) \<in> set grants. ok a \<longrightarrow> good a b t)"
  using assms
proof (induction ops arbitrary: held s)
  case (Cons op ops)
  show ?case
  proof (cases op)
    case (Take a)
    obtain b s1 where a: "acquire a s = Some (b, s1)" "inv s1" "b \<notin> leased s" "leased s1 = insert b (leased s)" "ok a \<longrightarrow> good a b s1"
      using acquire_law [OF Cons.prems(1)] by blast
    have "set (held @ [b]) \<subseteq> leased s1" "distinct (held @ [b])" using a Cons.prems by auto
    from Cons.IH [OF a(2) this] a(1,5) Take show ?thesis by auto
  next
    case (Give i)
    show ?thesis
    proof (cases "i < length held")
      case True
      then have mem: "held ! i \<in> leased s" using Cons.prems(2) by auto
      obtain s1 where r: "release (held ! i) s = Some s1" "inv s1" "leased s - {held ! i} \<subseteq> leased s1"
        using release_law [OF Cons.prems(1) mem] by blast
      note d = distinct_without_nth [OF Cons.prems(3) True]
      moreover have "set (take i held @ drop (Suc i) held) \<subseteq> set held" by (auto dest: in_set_takeD in_set_dropD)
      ultimately have "set (take i held @ drop (Suc i) held) \<subseteq> leased s1" using r(3) Cons.prems(2) by blast
      from Cons.IH [OF r(2) this d(1)] r(1) True Give show ?thesis by simp
    qed (use Give Cons in simp)
  next
    case (Other t)
    have "inv (other t held s)" "set held \<subseteq> leased (other t held s)" using other_law [OF Cons.prems(1,2), of t] Cons.prems(2) by auto
    from Cons.IH [OF this Cons.prems(3)] Other show ?thesis by simp
  qed
qed simp

end

section \<open>AsyncBufferPool keeps the contract\<close>

definition async_pool_inv :: "AsyncBufferPool \<Rightarrow> bool" where
  "async_pool_inv p \<longleftrightarrow> distinct (all_blocks p) \<and> distinct (available_blocks p) \<and> set (all_blocks p) \<subseteq> {..<next_block p} \<and>
     set (available_blocks p) = {b \<in> set (all_blocks p). \<not> in_use (blocks p b)} \<and> (\<forall>b \<in> set (all_blocks p). length (block_data (blocks p b)) = block_size p)"

definition async_leased :: "AsyncBufferPool \<Rightarrow> nat set" where
  "async_leased p = {b. b < next_block p \<and> in_use (blocks p b)}"

lemma AllocateBlocks_inv:
  assumes "async_pool_inv p"
  shows "async_pool_inv (AllocateBlocks n p) \<and> async_leased (AllocateBlocks n p) = async_leased p \<and>
    length (all_blocks (AllocateBlocks n p)) = length (all_blocks p) + n \<and> (n > 0 \<longrightarrow> available_blocks (AllocateBlocks n p) \<noteq> [])"
  using assms
proof (induction n arbitrary: p)
  case (Suc n)
  let ?b = "next_block p"
  let ?p = "p\<lparr>all_blocks := all_blocks p @ [?b], available_blocks := available_blocks p @ [?b],
       blocks := (blocks p)(?b := BufferBlock_new (block_size p)), next_block := ?b + 1\<rparr>"
  have fresh: "?b \<notin> set (all_blocks p)" using Suc.prems by (auto simp: async_pool_inv_def)
  then have "async_pool_inv ?p" using Suc.prems by (auto simp: async_pool_inv_def BufferBlock_new_def)
  moreover have "async_leased ?p = async_leased p" by (auto simp: async_leased_def BufferBlock_new_def less_Suc_eq)
  moreover have "available_blocks (AllocateBlocks n p') \<noteq> []" if "available_blocks p' \<noteq> []" for p'
    using that by (induction n arbitrary: p') (auto simp: Let_def)
  ultimately show ?case using Suc.IH [of ?p] by (simp add: Let_def)
qed simp

lemma async_pool_inv_new: "async_pool_inv (AsyncBufferPool_new bs n)"
  unfolding AsyncBufferPool_new_def by (rule AllocateBlocks_inv [THEN conjunct1]) (simp add: async_pool_inv_def)

lemma AcquireBuffer_law:
  assumes "async_pool_inv p"
  shows "\<exists>b p'. AcquireBuffer p = (b, p') \<and> async_pool_inv p' \<and> b \<notin> async_leased p \<and> async_leased p' = insert b (async_leased p) \<and>
    b \<in> set (all_blocks p') \<and> used_bytes (blocks p' b) = 0 \<and> length (block_data (blocks p' b)) = block_size p'"
proof -
  define q where "q = (if available_blocks p = [] then AllocateBlocks 1 p else p)"
  have q: "async_pool_inv q" "async_leased q = async_leased p" "available_blocks q \<noteq> []"
    using AllocateBlocks_inv [OF assms, of 1] assms unfolding q_def by (cases "available_blocks p = []"; simp del: One_nat_def AllocateBlocks.simps)+
  then obtain b bs where b: "available_blocks q = b # bs" by (cases "available_blocks q") auto
  have acq: "AcquireBuffer p = (b, q\<lparr>available_blocks := bs, blocks := (blocks q)(b := (blocks q b)\<lparr>used_bytes := 0, in_use := True\<rparr>)\<rparr>)"
    using b by (simp add: AcquireBuffer_def Let_def q_def [symmetric])
  have mem: "b \<in> set (all_blocks q)" "\<not> in_use (blocks q b)" "b < next_block q" "b \<notin> set bs" using q(1) b by (auto simp: async_pool_inv_def)
  have "async_pool_inv (snd (AcquireBuffer p))" using q(1) b mem acq by (auto simp: async_pool_inv_def)
  moreover have "b \<notin> async_leased p" "async_leased (snd (AcquireBuffer p)) = insert b (async_leased p)"
    using q(2) mem acq by (auto simp: async_leased_def)
  ultimately show ?thesis using acq mem q(1) by (auto simp: async_pool_inv_def)
qed

lemma ReleaseBuffer_law:
  assumes "async_pool_inv p"
  shows "async_pool_inv (ReleaseBuffer b p) \<and> async_leased p - set_option b \<subseteq> async_leased (ReleaseBuffer b p)"
proof (cases b)
  case (Some c)
  show ?thesis
  proof (cases "in_use (blocks p c) \<and> c \<in> set (all_blocks p)")
    case True
    then have "c \<notin> set (available_blocks p)" using assms by (auto simp: async_pool_inv_def)
    with True Some assms show ?thesis by (auto simp: ReleaseBuffer_def async_pool_inv_def async_leased_def)
  qed (use Some assms in \<open>auto simp: ReleaseBuffer_def\<close>)
qed (use assms in \<open>auto simp: ReleaseBuffer_def\<close>)

lemma Pool_Resize_law:
  assumes "async_pool_inv p"
  shows "async_pool_inv (Pool_Resize n p) \<and> async_leased (Pool_Resize n p) = async_leased p \<and> length (all_blocks (Pool_Resize n p)) = n"
proof -
  have "set (take n (all_blocks p)) \<subseteq> set (all_blocks p)" by (rule set_take_subset)
  then have "async_pool_inv (p\<lparr>all_blocks := take n (all_blocks p), available_blocks := filter (\<lambda>b. \<not> in_use (blocks p b)) (take n (all_blocks p))\<rparr>)"
    using assms by (auto simp: async_pool_inv_def)
  then show ?thesis using AllocateBlocks_inv [OF assms, of "n - length (all_blocks p)"] assms
    by (auto simp: Pool_Resize_def Let_def async_leased_def)
qed

lemma Pool_Trim_law:
  assumes "async_pool_inv p"
  shows "async_pool_inv (Pool_Trim p)" "async_leased (Pool_Trim p) = async_leased p"
  using assms by (auto simp: async_pool_inv_def async_leased_def Pool_Trim_def)

lemma Pool_Reset_inv: "async_pool_inv p \<Longrightarrow> async_pool_inv (Pool_Reset p)"
  by (auto simp: async_pool_inv_def Pool_Reset_def)

datatype async_other = Resize nat | Trim

fun async_other_op :: "async_other \<Rightarrow> nat list \<Rightarrow> AsyncBufferPool \<Rightarrow> AsyncBufferPool" where
  "async_other_op (Resize n) held p = Pool_Resize n p"
| "async_other_op Trim held p = Pool_Trim p"

definition async_good :: "unit \<Rightarrow> nat \<Rightarrow> AsyncBufferPool \<Rightarrow> bool" where
  "async_good a b p \<longleftrightarrow> in_use (blocks p b) \<and> used_bytes (blocks p b) = 0 \<and> length (block_data (blocks p b)) = block_size p"

interpretation async: buffer_pool async_pool_inv async_leased "\<lambda>_ p. Some (AcquireBuffer p)" "\<lambda>b p. Some (ReleaseBuffer (Some b) p)"
  async_other_op "\<lambda>_. True" async_good
proof unfold_locales
  fix p :: AsyncBufferPool and a :: unit
  assume "async_pool_inv p"
  from AcquireBuffer_law [OF this] obtain b p' where a: "AcquireBuffer p = (b, p')" "async_pool_inv p'" "b \<notin> async_leased p"
    "async_leased p' = insert b (async_leased p)" "used_bytes (blocks p' b) = 0" "length (block_data (blocks p' b)) = block_size p'" by blast
  then have "b \<in> async_leased p'" by simp
  with a show "\<exists>b p'. Some (AcquireBuffer p) = Some (b, p') \<and> async_pool_inv p' \<and> b \<notin> async_leased p \<and> async_leased p' = insert b (async_leased p) \<and>
    (True \<longrightarrow> async_good a b p')" by (auto simp: async_good_def async_leased_def)
next
  fix p :: AsyncBufferPool and b
  assume "async_pool_inv p"
  from ReleaseBuffer_law [OF this, of "Some b"]
  show "\<exists>s'. Some (ReleaseBuffer (Some b) p) = Some s' \<and> async_pool_inv s' \<and> async_leased p - {b} \<subseteq> async_leased s'" by simp
next
  fix p :: AsyncBufferPool and t held
  assume "async_pool_inv p"
  then show "async_pool_inv (async_other_op t held p) \<and> async_leased p \<subseteq> async_leased (async_other_op t held p)"
    using Pool_Resize_law [of p] Pool_Trim_law [of p] by (cases t) auto
qed

text \<open>
  The block pool never lends a block twice: in every history of acquisitions, returns of blocks that are held, resizes and
  trims, the blocks held are pairwise different, and each block comes cleared and with the block size of the pool.
\<close>

theorem AsyncBufferPool_exclusive:
  "\<exists>grants held p. lease_run (\<lambda>_ p. Some (AcquireBuffer p)) (\<lambda>b p. Some (ReleaseBuffer (Some b) p)) async_other_op ops [] (AsyncBufferPool_new bs n)
      = Some (grants, held, p) \<and> distinct held \<and> list_all (\<lambda>(a, b, t). async_good a b t) grants"
  using async.lease_run_exclusive [OF async_pool_inv_new, of "[]" bs n ops] by (auto simp: list_all_iff)

text \<open>The number of used blocks is what it says, whatever was called before.\<close>

lemma GetUsedBlocks_counts:
  assumes "async_pool_inv p"
  shows "GetUsedBlocks p = length (filter (\<lambda>b. in_use (blocks p b)) (all_blocks p))"
proof -
  have d: "distinct (available_blocks p)" "distinct (filter (\<lambda>b. \<not> in_use (blocks p b)) (all_blocks p))"
    "set (available_blocks p) = set (filter (\<lambda>b. \<not> in_use (blocks p b)) (all_blocks p))" using assms by (simp_all add: async_pool_inv_def)
  have "length (available_blocks p) = length (filter (\<lambda>b. \<not> in_use (blocks p b)) (all_blocks p))"
    using distinct_card [OF d(1)] distinct_card [OF d(2)] d(3) by argo
  then show ?thesis using sum_length_filter_compl [of "\<lambda>b. in_use (blocks p b)" "all_blocks p"] by (simp add: GetUsedBlocks_def)
qed

text \<open>\<open>Reset\<close> takes back blocks that are still held, so the next acquisition lends the same block again.\<close>

lemma Reset_lends_twice:
  "let (b, p) = AcquireBuffer (AsyncBufferPool_new 8 1); (b', p') = AcquireBuffer (Pool_Reset p) in b = b'"
  by code_simp

section \<open>IOBufferPool keeps the contract\<close>

subsection \<open>Bucket sizes\<close>

text \<open>The sizes double from the smallest to the largest bucket when the largest is the smallest times a power of two.\<close>

definition bucket_of :: "u64 \<Rightarrow> nat \<Rightarrow> u64" where
  "bucket_of mn k = word_of_nat (unat mn * 2 ^ k)"

definition doubles_to :: "u64 \<Rightarrow> u64 \<Rightarrow> nat \<Rightarrow> bool" where
  "doubles_to mn mx K \<longleftrightarrow> 0 < unat mn \<and> unat mx = unat mn * 2 ^ K"

lemma unat_bound_64: "unat (x :: u64) < 2 ^ 64"
  by (rule order.strict_trans2 [OF unsigned_less]) simp

lemma bucket_of_0 [simp]: "bucket_of mn 0 = mn"
  by (simp add: bucket_of_def)

lemma double_bucket_of [simp]: "bucket_of mn k * 2 = bucket_of mn (Suc k)"
  by (simp add: bucket_of_def algebra_simps)

lemma unat_bucket_of:
  assumes "doubles_to mn mx K" "k \<le> K"
  shows "unat (bucket_of mn k) = unat mn * 2 ^ k"
proof -
  have "unat mn * 2 ^ k \<le> unat mn * 2 ^ K" using assms(2) by (intro mult_left_mono power_increasing) auto
  also have "\<dots> < 2 ^ 64" using assms(1) unat_bound_64 [of mx] by (simp add: doubles_to_def)
  finally show ?thesis unfolding bucket_of_def unat_of_nat by (simp add: take_bit_nat_eq_self)
qed

lemma bucket_of_mono:
  assumes "doubles_to mn mx K" "j \<le> K" "k \<le> K"
  shows "bucket_of mn j < bucket_of mn k \<longleftrightarrow> j < k"
  using assms unat_bucket_of [OF assms(1,2)] unat_bucket_of [OF assms(1,3)] by (simp add: word_less_nat_alt doubles_to_def)

lemma bucket_of_top: "doubles_to mn mx K \<Longrightarrow> bucket_of mn K = mx"
  using unat_bucket_of [of mn mx K K] by (simp add: doubles_to_def word_unat_eq_iff)

lemma bucket_sizes_doubles:
  assumes "doubles_to mn mx K" "k \<le> K"
  shows "bucket_sizes mx (bucket_of mn k) = Some (map (bucket_of mn) [k..<Suc K])"
  using assms(2)
proof (induction "K - k" arbitrary: k)
  case 0
  then have k: "k = K" by simp
  have top: "bucket_of mn K = mx" using assms(1) by (rule bucket_of_top)
  have "bucket_sizes mx (bucket_of mn (Suc K)) = Some []" if "\<not> mx > (- 1) div 2"
  proof -
    have "unat mx \<le> unat ((- 1 :: u64) div 2)" using that by (simp add: word_le_nat_alt not_less)
    also have "\<dots> = 2 ^ 63 - 1" by (simp add: unat_div unsigned_minus_1_eq_mask mask_eq_exp_minus_1)
    finally have "2 * unat mx < 2 ^ 64" by simp
    moreover have "bucket_of mn (Suc K) = word_of_nat (2 * unat mx)" using assms(1) by (simp add: bucket_of_def doubles_to_def algebra_simps)
    ultimately have "unat (bucket_of mn (Suc K)) = 2 * unat mx" by (simp only: unat_of_nat) (simp add: take_bit_nat_eq_self)
    then have "\<not> bucket_of mn (Suc K) \<le> mx" using assms(1) by (simp add: word_le_nat_alt doubles_to_def)
    then show ?thesis by (subst bucket_sizes.simps) simp
  qed
  then show ?case using top k by (subst bucket_sizes.simps) (simp add: double_bucket_of [of mn K, unfolded top])
next
  case (Suc d)
  then have k: "Suc k \<le> K" "d = K - Suc k" by auto
  have "unat (bucket_of mn (Suc k)) = 2 * unat (bucket_of mn k)" using unat_bucket_of [OF assms(1)] k(1) by simp
  then have "2 * unat (bucket_of mn k) < 2 ^ 64" using unat_bound_64 [of "bucket_of mn (Suc k)"] by simp
  then have "\<not> bucket_of mn k > (- 1) div 2"
    by (simp add: word_less_nat_alt unat_div unsigned_minus_1_eq_mask mask_eq_exp_minus_1)
  moreover have "bucket_of mn k \<le> mx" using bucket_of_mono [OF assms(1), of k K] bucket_of_top [OF assms(1)] k(1) by (metis Suc_leD leI less_imp_le nat_less_le not_less order_refl)
  ultimately show ?case using Suc.hyps(1) [OF k(2,1)] k(1) by (subst bucket_sizes.simps) (simp add: upt_conv_Cons del: upt_Suc)
qed

lemma round_loop_doubles:
  assumes "doubles_to mn mx K" "k \<le> K"
  shows "\<exists>j \<ge> k. j \<le> K \<and> round_loop mx sz (bucket_of mn k) = Some (bucket_of mn j) \<and> (sz \<le> mx \<longrightarrow> sz \<le> bucket_of mn j) \<and>
    (j = k \<or> bucket_of mn (j - 1) < sz)"
  using assms(2)
proof (induction "K - k" arbitrary: k)
  case 0
  then show ?case using bucket_of_top [OF assms(1)] by (intro exI [of _ K]) (subst round_loop.simps, simp)
next
  case (Suc d)
  show ?case
  proof (cases "bucket_of mn k < sz")
    case True
    have k: "Suc k \<le> K" "d = K - Suc k" "bucket_of mn k < mx"
      using Suc.hyps(2) bucket_of_mono [OF assms(1), of k K] bucket_of_top [OF assms(1)] by auto
    from Suc.hyps(1) [OF k(2,1)] obtain j where "j \<ge> Suc k" "j \<le> K" "round_loop mx sz (bucket_of mn (Suc k)) = Some (bucket_of mn j)"
      "sz \<le> mx \<longrightarrow> sz \<le> bucket_of mn j" "j = Suc k \<or> bucket_of mn (j - 1) < sz" by blast
    with True k(3) show ?thesis by (intro exI [of _ j]) (subst round_loop.simps, auto)
  next
    case False
    with Suc.prems show ?thesis by (intro exI [of _ k]) (subst round_loop.simps, auto)
  qed
qed

lemma index_loop_doubles:
  assumes "doubles_to mn mx K" "k \<le> m" "m \<le> K"
  shows "index_loop (Suc K) (bucket_of mn m) k (bucket_of mn k) = (m, bucket_of mn m)"
  using assms(2)
proof (induction "m - k" arbitrary: k)
  case 0
  then show ?case by (subst index_loop.simps) simp
next
  case (Suc d)
  then have "k < m" "d = m - Suc k" "Suc k \<le> m" by auto
  with Suc.hyps(1) [of "Suc k"] bucket_of_mono [OF assms(1), of k m] assms(3) show ?case by (subst index_loop.simps) simp
qed

lemma index_loop_bound: "index < n \<Longrightarrow> fst (index_loop n sz index b) < n"
  by (induction n sz index b rule: index_loop.induct) (subst index_loop.simps, simp)

subsection \<open>The invariant\<close>

abbreviation free_buffers :: "IOBufferPool \<Rightarrow> nat list" where
  "free_buffers p \<equiv> concat (map freeList (buckets p))"

definition io_pool_inv :: "IOBufferPool \<Rightarrow> bool" where
  "io_pool_inv p \<longleftrightarrow> (\<exists>K. doubles_to (minBucketSize p) (maxBucketSize p) K \<and> map bucket_size (buckets p) = map (bucket_of (minBucketSize p)) [0..<Suc K]) \<and>
     dom (capacity p) \<subseteq> {..<next_buffer p} \<and> set (free_buffers p) \<subseteq> dom (capacity p) \<and> distinct (free_buffers p)"

definition io_leased :: "IOBufferPool \<Rightarrow> nat set" where
  "io_leased p = dom (capacity p) - set (free_buffers p)"

lemma io_pool_inv_new:
  assumes "doubles_to mn mx K"
  shows "\<exists>p. IOBufferPool_new mn mx per = Some p \<and> io_pool_inv p \<and> maxBucketSize p = mx"
proof -
  have mn: "max 1 mn = mn" using assms by (auto simp: doubles_to_def max_def word_le_nat_alt)
  have mx: "max mn mx = mx" using bucket_of_mono [OF assms, of K 0] bucket_of_top [OF assms] by (auto simp: max_def)
  have "bucket_sizes mx mn = Some (map (bucket_of mn) [0..<Suc K])" using bucket_sizes_doubles [OF assms, of 0] by simp
  then show ?thesis using assms mn mx
    by (simp add: IOBufferPool_new_def io_pool_inv_def comp_def del: upt_Suc) (auto simp: comp_def map_replicate_const simp del: upt_Suc)
qed

lemma io_pool_invE:
  assumes "io_pool_inv p"
  obtains K where "doubles_to (minBucketSize p) (maxBucketSize p) K" "length (buckets p) = Suc K"
    "\<And>k. k \<le> K \<Longrightarrow> bucket_size (buckets p ! k) = bucket_of (minBucketSize p) k"
proof -
  from assms obtain K where K: "doubles_to (minBucketSize p) (maxBucketSize p) K"
    "map bucket_size (buckets p) = map (bucket_of (minBucketSize p)) [0..<Suc K]" by (auto simp: io_pool_inv_def)
  have "length (map bucket_size (buckets p)) = length (map (bucket_of (minBucketSize p)) [0..<Suc K])" by (simp only: K(2))
  then have len: "length (buckets p) = Suc K" by (simp only: length_map length_upt diff_zero)
  have "bucket_size (buckets p ! k) = bucket_of (minBucketSize p) k" if "k \<le> K" for k
  proof -
    have "map bucket_size (buckets p) ! k = map (bucket_of (minBucketSize p)) [0..<Suc K] ! k" using K(2) by simp
    with that len show ?thesis by (simp del: upt_Suc)
  qed
  with K(1) len show ?thesis by (rule that)
qed

lemma RoundUpToBucket_spec:
  assumes "doubles_to (minBucketSize p) (maxBucketSize p) K"
  shows "sz \<le> maxBucketSize p \<Longrightarrow> \<exists>j \<le> K. RoundUpToBucket sz p = Some (bucket_of (minBucketSize p) j) \<and> sz \<le> bucket_of (minBucketSize p) j"
    and "maxBucketSize p < sz \<Longrightarrow> RoundUpToBucket sz p = Some sz"
    and "m \<le> K \<Longrightarrow> RoundUpToBucket (bucket_of (minBucketSize p) m) p = Some (bucket_of (minBucketSize p) m)"
proof -
  let ?mn = "minBucketSize p" let ?mx = "maxBucketSize p"
  have loop: "\<exists>j \<le> K. round_loop ?mx s ?mn = Some (bucket_of ?mn j) \<and> (s \<le> ?mx \<longrightarrow> s \<le> bucket_of ?mn j) \<and> (j = 0 \<or> bucket_of ?mn (j - 1) < s)" for s
    using round_loop_doubles [OF assms, of 0 s] by auto
  show "\<exists>j \<le> K. RoundUpToBucket sz p = Some (bucket_of ?mn j) \<and> sz \<le> bucket_of ?mn j" if "sz \<le> ?mx"
  proof (cases "sz \<le> ?mn")
    case False
    from loop [of sz] that obtain j where "j \<le> K" "round_loop ?mx sz ?mn = Some (bucket_of ?mn j)" "sz \<le> bucket_of ?mn j" by blast
    with False show ?thesis by (intro exI [of _ j]) (auto simp: RoundUpToBucket_def not_less)
  qed (auto simp: RoundUpToBucket_def intro!: exI [of _ 0])
  show "RoundUpToBucket sz p = Some sz" if "?mx < sz"
  proof -
    from loop [of sz] obtain j where j: "j \<le> K" "round_loop ?mx sz ?mn = Some (bucket_of ?mn j)" by blast
    have le: "bucket_of ?mn i \<le> ?mx" if "i \<le> K" for i using bucket_of_mono [OF assms, of K i] bucket_of_top [OF assms] that by auto
    from le [OF j(1)] le [of 0] \<open>?mx < sz\<close> j show ?thesis by (auto simp: RoundUpToBucket_def)
  qed
  show "RoundUpToBucket (bucket_of ?mn m) p = Some (bucket_of ?mn m)" if "m \<le> K"
  proof (cases "bucket_of ?mn m \<le> ?mn")
    case True
    then have "m = 0" using bucket_of_mono [OF assms, of 0 m] that by (auto simp: not_less)
    then show ?thesis by (simp add: RoundUpToBucket_def)
  next
    case False
    have top: "bucket_of ?mn m \<le> ?mx" using bucket_of_mono [OF assms, of K m] bucket_of_top [OF assms] that by auto
    with loop [of "bucket_of ?mn m"] obtain j where j: "j \<le> K" "round_loop ?mx (bucket_of ?mn m) ?mn = Some (bucket_of ?mn j)"
      "bucket_of ?mn m \<le> bucket_of ?mn j" "j = 0 \<or> bucket_of ?mn (j - 1) < bucket_of ?mn m" by blast
    have "m \<le> j" using j(3) bucket_of_mono [OF assms, of j m] j(1) that by (simp add: not_less [symmetric])
    moreover have "j \<le> m" using j(4) bucket_of_mono [OF assms, of "j - 1" m] j(1) that by auto
    ultimately show ?thesis using False j(2) by (simp add: RoundUpToBucket_def)
  qed
qed

lemma BucketIndexForSize_spec:
  assumes "doubles_to (minBucketSize p) (maxBucketSize p) K" "length (buckets p) = Suc K"
  shows "m \<le> K \<Longrightarrow> BucketIndexForSize (bucket_of (minBucketSize p) m) p = Some m"
    and "\<exists>i. BucketIndexForSize sz p = Some i \<and> i < length (buckets p)"
proof -
  show "BucketIndexForSize (bucket_of (minBucketSize p) m) p = Some m" if "m \<le> K"
    using RoundUpToBucket_spec(3) [OF assms(1) that] index_loop_doubles [OF assms(1) _ that, of 0] assms(2) by (simp add: BucketIndexForSize_def)
  obtain r where "RoundUpToBucket sz p = Some r" using RoundUpToBucket_spec(1,2) [OF assms(1), of sz] by (cases "sz \<le> maxBucketSize p") auto
  moreover obtain i b where "index_loop (length (buckets p)) r 0 (minBucketSize p) = (i, b)" by fastforce
  moreover from this have "i < length (buckets p)" using index_loop_bound [of 0 "length (buckets p)" r "minBucketSize p"] assms(2) by simp
  ultimately show "\<exists>i. BucketIndexForSize sz p = Some i \<and> i < length (buckets p)" by (auto simp: BucketIndexForSize_def)
qed

lemma free_list_update:
  assumes "i < length bs" "distinct (concat (map freeList bs))"
  shows "freeList (bs ! i) = xs @ [x] \<Longrightarrow> distinct (concat (map freeList (bs[i := (bs ! i)\<lparr>freeList := xs\<rparr>]))) \<and>
      set (concat (map freeList (bs[i := (bs ! i)\<lparr>freeList := xs\<rparr>]))) = set (concat (map freeList bs)) - {x}"
    and "x \<notin> set (concat (map freeList bs)) \<Longrightarrow> distinct (concat (map freeList (bs[i := (bs ! i)\<lparr>freeList := freeList (bs ! i) @ [x]\<rparr>]))) \<and>
      set (concat (map freeList (bs[i := (bs ! i)\<lparr>freeList := freeList (bs ! i) @ [x]\<rparr>]))) = insert x (set (concat (map freeList bs)))"
proof -
  define A B where "A = concat (map freeList (take i bs))" and "B = concat (map freeList (drop (Suc i) bs))"
  have whole: "concat (map freeList bs) = A @ freeList (bs ! i) @ B"
    unfolding A_def B_def by (subst id_take_nth_drop [OF assms(1)]) simp
  have upd: "concat (map freeList (bs[i := (bs ! i)\<lparr>freeList := ys\<rparr>])) = A @ ys @ B" for ys
    unfolding A_def B_def by (subst upd_conv_take_nth_drop [OF assms(1)]) simp
  show "freeList (bs ! i) = xs @ [x] \<Longrightarrow> distinct (concat (map freeList (bs[i := (bs ! i)\<lparr>freeList := xs\<rparr>]))) \<and>
      set (concat (map freeList (bs[i := (bs ! i)\<lparr>freeList := xs\<rparr>]))) = set (concat (map freeList bs)) - {x}"
    using assms(2) unfolding upd whole by auto
  show "x \<notin> set (concat (map freeList bs)) \<Longrightarrow> distinct (concat (map freeList (bs[i := (bs ! i)\<lparr>freeList := freeList (bs ! i) @ [x]\<rparr>]))) \<and>
      set (concat (map freeList (bs[i := (bs ! i)\<lparr>freeList := freeList (bs ! i) @ [x]\<rparr>]))) = insert x (set (concat (map freeList bs)))"
    using assms(2) unfolding upd whole by auto
qed

lemma bucket_sizes_update: "map bucket_size (bs[i := (bs ! i)\<lparr>freeList := xs\<rparr>]) = map bucket_size bs"
  by (cases "i < length bs") (simp_all add: map_update list_update_same_conv list_update_beyond)

subsection \<open>The operations\<close>

definition io_good :: "u64 \<Rightarrow> nat \<Rightarrow> IOBufferPool \<Rightarrow> bool" where
  "io_good minSize b p \<longleftrightarrow> minSize \<le> maxBucketSize p \<longrightarrow> minSize \<le> the (capacity p b)"

lemma Acquire_law:
  assumes "io_pool_inv p"
  shows "\<exists>b p'. Acquire minSize p = Some (b, p') \<and> io_pool_inv p' \<and> b \<notin> io_leased p \<and> io_leased p' = insert b (io_leased p) \<and> io_good minSize b p'"
proof -
  from assms obtain K where K: "doubles_to (minBucketSize p) (maxBucketSize p) K" "length (buckets p) = Suc K"
    "\<And>k. k \<le> K \<Longrightarrow> bucket_size (buckets p ! k) = bucket_of (minBucketSize p) k" by (rule io_pool_invE) auto
  obtain t idx where t: "RoundUpToBucket minSize p = Some t" "BucketIndexForSize t p = Some idx" "idx < length (buckets p)"
    "minSize \<le> maxBucketSize p \<Longrightarrow> minSize \<le> t \<and> minSize \<le> bucket_size (buckets p ! idx)"
  proof (cases "minSize \<le> maxBucketSize p")
    case True
    then obtain j where "j \<le> K" "RoundUpToBucket minSize p = Some (bucket_of (minBucketSize p) j)" "minSize \<le> bucket_of (minBucketSize p) j"
      using RoundUpToBucket_spec(1) [OF K(1)] by blast
    with K BucketIndexForSize_spec(1) [OF K(1,2), of j] show ?thesis by (intro that [of "bucket_of (minBucketSize p) j" j]) auto
  next
    case False
    with RoundUpToBucket_spec(2) [OF K(1)] BucketIndexForSize_spec(2) [OF K(1,2)] show ?thesis
      by (metis not_le that)
  qed
  let ?b = "buckets p ! idx"
  show ?thesis
  proof (cases "freeList ?b" rule: rev_cases)
    case Nil
    let ?p = "p\<lparr>capacity := (capacity p)(next_buffer p \<mapsto> t), next_buffer := next_buffer p + 1\<rparr>"
    have "Acquire minSize p = Some (next_buffer p, ?p)" using t Nil by (simp add: Acquire_def Let_def)
    moreover have new: "next_buffer p \<notin> dom (capacity p)" "next_buffer p \<notin> set (free_buffers p)" using assms unfolding io_pool_inv_def by blast+
    then have "io_pool_inv ?p" using assms by (auto simp: io_pool_inv_def)
    moreover have "io_leased ?p = insert (next_buffer p) (io_leased p)" "next_buffer p \<notin> io_leased p" using new by (auto simp: io_leased_def)
    ultimately show ?thesis using t(4) by (auto simp: io_good_def)
  next
    case (snoc xs x)
    define bs where "bs = (buckets p)[idx := ?b\<lparr>freeList := xs\<rparr>]"
    let ?p = "p\<lparr>buckets := bs, capacity := (capacity p)(x \<mapsto> max (the (capacity p x)) (bucket_size ?b))\<rparr>"
    have acq: "Acquire minSize p = Some (x, ?p)" using t snoc by (simp add: Acquire_def Let_def bs_def)
    have "x \<in> set (free_buffers p)" using snoc t(3) by (auto intro!: bexI [of _ ?b])
    then have x: "x \<in> set (free_buffers p)" "x \<in> dom (capacity p)" using assms unfolding io_pool_inv_def by blast+
    have free: "distinct (concat (map freeList bs))" "set (concat (map freeList bs)) = set (free_buffers p) - {x}"
      using free_list_update(1) [OF t(3) _ snoc] assms unfolding io_pool_inv_def bs_def by blast+
    have "map bucket_size bs = map bucket_size (buckets p)" unfolding bs_def by (rule bucket_sizes_update)
    then have "io_pool_inv ?p" using assms x free unfolding io_pool_inv_def by (auto simp del: set_concat)
    moreover have "io_leased ?p = insert x (io_leased p)" "x \<notin> io_leased p" using x free by (auto simp: io_leased_def simp del: set_concat)
    ultimately show ?thesis using acq t(4) by (auto simp: io_good_def le_max_iff_disj)
  qed
qed

lemma io_delete_law:
  assumes "io_pool_inv p" "b \<in> io_leased p"
  shows "io_pool_inv (p\<lparr>capacity := (capacity p)(b := None)\<rparr>)" "io_leased p - {b} \<subseteq> io_leased (p\<lparr>capacity := (capacity p)(b := None)\<rparr>)"
  using assms by (auto simp: io_pool_inv_def io_leased_def simp del: set_concat)

lemma Release_law:
  assumes "io_pool_inv p" "b \<in> io_leased p"
  shows "\<exists>p'. Release b p = Some p' \<and> io_pool_inv p' \<and> io_leased p - {b} \<subseteq> io_leased p'"
proof -
  from assms(1) obtain K where K: "doubles_to (minBucketSize p) (maxBucketSize p) K" "length (buckets p) = Suc K"
    by (rule io_pool_invE) auto
  obtain r where r: "RoundUpToBucket (the (capacity p b)) p = Some r"
    using RoundUpToBucket_spec(1,2) [OF K(1), of "the (capacity p b)"] by (cases "the (capacity p b) \<le> maxBucketSize p") auto
  obtain idx where i: "BucketIndexForSize r p = Some idx" "idx < length (buckets p)" using BucketIndexForSize_spec(2) [OF K] by blast
  define bs where "bs = (buckets p)[idx := (buckets p ! idx)\<lparr>freeList := freeList (buckets p ! idx) @ [b]\<rparr>]"
  have free: "distinct (concat (map freeList bs))" "set (concat (map freeList bs)) = insert b (set (free_buffers p))"
    using free_list_update(2) [OF i(2), of b] assms unfolding io_pool_inv_def io_leased_def bs_def by blast+
  have "map bucket_size bs = map bucket_size (buckets p)" unfolding bs_def by (rule bucket_sizes_update)
  then have "io_pool_inv (p\<lparr>buckets := bs\<rparr>)" "io_leased p - {b} \<subseteq> io_leased (p\<lparr>buckets := bs\<rparr>)"
    using assms free by (auto simp: io_pool_inv_def io_leased_def simp del: set_concat)
  with r i io_delete_law [OF assms] show ?thesis by (auto simp: Release_def Let_def bs_def)
qed

lemma Pool_Clear_law:
  assumes "io_pool_inv p"
  shows "io_pool_inv (Pool_Clear p)" "io_leased (Pool_Clear p) = io_leased p"
proof -
  have "dom (capacity (Pool_Clear p)) = dom (capacity p) - set (free_buffers p)" "free_buffers (Pool_Clear p) = []"
    "map bucket_size (buckets (Pool_Clear p)) = map bucket_size (buckets p)" by (auto simp: Pool_Clear_def)
  with assms show "io_pool_inv (Pool_Clear p)" "io_leased (Pool_Clear p) = io_leased p"
    unfolding io_pool_inv_def io_leased_def by (auto simp: Pool_Clear_def simp del: set_concat map_map concat_eq_Nil_conv)
qed

text \<open>The other steps of a history: \<open>Clear\<close>, and a user that lets a buffer it holds grow.\<close>

datatype io_other = ClearPool | Grow nat u64

fun io_other_op :: "io_other \<Rightarrow> nat list \<Rightarrow> IOBufferPool \<Rightarrow> IOBufferPool" where
  "io_other_op ClearPool held p = Pool_Clear p"
| "io_other_op (Grow i c) held p =
     (if i < length held then p\<lparr>capacity := (capacity p)(held ! i \<mapsto> max c (the (capacity p (held ! i))))\<rparr> else p)"

interpretation io: buffer_pool io_pool_inv io_leased Acquire Release io_other_op "\<lambda>_. True" io_good
proof unfold_locales
  fix p :: IOBufferPool and t held
  assume inv: "io_pool_inv p" and held: "set held \<subseteq> io_leased p"
  show "io_pool_inv (io_other_op t held p) \<and> io_leased p \<subseteq> io_leased (io_other_op t held p)"
  proof (cases t)
    case (Grow i c)
    show ?thesis
    proof (cases "i < length held")
      case True
      with held have "held ! i \<in> io_leased p" by auto
      then have "held ! i \<in> dom (capacity p)" by (simp add: io_leased_def)
      then have "dom ((capacity p)(held ! i \<mapsto> x)) = dom (capacity p)" for x by auto
      with inv True Grow show ?thesis by (simp add: io_pool_inv_def io_leased_def del: set_concat dom_fun_upd)
    qed (use inv Grow in simp)
  qed (use Pool_Clear_law [OF inv] in simp)
qed (use Acquire_law Release_law in auto)

text \<open>
  C26. The bucket pool lends each buffer once and large enough: when its largest bucket is its smallest times a power of two,
  every history of acquisitions, returns, clears and growing buffers runs to its end (no bucket search diverges), the buffers held
  are pairwise different, and an acquisition of at most the largest bucket size has at least the capacity it asks for.
\<close>

theorem IOBufferPool_serves:
  assumes "doubles_to mn mx K"
  shows "\<exists>p grants held p'. IOBufferPool_new mn mx per = Some p \<and> lease_run Acquire Release io_other_op ops [] p = Some (grants, held, p') \<and>
    distinct held \<and> list_all (\<lambda>(minSize, b, t). io_good minSize b t) grants"
proof -
  obtain p where p: "IOBufferPool_new mn mx per = Some p" "io_pool_inv p" using io_pool_inv_new [OF assms] by blast
  from io.lease_run_exclusive [OF p(2), of "[]" ops] p(1) show ?thesis by (fastforce simp: list_all_iff)
qed

theorem IOBufferPool_serves_witness:
  "\<exists>p grants held p'. IOBufferPool_new 64 1048576 128 = Some p \<and>
    lease_run Acquire Release io_other_op [Take 100, Give 0, Take 65, Take 2000, Other (Grow 0 5000), Give 0] [] p = Some (grants, held, p') \<and>
    distinct held \<and> list_all (\<lambda>(minSize, b, t). io_good minSize b t) grants"
  by (rule IOBufferPool_serves [of _ _ 14]) (simp add: doubles_to_def)

text \<open>
  Outside these conditions the capacity is not guaranteed: a request above the largest bucket, and a request between the last
  bucket and a largest size that is no doubling of the smallest, are served from the last free list with too small a buffer.
\<close>

lemma Acquire_too_small:
  "(do { p \<leftarrow> IOBufferPool_new 4 8 1; (b, p) \<leftarrow> Acquire 8 p; p \<leftarrow> Release b p; (b, p) \<leftarrow> Acquire 20 p; capacity p b }) = Some 8"
  "(do { p \<leftarrow> IOBufferPool_new 4 7 1; (b, p) \<leftarrow> Acquire 4 p; p \<leftarrow> Release b p; (b, p) \<leftarrow> Acquire 6 p; capacity p b }) = Some 4"
  by code_simp+

end
