(* ===== verification/CacheStorage.thy ===== *)
theory CacheStorage
  imports XerHelpers "HOL-Library.Sublist"
begin

text \<open>
  The cache of \<open>src/cache\<close>: entries, file names, the storage in memory, the storage on disk with its sidecar files for the time to live,
  the directory locks and the manager. The disk is a tree of directories and files; what a host may refuse (permissions,
  space, renames) is a parameter, as are SHA-256, Unicode normalisation and the clock. Paths are lists of components; the operations of the
  file system resolve \<open>.\<close> and \<open>..\<close>. Error texts are results: \<open>None\<close> is success.
\<close>

section \<open>Definitions\<close>

subsection \<open>The file system\<close>

type_synonym fpath = "string list"

datatype node = Dir | File bytes

type_synonym fsys = "(fpath \<times> node) list"

record cache_host =
  h_mkdir :: "fpath \<Rightarrow> bool"
  h_open :: "fpath \<Rightarrow> bool"
  h_space :: "fpath \<Rightarrow> nat"
  h_early :: "fpath \<Rightarrow> bool"
  h_rename :: "bool \<Rightarrow> fpath \<Rightarrow> bool"
  h_remove :: "fpath \<Rightarrow> bool"
  h_readable :: "fpath \<Rightarrow> bool"
  h_reason :: string
  icu :: nfc
  sha256 :: "bytes \<Rightarrow> bytes"

definition resolve_step :: "fpath \<Rightarrow> string \<Rightarrow> fpath" where
  "resolve_step acc c = (if c = ''..'' then butlast acc else if c = ''.'' \<or> c = [] then acc else acc @ [c])"

definition path_resolve :: "fpath \<Rightarrow> fpath" where
  "path_resolve p = foldl resolve_step [] p"

definition node_at :: "fsys \<Rightarrow> fpath \<Rightarrow> node option" where
  "node_at fs p = (if p = [] then Some Dir else map_of fs p)"

definition fs_del :: "fpath \<Rightarrow> fsys \<Rightarrow> fsys" where
  "fs_del p fs = filter (\<lambda>(q, _). q \<noteq> p) fs"

definition fs_put :: "fpath \<Rightarrow> node \<Rightarrow> fsys \<Rightarrow> fsys" where
  "fs_put p n fs = (p, n) # fs_del p fs"

definition path_string :: "fpath \<Rightarrow> string" where
  "path_string p = concat (map (\<lambda>c. CHR ''/'' # c) p)"

definition app_name :: "fpath \<Rightarrow> string \<Rightarrow> fpath" where
  "app_name p ext = butlast p @ [last p @ ext]"

fun mkdirs :: "cache_host \<Rightarrow> fpath list \<Rightarrow> fsys \<Rightarrow> bool \<times> fsys" where
  "mkdirs h [] fs = (True, fs)"
| "mkdirs h (q # qs) fs = (case node_at fs q of
       Some Dir \<Rightarrow> mkdirs h qs fs
     | Some (File _) \<Rightarrow> (False, fs)
     | None \<Rightarrow> if h_mkdir h q then mkdirs h qs (fs_put q Dir fs) else (False, fs))"

definition create_directories :: "cache_host \<Rightarrow> fpath \<Rightarrow> fsys \<Rightarrow> bool \<times> fsys" where
  "create_directories h p fs = mkdirs h (prefixes (path_resolve p)) fs"

text \<open>Opening for writing empties the file; a full disk keeps what fitted.\<close>

definition open_trunc :: "cache_host \<Rightarrow> fpath \<Rightarrow> fsys \<Rightarrow> fsys option" where
  "open_trunc h p fs =
     (let q = path_resolve p in
      if q \<noteq> [] \<and> node_at fs (butlast q) = Some Dir \<and> node_at fs q \<noteq> Some Dir \<and> h_open h q then Some (fs_put q (File []) fs) else None)"

definition write_all :: "cache_host \<Rightarrow> fpath \<Rightarrow> bytes \<Rightarrow> fsys \<Rightarrow> bool \<times> fsys" where
  "write_all h p bs fs = (let q = path_resolve p in (length bs \<le> h_space h q, fs_put q (File (take (h_space h q) bs)) fs))"

definition read_all :: "cache_host \<Rightarrow> fpath \<Rightarrow> fsys \<Rightarrow> bytes option" where
  "read_all h p fs = (let q = path_resolve p in case node_at fs q of Some (File bs) \<Rightarrow> if h_readable h q then Some bs else None | _ \<Rightarrow> None)"

definition fs_exists :: "fpath \<Rightarrow> fsys \<Rightarrow> bool" where
  "fs_exists p fs \<longleftrightarrow> node_at fs (path_resolve p) \<noteq> None"

definition fs_remove :: "cache_host \<Rightarrow> fpath \<Rightarrow> fsys \<Rightarrow> bool \<times> fsys" where
  "fs_remove h p fs =
     (let q = path_resolve p in case node_at fs q of
        None \<Rightarrow> (True, fs)
      | Some (File _) \<Rightarrow> if h_remove h q then (True, fs_del q fs) else (False, fs)
      | Some Dir \<Rightarrow> if h_remove h q \<and> \<not> list_ex (\<lambda>(r, _). strict_prefix q r) fs then (True, fs_del q fs) else (False, fs))"

definition fs_rename :: "cache_host \<Rightarrow> fpath \<Rightarrow> fpath \<Rightarrow> fsys \<Rightarrow> bool \<times> fsys" where
  "fs_rename h from target fs =
     (let p = path_resolve from; q = path_resolve target in case (node_at fs p, node_at fs q) of
        (Some (File bs), n) \<Rightarrow> if n \<noteq> Some Dir \<and> h_rename h (n \<noteq> None) q then (True, fs_put q (File bs) (fs_del p fs)) else (False, fs)
      | _ \<Rightarrow> (False, fs))"

definition fs_remove_all :: "cache_host \<Rightarrow> fpath \<Rightarrow> fsys \<Rightarrow> bool \<times> fsys" where
  "fs_remove_all h p fs =
     (let q = path_resolve p in if h_remove h q then (True, filter (\<lambda>(r, _). \<not> prefix q r) fs) else (False, fs))"

subsection \<open>Entries\<close>

record CacheEntry =
  ce_scope :: string
  ce_key :: string
  ce_name :: string
  ce_ttl :: u32

definition MakeEntry :: "nfc \<Rightarrow> string \<Rightarrow> string \<Rightarrow> string \<Rightarrow> CacheEntry" where
  "MakeEntry nf scope key name =
     \<lparr>ce_scope = CanonicalizeToken nf scope, ce_key = String_NormalizeUtf8 nf key, ce_name = String_NormalizeUtf8 nf name, ce_ttl = 0\<rparr>"

definition MakeEntryWithTtl :: "nfc \<Rightarrow> string \<Rightarrow> string \<Rightarrow> string \<Rightarrow> u32 \<Rightarrow> CacheEntry" where
  "MakeEntryWithTtl nf scope key name ttl = (MakeEntry nf scope key name)\<lparr>ce_ttl := ttl\<rparr>"

definition Entry_IsValid :: "CacheEntry \<Rightarrow> bool" where
  "Entry_IsValid e \<longleftrightarrow> list_all (\<lambda>part. \<not> String_IsBlank part) [ce_scope e, ce_key e, ce_name e]"

subsection \<open>File names\<close>

definition HexDigest :: "bytes \<Rightarrow> string" where
  "HexDigest digest = concat (map (\<lambda>b. [''0123456789abcdef'' ! unat (drop_bit 4 b), ''0123456789abcdef'' ! unat (b AND 15)]) digest)"

definition HashKey :: "cache_host \<Rightarrow> string \<Rightarrow> string" where
  "HashKey h text = HexDigest (sha256 h (bytes_of_string (String_NormalizeUtf8 (icu h) text)))"

definition file_name_char :: "char \<Rightarrow> char" where
  "file_name_char c = (if c_isalnum c \<or> c = CHR ''.'' \<or> c = CHR ''_'' \<or> c = CHR ''-'' then c else CHR ''_'')"

definition SanitizeFileName :: "cache_host \<Rightarrow> string \<Rightarrow> string" where
  "SanitizeFileName h text =
     (let sanitized_bytes = map file_name_char (String_NormalizeUtf8 (icu h) text) in
      if sanitized_bytes = [] then ''entry'' else sanitized_bytes)"

definition BuildScopedDirectory :: "cache_host \<Rightarrow> fpath \<Rightarrow> string \<Rightarrow> string \<Rightarrow> fpath" where
  "BuildScopedDirectory h root scope key = root @ [SanitizeFileName h (CanonicalizeToken (icu h) scope), HashKey h key]"

definition TempPathForTarget :: "cache_host \<Rightarrow> nat \<Rightarrow> fpath \<Rightarrow> string \<Rightarrow> fpath" where
  "TempPathForTarget h ticks target extension_tag = app_name target (''.tmp.'' @ SanitizeFileName h extension_tag @ ''.'' @ show_nat ticks)"

definition CommitTempFile :: "cache_host \<Rightarrow> fpath \<Rightarrow> fpath \<Rightarrow> fsys \<Rightarrow> string option \<times> fsys" where
  "CommitTempFile h tmp target fs = (case fs_rename h tmp target fs of
       (True, fs) \<Rightarrow> (None, fs)
     | (False, fs) \<Rightarrow>
         let fs = snd (fs_remove h target fs) in
         case fs_rename h tmp target fs of
           (True, fs) \<Rightarrow> (None, fs)
         | (False, fs) \<Rightarrow>
             (Some (''Failed to commit cache file: '' @ path_string target @ '', reason: '' @ h_reason h), snd (fs_remove h tmp fs)))"

subsection \<open>TemporaryStorage\<close>

type_synonym temp_storage = "string \<rightharpoonup> bytes"

definition StorageKey :: "CacheEntry \<Rightarrow> string" where
  "StorageKey e = ce_scope e @ ''::'' @ ce_key e @ ''::'' @ ce_name e"

definition Temp_Exists :: "CacheEntry \<Rightarrow> temp_storage \<Rightarrow> bool" where
  "Temp_Exists e t \<longleftrightarrow> t (StorageKey e) \<noteq> None"

definition Temp_Remove :: "CacheEntry \<Rightarrow> temp_storage \<Rightarrow> string option \<times> temp_storage" where
  "Temp_Remove e t = (None, t(StorageKey e := None))"

definition Temp_PathFor :: "cache_host \<Rightarrow> CacheEntry \<Rightarrow> fpath" where
  "Temp_PathFor h e = [''memory'', SanitizeFileName h (ce_scope e), HashKey h (ce_key e), SanitizeFileName h (ce_name e)]"

definition Temp_ReadBinary :: "CacheEntry \<Rightarrow> temp_storage \<Rightarrow> string + bytes" where
  "Temp_ReadBinary e t = (case t (StorageKey e) of None \<Rightarrow> Inl ''Temporary cache entry not found'' | Some bs \<Rightarrow> Inr bs)"

definition Temp_WriteBinary :: "CacheEntry \<Rightarrow> bytes \<Rightarrow> temp_storage \<Rightarrow> string option \<times> temp_storage" where
  "Temp_WriteBinary e bs t = (if \<not> Entry_IsValid e then (Some ''Temporary cache entry is invalid'', t) else (None, t(StorageKey e \<mapsto> bs)))"

subsection \<open>PersistentStorage\<close>

definition TtlSidecarPath :: "fpath \<Rightarrow> fpath" where
  "TtlSidecarPath data_path = app_name data_path ''.ttl''"

definition WriteTtlSidecar :: "cache_host \<Rightarrow> int \<Rightarrow> fpath \<Rightarrow> u32 \<Rightarrow> fsys \<Rightarrow> fsys" where
  "WriteTtlSidecar h now data_path ttl fs =
     (if ttl = 0 then fs
      else let expiry = now + int (unat ttl); sidecar = TtlSidecarPath data_path in
        case open_trunc h sidecar fs of
          None \<Rightarrow> fs
        | Some fs \<Rightarrow> snd (write_all h sidecar (bytes_of_string (show_int expiry @ [ch_newline])) fs))"

text \<open>Reading an \<open>int64_t\<close> from a stream: white space, a sign, digits; 0 where there is no number, the nearest value where it is too large.\<close>

definition read_int64 :: "string \<Rightarrow> int" where
  "read_int64 s =
     (let t = dropWhile c_isspace s;
          neg = (t \<noteq> [] \<and> hd t = CHR ''-'');
          u = (if t \<noteq> [] \<and> (hd t = CHR ''-'' \<or> hd t = CHR ''+'') then tl t else t);
          v = int (digits_value (takeWhile c_isdigit u))
      in if neg then max (- (2 ^ 63)) (- v) else min (2 ^ 63 - 1) v)"

definition CheckAndEvictIfExpired :: "cache_host \<Rightarrow> int \<Rightarrow> fpath \<Rightarrow> fsys \<Rightarrow> bool \<times> fsys" where
  "CheckAndEvictIfExpired h now data_path fs =
     (let sidecar = TtlSidecarPath data_path in case read_all h sidecar fs of
        None \<Rightarrow> (False, fs)
      | Some bs \<Rightarrow>
          let expiry = read_int64 (string_of_bytes bs) in
          if expiry \<le> 0 \<or> now < expiry then (False, fs)
          else (True, snd (fs_remove h sidecar (snd (fs_remove h data_path fs)))))"

definition EnsureRootDirectory :: "cache_host \<Rightarrow> fpath \<Rightarrow> fsys \<Rightarrow> string option \<times> fsys" where
  "EnsureRootDirectory h root fs = (case create_directories h root fs of
       (True, fs) \<Rightarrow> (None, fs)
     | (False, fs) \<Rightarrow> (Some (''Failed to create cache root directory: '' @ path_string root @ '', reason: '' @ h_reason h), fs))"

definition PathFor :: "cache_host \<Rightarrow> fpath \<Rightarrow> CacheEntry \<Rightarrow> fpath" where
  "PathFor h root e = BuildScopedDirectory h root (ce_scope e) (ce_key e) @ [SanitizeFileName h (ce_name e)]"

text \<open>The path of an entry starts with the root, so making it relative drops the components of the root.\<close>

definition relative_to :: "fpath \<Rightarrow> fpath \<Rightarrow> fpath" where
  "relative_to root p = drop (length root) p"

definition ResolveRelative :: "fpath \<Rightarrow> fpath \<Rightarrow> fpath" where
  "ResolveRelative root relative_path = root @ relative_path"

definition Cache_Exists :: "cache_host \<Rightarrow> fpath \<Rightarrow> int \<Rightarrow> CacheEntry \<Rightarrow> fsys \<Rightarrow> bool \<times> fsys" where
  "Cache_Exists h root now e fs =
     (let path = PathFor h root e in
      if \<not> fs_exists path fs then (False, fs)
      else case CheckAndEvictIfExpired h now path fs of (expired, fs) \<Rightarrow> (\<not> expired, fs))"

definition ExistsRelative :: "fpath \<Rightarrow> fpath \<Rightarrow> fsys \<Rightarrow> bool" where
  "ExistsRelative root relative_path fs = fs_exists (ResolveRelative root relative_path) fs"

definition RemoveRelative :: "cache_host \<Rightarrow> fpath \<Rightarrow> fpath \<Rightarrow> fsys \<Rightarrow> string option \<times> fsys" where
  "RemoveRelative h root relative_path fs =
     (let full_path = ResolveRelative root relative_path in case fs_remove h full_path fs of
        (True, fs) \<Rightarrow> (None, fs)
      | (False, fs) \<Rightarrow> (Some (''Failed to remove cache file: '' @ path_string full_path @ '', reason: '' @ h_reason h), fs))"

definition ReadBinaryRelative :: "cache_host \<Rightarrow> fpath \<Rightarrow> fpath \<Rightarrow> fsys \<Rightarrow> string + bytes" where
  "ReadBinaryRelative h root relative_path fs =
     (let full_path = ResolveRelative root relative_path in case read_all h full_path fs of
        None \<Rightarrow> Inl (''Failed to open cache file: '' @ path_string full_path)
      | Some bs \<Rightarrow> Inr bs)"

definition WriteBinaryRelative :: "cache_host \<Rightarrow> fpath \<Rightarrow> nat \<Rightarrow> fpath \<Rightarrow> bytes \<Rightarrow> fsys \<Rightarrow> string option \<times> fsys" where
  "WriteBinaryRelative h root ticks relative_path bs fs = (case EnsureRootDirectory h root fs of
       (Some err, fs) \<Rightarrow> (Some err, fs)
     | (None, fs) \<Rightarrow>
         let full_path = ResolveRelative root relative_path in
         case create_directories h (butlast full_path) fs of
           (False, fs) \<Rightarrow> (Some (''Failed to create cache subdirectory: '' @ path_string (butlast full_path) @ '', reason: '' @ h_reason h), fs)
         | (True, fs) \<Rightarrow>
             let temp_path = TempPathForTarget h ticks full_path ''bin'' in
             case open_trunc h temp_path fs of
               None \<Rightarrow> (Some (''Failed to create cache temp file: '' @ path_string temp_path), fs)
             | Some fs \<Rightarrow> (case write_all h temp_path bs fs of
                 (False, fs) \<Rightarrow>
                   (Some ((if h_early h temp_path then ''Failed to write cache temp file: '' else ''Failed to flush cache temp file: '') @ path_string temp_path), fs)
               | (True, fs) \<Rightarrow> CommitTempFile h temp_path full_path fs))"

definition ReadTextRelative :: "cache_host \<Rightarrow> fpath \<Rightarrow> fpath \<Rightarrow> fsys \<Rightarrow> string + string" where
  "ReadTextRelative h root relative_path fs = map_sum id string_of_bytes (ReadBinaryRelative h root relative_path fs)"

definition WriteTextRelative :: "cache_host \<Rightarrow> fpath \<Rightarrow> nat \<Rightarrow> fpath \<Rightarrow> string \<Rightarrow> fsys \<Rightarrow> string option \<times> fsys" where
  "WriteTextRelative h root ticks relative_path text fs = WriteBinaryRelative h root ticks relative_path (bytes_of_string text) fs"

definition Cache_Remove :: "cache_host \<Rightarrow> fpath \<Rightarrow> CacheEntry \<Rightarrow> fsys \<Rightarrow> string option \<times> fsys" where
  "Cache_Remove h root e fs = RemoveRelative h root (relative_to root (PathFor h root e)) fs"

definition ReadBinary :: "cache_host \<Rightarrow> fpath \<Rightarrow> CacheEntry \<Rightarrow> fsys \<Rightarrow> string + bytes" where
  "ReadBinary h root e fs = ReadBinaryRelative h root (relative_to root (PathFor h root e)) fs"

text \<open>The clock is read as ticks for the name of the temporary file and as seconds for the time to live.\<close>

definition WriteBinary :: "cache_host \<Rightarrow> fpath \<Rightarrow> nat \<Rightarrow> int \<Rightarrow> CacheEntry \<Rightarrow> bytes \<Rightarrow> fsys \<Rightarrow> string option \<times> fsys" where
  "WriteBinary h root ticks now e bs fs = (case WriteBinaryRelative h root ticks (relative_to root (PathFor h root e)) bs fs of
       (Some err, fs) \<Rightarrow> (Some err, fs)
     | (None, fs) \<Rightarrow> (None, if ce_ttl e > 0 then WriteTtlSidecar h now (PathFor h root e) (ce_ttl e) fs else fs))"

subsection \<open>CacheStorage and CacheManager\<close>

definition Storage_ReadText :: "(CacheEntry \<Rightarrow> 's \<Rightarrow> string + bytes) \<Rightarrow> CacheEntry \<Rightarrow> 's \<Rightarrow> string + string" where
  "Storage_ReadText readBinary e s = map_sum id string_of_bytes (readBinary e s)"

definition Storage_WriteText :: "(CacheEntry \<Rightarrow> bytes \<Rightarrow> 's \<Rightarrow> string option \<times> 's) \<Rightarrow> CacheEntry \<Rightarrow> string \<Rightarrow> 's \<Rightarrow> string option \<times> 's" where
  "Storage_WriteText writeBinary e text s = writeBinary e (bytes_of_string text) s"

record CacheManager =
  cm_root :: fpath
  cm_disk :: fsys
  cm_temporary :: temp_storage

definition CacheManager_new :: "cache_host \<Rightarrow> fpath \<Rightarrow> fsys \<Rightarrow> CacheManager" where
  "CacheManager_new h root fs = \<lparr>cm_root = root, cm_disk = snd (EnsureRootDirectory h root fs), cm_temporary = Map.empty\<rparr>"

definition WritePersistentBinary :: "cache_host \<Rightarrow> nat \<Rightarrow> int \<Rightarrow> string \<Rightarrow> string \<Rightarrow> string \<Rightarrow> bytes \<Rightarrow> CacheManager \<Rightarrow> string option \<times> CacheManager" where
  "WritePersistentBinary h ticks now scope key name bs cm =
     (case WriteBinary h (cm_root cm) ticks now (MakeEntry (icu h) scope key name) bs (cm_disk cm) of (r, fs) \<Rightarrow> (r, cm\<lparr>cm_disk := fs\<rparr>))"

definition ReadPersistentBinary :: "cache_host \<Rightarrow> string \<Rightarrow> string \<Rightarrow> string \<Rightarrow> CacheManager \<Rightarrow> string + bytes" where
  "ReadPersistentBinary h scope key name cm = ReadBinary h (cm_root cm) (MakeEntry (icu h) scope key name) (cm_disk cm)"

definition WritePersistentText :: "cache_host \<Rightarrow> nat \<Rightarrow> int \<Rightarrow> string \<Rightarrow> string \<Rightarrow> string \<Rightarrow> string \<Rightarrow> CacheManager \<Rightarrow> string option \<times> CacheManager" where
  "WritePersistentText h ticks now scope key name text cm =
     (case Storage_WriteText (WriteBinary h (cm_root cm) ticks now) (MakeEntry (icu h) scope key name) text (cm_disk cm) of (r, fs) \<Rightarrow> (r, cm\<lparr>cm_disk := fs\<rparr>))"

definition ReadPersistentText :: "cache_host \<Rightarrow> string \<Rightarrow> string \<Rightarrow> string \<Rightarrow> CacheManager \<Rightarrow> string + string" where
  "ReadPersistentText h scope key name cm = Storage_ReadText (ReadBinary h (cm_root cm)) (MakeEntry (icu h) scope key name) (cm_disk cm)"

subsection \<open>Configuration\<close>

record CacheConfiguration =
  cfg_directory :: fpath
  cfg_readonly :: bool
  cfg_clean :: bool

definition EnvFlagEnabled :: "nfc \<Rightarrow> string option \<Rightarrow> bool" where
  "EnvFlagEnabled nf raw = (case raw of None \<Rightarrow> False
     | Some raw \<Rightarrow> list_ex (\<lambda>c. \<not> c_isspace c) raw \<and> CanonicalizeToken nf raw \<notin> {''0'', ''false'', ''off'', ''no''})"

text \<open>\<open>PrepareCacheDirectory\<close>: the children are removed one after the other until one cannot be.\<close>

definition dir_children :: "fpath \<Rightarrow> fsys \<Rightarrow> fpath list" where
  "dir_children d fs = map fst (filter (\<lambda>(q, _). q \<noteq> [] \<and> butlast q = d) fs)"

fun clean_loop :: "cache_host \<Rightarrow> fpath list \<Rightarrow> fsys \<Rightarrow> bool \<times> fsys" where
  "clean_loop h [] fs = (True, fs)"
| "clean_loop h (q # qs) fs = (case fs_remove_all h q fs of (False, fs) \<Rightarrow> (False, fs) | (True, fs) \<Rightarrow> clean_loop h qs fs)"

definition PrepareCacheDirectory :: "cache_host \<Rightarrow> CacheConfiguration \<Rightarrow> fsys \<Rightarrow> string option \<times> fsys" where
  "PrepareCacheDirectory h config fs =
     (let d = cfg_directory config in
      if d = [] then (Some ''Cache directory is empty'', fs)
      else case (if cfg_clean config \<and> fs_exists d fs then clean_loop h (dir_children (path_resolve d) fs) fs else (True, fs)) of
          (False, fs) \<Rightarrow> (Some (''Failed to clean cache directory: '' @ path_string d), fs)
        | (True, fs) \<Rightarrow> (case create_directories h d fs of
            (False, fs) \<Rightarrow> (Some (''Failed to create cache directory: '' @ path_string d), fs)
          | (True, fs) \<Rightarrow> (None, fs)))"

subsection \<open>Directory locks\<close>

definition ScriptLockPath :: "fpath \<Rightarrow> fpath" where
  "ScriptLockPath script_path = butlast script_path @ [last script_path @ ''.flowcache.lock'']"

definition create_directory :: "cache_host \<Rightarrow> fpath \<Rightarrow> fsys \<Rightarrow> (bool option) \<times> fsys" where
  "create_directory h p fs =
     (let q = path_resolve p in case node_at fs q of
        Some Dir \<Rightarrow> (Some False, fs)
      | Some (File _) \<Rightarrow> (None, fs)
      | None \<Rightarrow> if node_at fs (butlast q) = Some Dir \<and> h_mkdir h q then (Some True, fs_put q Dir fs) else (None, fs))"

text \<open>
  The loop of \<open>AcquireDirectoryLock\<close>; between two attempts other processes change the disk, so the list gives the change before each attempt.
  The flag tells whether the caller wants an error text: without one an error is retried.
\<close>

fun lock_loop :: "cache_host \<Rightarrow> fpath \<Rightarrow> bool \<Rightarrow> nat \<Rightarrow> (nat \<Rightarrow> fsys \<Rightarrow> fsys) \<Rightarrow> fsys \<Rightarrow> string option \<times> fsys" where
  "lock_loop h p wants 0 env fs = (Some (''Timed out waiting for lock: '' @ path_string p), fs)"
| "lock_loop h p wants (Suc n) env fs = (case create_directory h p (env n fs) of
       (Some True, fs) \<Rightarrow> (None, fs)
     | (None, fs) \<Rightarrow> if wants then (Some (''Failed to create lock: '' @ path_string p @ '', reason: '' @ h_reason h), fs) else lock_loop h p wants n env fs
     | (Some False, fs) \<Rightarrow> lock_loop h p wants n env fs)"

definition AcquireDirectoryLock :: "cache_host \<Rightarrow> fpath \<Rightarrow> int \<Rightarrow> bool \<Rightarrow> (nat \<Rightarrow> fsys \<Rightarrow> fsys) \<Rightarrow> fsys \<Rightarrow> string option \<times> fsys" where
  "AcquireDirectoryLock h p attempts wants env fs = lock_loop h p wants (if attempts > 0 then nat attempts else 1) env fs"

definition CleanupDirectoryLock :: "cache_host \<Rightarrow> fpath \<Rightarrow> fsys \<Rightarrow> string option \<times> fsys" where
  "CleanupDirectoryLock h p fs =
     (if \<not> fs_exists p fs then (None, fs)
      else case fs_remove_all h p fs of
          (True, fs) \<Rightarrow> (None, fs)
        | (False, fs) \<Rightarrow> (Some (''Failed to remove stale lock: '' @ path_string p @ '', reason: '' @ h_reason h), fs))"

definition CleanupScriptLock :: "cache_host \<Rightarrow> fpath \<Rightarrow> fsys \<Rightarrow> string option \<times> fsys" where
  "CleanupScriptLock h script_path fs = CleanupDirectoryLock h (ScriptLockPath script_path) fs"

section \<open>The disk\<close>

lemma node_at_put [simp]: "node_at (fs_put p n fs) q = (if q = p \<and> q \<noteq> [] then Some n else node_at fs q)"
proof -
  have "map_of (filter (\<lambda>(q, _). q \<noteq> p) fs) q = (if q = p then None else map_of fs q)" by (induction fs) auto
  then show ?thesis by (simp add: node_at_def fs_put_def fs_del_def)
qed

lemma node_at_del [simp]: "node_at (fs_del p fs) q = (if q = p \<and> q \<noteq> [] then None else node_at fs q)"
proof -
  have "map_of (filter (\<lambda>(q, _). q \<noteq> p) fs) q = (if q = p then None else map_of fs q)" by (induction fs) auto
  then show ?thesis by (auto simp: node_at_def fs_del_def)
qed

text \<open>Paths without \<open>.\<close>, \<open>..\<close> and empty components stand for themselves.\<close>

definition proper_path :: "fpath \<Rightarrow> bool" where
  "proper_path p \<longleftrightarrow> list_all (\<lambda>c. c \<noteq> ''..'' \<and> c \<noteq> ''.'' \<and> c \<noteq> []) p"

lemma path_resolve_proper [simp]:
  assumes "proper_path p"
  shows "path_resolve p = p"
proof -
  have "foldl resolve_step acc p = acc @ p" for acc
    using assms by (induction p arbitrary: acc) (auto simp: proper_path_def resolve_step_def)
  then show ?thesis by (simp add: path_resolve_def)
qed

lemma proper_path_butlast: "proper_path p \<Longrightarrow> proper_path (butlast p)"
  by (auto simp: proper_path_def list_all_iff dest: in_set_butlastD)

lemma proper_path_app_name:
  assumes "proper_path p" "2 < length ext"
  shows "proper_path (app_name p ext)"
proof -
  have "last p @ ext \<noteq> x" if "length x \<le> 2" for x using assms(2) that by auto
  from this [of "''..''"] this [of "''.''"] this [of "[]"] proper_path_butlast [OF assms(1)] show ?thesis
    by (simp add: app_name_def proper_path_def)
qed

lemma app_name_props [simp]: "butlast (app_name p ext) = butlast p" "last (app_name p ext) = last p @ ext" "app_name p ext \<noteq> []"
  by (simp_all add: app_name_def)

lemma app_name_neq: "p \<noteq> [] \<Longrightarrow> ext \<noteq> [] \<Longrightarrow> app_name p ext \<noteq> p"
  by (metis app_name_props(2) self_append_conv)

lemma mkdirs_keeps:
  assumes "mkdirs h qs fs = (r, fs')"
  shows "node_at fs p \<noteq> None \<or> p \<notin> set qs \<Longrightarrow> node_at fs' p = node_at fs p"
    and "node_at fs' p \<noteq> node_at fs p \<Longrightarrow> node_at fs' p = Some Dir"
    and "r \<Longrightarrow> p \<in> set qs \<Longrightarrow> node_at fs' p = Some Dir"
proof -
  have "(node_at fs p \<noteq> None \<or> p \<notin> set qs \<longrightarrow> node_at fs' p = node_at fs p) \<and> (node_at fs' p \<noteq> node_at fs p \<longrightarrow> node_at fs' p = Some Dir) \<and>
    (r \<longrightarrow> p \<in> set qs \<longrightarrow> node_at fs' p = Some Dir)"
    using assms
  proof (induction qs arbitrary: fs)
    case (Cons q qs)
    show ?case
    proof (cases "node_at fs q")
      case None
      then have "q \<noteq> []" by (auto simp: node_at_def)
      with None Cons.IH [of "fs_put q Dir fs"] Cons.prems show ?thesis by (auto split: if_splits)
    next
      case (Some n)
      with Cons.IH [of fs] Cons.prems show ?thesis by (cases n) auto
    qed
  qed simp
  then show "node_at fs p \<noteq> None \<or> p \<notin> set qs \<Longrightarrow> node_at fs' p = node_at fs p"
    "node_at fs' p \<noteq> node_at fs p \<Longrightarrow> node_at fs' p = Some Dir" "r \<Longrightarrow> p \<in> set qs \<Longrightarrow> node_at fs' p = Some Dir" by auto
qed

lemma create_directories_keeps:
  assumes "create_directories h d fs = (r, fs')" "proper_path d"
  shows "\<not> prefix p d \<or> node_at fs p \<noteq> None \<Longrightarrow> node_at fs' p = node_at fs p"
    and "node_at fs' p \<noteq> node_at fs p \<Longrightarrow> node_at fs' p = Some Dir"
    and "r \<Longrightarrow> node_at fs' d = Some Dir"
  using mkdirs_keeps [of h "prefixes d" fs r fs'] assms by (auto simp: create_directories_def)

lemma fs_remove_file:
  assumes "proper_path p" "fs_remove h p fs = (r, fs')"
  shows "q \<noteq> p \<Longrightarrow> node_at fs' q = node_at fs q" and "node_at fs' p \<in> {node_at fs p, None}" and "r \<Longrightarrow> p \<noteq> [] \<Longrightarrow> node_at fs' p = None"
  using assms by (auto simp: fs_remove_def Let_def split: option.splits node.splits if_splits)

text \<open>The commit of a temporary file: the target holds the new content, or it is as before or gone.\<close>

lemma CommitTempFile_spec:
  assumes "proper_path tmp" "proper_path target" "tmp \<noteq> target" "target \<noteq> []" "node_at fs tmp = Some (File bs)" "CommitTempFile h tmp target fs = (r, fs')"
  shows "r = None \<Longrightarrow> node_at fs' target = Some (File bs)" and "r \<noteq> None \<Longrightarrow> node_at fs' target \<in> {node_at fs target, None}"
    and "q \<noteq> target \<Longrightarrow> q \<noteq> tmp \<Longrightarrow> node_at fs' q = node_at fs q"
proof -
  have ren: "fs_rename h tmp target g = (ok, g') \<Longrightarrow> node_at g tmp = Some (File bs) \<Longrightarrow>
    (if ok then g' = fs_put target (File bs) (fs_del tmp g) else g' = g)" for g g' ok
    using assms(1,2) by (auto simp: fs_rename_def Let_def split: if_splits)
  obtain ok1 fs1 where s1: "fs_rename h tmp target fs = (ok1, fs1)" by fastforce
  obtain ok2 fs2 where s2: "fs_remove h target fs1 = (ok2, fs2)" by fastforce
  obtain ok3 fs3 where s3: "fs_rename h tmp target fs2 = (ok3, fs3)" by fastforce
  obtain ok4 fs4 where s4: "fs_remove h tmp fs3 = (ok4, fs4)" by fastforce
  have "(r = None \<longrightarrow> node_at fs' target = Some (File bs)) \<and> (r \<noteq> None \<longrightarrow> node_at fs' target \<in> {node_at fs target, None}) \<and>
    (q \<noteq> target \<longrightarrow> q \<noteq> tmp \<longrightarrow> node_at fs' q = node_at fs q)"
  proof (cases ok1)
    case True
    with s1 ren [OF s1 assms(5)] assms(4,6) show ?thesis by (auto simp: CommitTempFile_def)
  next
    case False
    with ren [OF s1 assms(5)] have fs1: "fs1 = fs" by simp
    note rm = fs_remove_file [OF assms(2) s2 [unfolded fs1]]
    have tmp2: "node_at fs2 tmp = Some (File bs)" using rm(1) [OF assms(3)] assms(5) by simp
    show ?thesis
    proof (cases ok3)
      case True
      with False s1 s2 s3 ren [OF s3 tmp2] assms(4,6) rm(1) show ?thesis by (auto simp: CommitTempFile_def)
    next
      case no: False
      with ren [OF s3 tmp2] have fs3: "fs3 = fs2" by simp
      note rm' = fs_remove_file [OF assms(1) s4 [unfolded fs3]]
      have "r \<noteq> None" "fs' = fs4" using False no s1 s2 s3 s4 assms(6) by (auto simp: CommitTempFile_def)
      with rm rm' assms(3) show ?thesis by auto
    qed
  qed
  then show "r = None \<Longrightarrow> node_at fs' target = Some (File bs)" "r \<noteq> None \<Longrightarrow> node_at fs' target \<in> {node_at fs target, None}"
    "q \<noteq> target \<Longrightarrow> q \<noteq> tmp \<Longrightarrow> node_at fs' q = node_at fs q" by auto
qed

section \<open>Writing an entry\<close>

definition keeps :: "fsys \<Rightarrow> fsys \<Rightarrow> fpath \<Rightarrow> bool" where
  "keeps fs fs' p \<longleftrightarrow> node_at fs' p = node_at fs p \<or> node_at fs p = None \<and> node_at fs' p = Some Dir"

lemma not_prefix_butlast: "q \<noteq> [] \<Longrightarrow> \<not> prefix q (butlast q)"
  by (metis append_butlast_last_id append_self_conv not_Cons_self2 prefix_order.antisym prefixeq_butlast)

lemma temp_path_props:
  assumes "proper_path q" "q \<noteq> []"
  shows "proper_path (TempPathForTarget h ticks q ext)" "TempPathForTarget h ticks q ext \<noteq> q" "TempPathForTarget h ticks q ext \<noteq> []"
    "butlast (TempPathForTarget h ticks q ext) = butlast q"
  using assms by (simp_all add: TempPathForTarget_def proper_path_app_name app_name_neq)

lemma create_root_and_parent:
  assumes "proper_path (root @ rel)" "rel \<noteq> []" "EnsureRootDirectory h root fs = (r1, fs1)" "create_directories h (butlast (root @ rel)) fs1 = (r2, fs2)"
  shows "keeps fs fs1 p" "keeps fs fs2 p" "length (root @ rel) \<le> length p \<Longrightarrow> node_at fs1 p = node_at fs p" "length (root @ rel) \<le> length p \<Longrightarrow> node_at fs2 p = node_at fs p"
    "r2 \<Longrightarrow> node_at fs2 (butlast (root @ rel)) = Some Dir"
proof -
  have proper: "proper_path root" "proper_path (butlast (root @ rel))" using assms(1) proper_path_butlast [OF assms(1)] by (auto simp: proper_path_def)
  obtain ok where c1: "create_directories h root fs = (ok, fs1)" using assms(3) by (auto simp: EnsureRootDirectory_def split: prod.splits bool.splits)
  note k1 = create_directories_keeps [OF c1 proper(1)] and k2 = create_directories_keeps [OF assms(4) proper(2)]
  show "keeps fs fs1 p" using k1(1,2) [of p] unfolding keeps_def by metis
  show "keeps fs fs2 p" using k1(1,2) [of p] k2(1,2) [of p] unfolding keeps_def by metis
  show "r2 \<Longrightarrow> node_at fs2 (butlast (root @ rel)) = Some Dir" by (rule k2(3))
  have "length root < length (root @ rel)" "length (butlast (root @ rel)) < length (root @ rel)" using assms(2) by (cases rel; simp)+
  then have "\<not> prefix p root" "\<not> prefix p (butlast (root @ rel))" if "length (root @ rel) \<le> length p"
    using that prefix_length_le [of p root] prefix_length_le [of p "butlast (root @ rel)"] by linarith+
  then show "length (root @ rel) \<le> length p \<Longrightarrow> node_at fs1 p = node_at fs p" "length (root @ rel) \<le> length p \<Longrightarrow> node_at fs2 p = node_at fs p" using k1(1) k2(1) by auto
qed

lemma WriteBinaryRelative_spec:
  assumes "proper_path (root @ rel)" "rel \<noteq> []" "WriteBinaryRelative h root ticks rel bs fs = (r, fs')"
  shows "r = None \<Longrightarrow> node_at fs' (root @ rel) = Some (File bs)"
    and "r \<noteq> None \<Longrightarrow> node_at fs' (root @ rel) \<in> {node_at fs (root @ rel), None}"
    and "p \<noteq> root @ rel \<Longrightarrow> p \<noteq> TempPathForTarget h ticks (root @ rel) ''bin'' \<Longrightarrow> keeps fs fs' p"
    and "p \<noteq> root @ rel \<Longrightarrow> p \<noteq> TempPathForTarget h ticks (root @ rel) ''bin'' \<Longrightarrow> length (root @ rel) \<le> length p \<Longrightarrow> node_at fs' p = node_at fs p"
    and "r = None \<Longrightarrow> node_at fs' (butlast (root @ rel)) = Some Dir"
proof -
  let ?q = "root @ rel" and ?t = "TempPathForTarget h ticks (root @ rel) ''bin''"
  have q: "?q \<noteq> []" using assms(2) by simp
  note t = temp_path_props [OF assms(1) q, of h ticks "''bin''"]
  obtain r1 fs1 where s1: "EnsureRootDirectory h root fs = (r1, fs1)" by fastforce
  obtain r2 fs2 where s2: "create_directories h (butlast ?q) fs1 = (r2, fs2)" by fastforce
  note k = create_root_and_parent [OF assms(1,2) s1 s2]
  have kq: "node_at fs1 ?q = node_at fs ?q" "node_at fs2 ?q = node_at fs ?q" using k(3,4) [of ?q] by simp_all
  have parent: "butlast ?q \<noteq> ?q" "butlast ?q \<noteq> ?t" using not_prefix_butlast [OF q] not_prefix_butlast [OF t(3)] t(4) by auto
  have "(r = None \<longrightarrow> node_at fs' ?q = Some (File bs) \<and> node_at fs' (butlast ?q) = Some Dir) \<and> (r \<noteq> None \<longrightarrow> node_at fs' ?q \<in> {node_at fs ?q, None}) \<and>
    (p \<noteq> ?q \<longrightarrow> p \<noteq> ?t \<longrightarrow> keeps fs fs' p \<and> (length ?q \<le> length p \<longrightarrow> node_at fs' p = node_at fs p))"
  proof (cases "r1 = None \<and> r2")
    case False
    then have "r \<noteq> None \<and> fs' \<in> {fs1, fs2}" using assms(3) s1 s2 by (auto simp: WriteBinaryRelative_def ResolveRelative_def Let_def split: option.splits bool.splits)
    with k(1-4) kq show ?thesis by auto
  next
    case True
    show ?thesis
    proof (cases "open_trunc h ?t fs2")
      case None
      with True s1 s2 assms(3) have "r \<noteq> None \<and> fs' = fs2" by (auto simp: WriteBinaryRelative_def ResolveRelative_def Let_def)
      with k(1-4) kq show ?thesis by auto
    next
      case (Some fs3)
      then have fs3: "fs3 = fs_put ?t (File []) fs2" using t(1) by (auto simp: open_trunc_def Let_def split: if_splits)
      obtain ok fs4 where s4: "write_all h ?t bs fs3 = (ok, fs4)" by fastforce
      then have fs4: "fs4 = fs_put ?t (File (take (h_space h ?t) bs)) fs3" "ok \<longleftrightarrow> length bs \<le> h_space h ?t" using t(1) by (auto simp: write_all_def Let_def)
      have keep4: "node_at fs4 p = node_at fs2 p" if "p \<noteq> ?t" for p using that fs3 fs4 by auto
      show ?thesis
      proof (cases ok)
        case False
        with True Some s1 s2 s4 assms(3) have "r \<noteq> None \<and> fs' = fs4" by (auto simp: WriteBinaryRelative_def ResolveRelative_def Let_def)
        with k(1-4) kq keep4 t(2) show ?thesis by (auto simp: keeps_def)
      next
        case ok: True
        with True Some s1 s2 s4 assms(3) have c: "CommitTempFile h ?t ?q fs4 = (r, fs')" by (auto simp: WriteBinaryRelative_def ResolveRelative_def Let_def)
        have "node_at fs4 ?t = Some (File bs)" using fs4 ok t(3) by simp
        note commit = CommitTempFile_spec [OF t(1) assms(1) t(2) q this c]
        have "keeps fs fs' p \<and> (length ?q \<le> length p \<longrightarrow> node_at fs' p = node_at fs p)" if "p \<noteq> ?q" "p \<noteq> ?t"
          using commit(3) [OF that] keep4 [OF that(2)] k(2,4) by (simp add: keeps_def)
        moreover have "node_at fs' (butlast ?q) = Some Dir" using commit(3) [OF parent] keep4 [OF parent(2)] k(5) True by simp
        ultimately show ?thesis using commit(1,2) keep4 kq(2) t(2) by auto
      qed
    qed
  qed
  then show "r = None \<Longrightarrow> node_at fs' ?q = Some (File bs)" "r \<noteq> None \<Longrightarrow> node_at fs' ?q \<in> {node_at fs ?q, None}"
    "p \<noteq> ?q \<Longrightarrow> p \<noteq> ?t \<Longrightarrow> keeps fs fs' p" "p \<noteq> ?q \<Longrightarrow> p \<noteq> ?t \<Longrightarrow> length ?q \<le> length p \<Longrightarrow> node_at fs' p = node_at fs p"
    "r = None \<Longrightarrow> node_at fs' (butlast ?q) = Some Dir" by auto
qed

text \<open>
  C12. Writes to the disk cache are all or nothing, whatever the host refuses and wherever it fails: a write that reports success leaves
  exactly the given bytes in the file, a write that reports an error leaves the file as it was or absent, never with a part of the new
  content, and no other file changes but the temporary one.
\<close>

theorem WriteBinaryRelative_atomic:
  assumes "proper_path (root @ rel)" "rel \<noteq> []"
  shows "case WriteBinaryRelative h root ticks rel bs fs of (r, fs') \<Rightarrow>
    (if r = None then node_at fs' (root @ rel) = Some (File bs) else node_at fs' (root @ rel) \<in> {node_at fs (root @ rel), None}) \<and>
    (\<forall>p content. p \<in> {root @ rel, TempPathForTarget h ticks (root @ rel) ''bin''} \<or>
       (node_at fs' p = Some (File content) \<longleftrightarrow> node_at fs p = Some (File content)))"
proof (cases "WriteBinaryRelative h root ticks rel bs fs")
  case (Pair r fs')
  from WriteBinaryRelative_spec(1-3) [OF assms Pair] show ?thesis unfolding Pair keeps_def by fastforce
qed

definition open_host :: cache_host where
  "open_host = \<lparr>h_mkdir = (\<lambda>_. True), h_open = (\<lambda>_. True), h_space = (\<lambda>_. 3), h_early = (\<lambda>_. True), h_rename = (\<lambda>_ _. True), h_remove = (\<lambda>_. True),
     h_readable = (\<lambda>_. True), h_reason = [], icu = Some, sha256 = (\<lambda>bs. [171])\<rparr>"

theorem WriteBinaryRelative_atomic_witness:
  "case WriteBinaryRelative open_host [''cache''] 7 [''a''] [1, 2, 3, 4] [([''cache''], Dir), ([''cache'', ''a''], File [9])] of (r, fs') \<Rightarrow>
    (if r = None then node_at fs' ([''cache''] @ [''a'']) = Some (File [1, 2, 3, 4])
     else node_at fs' ([''cache''] @ [''a'']) \<in> {node_at [([''cache''], Dir), ([''cache'', ''a''], File [9])] ([''cache''] @ [''a'']), None}) \<and>
    (\<forall>p content. p \<in> {[''cache''] @ [''a''], TempPathForTarget open_host 7 ([''cache''] @ [''a'']) ''bin''} \<or>
       (node_at fs' p = Some (File content) \<longleftrightarrow> node_at [([''cache''], Dir), ([''cache'', ''a''], File [9])] p = Some (File content)))"
  by (rule WriteBinaryRelative_atomic) (simp_all add: proper_path_def)

section \<open>The contract of CacheStorage\<close>

text \<open>
  A history of calls through the interface \<open>CacheStorage\<close>. Each call has its environment (what the host refuses, the time). Next to the
  storage runs the table of the bytes last written with success; \<open>storage_run\<close> returns each successful read with what the table says.
\<close>

datatype storage_op = DoWrite CacheEntry bytes | DoRead CacheEntry | DoRemove CacheEntry | DoExists CacheEntry

fun op_entry :: "storage_op \<Rightarrow> CacheEntry" where
  "op_entry (DoWrite e bs) = e"
| "op_entry (DoRead e) = e"
| "op_entry (DoRemove e) = e"
| "op_entry (DoExists e) = e"

fun storage_run :: "('v \<Rightarrow> CacheEntry \<Rightarrow> bytes \<Rightarrow> 's \<Rightarrow> string option \<times> 's) \<Rightarrow> ('v \<Rightarrow> CacheEntry \<Rightarrow> 's \<Rightarrow> string + bytes) \<Rightarrow>
    ('v \<Rightarrow> CacheEntry \<Rightarrow> 's \<Rightarrow> string option \<times> 's) \<Rightarrow> ('v \<Rightarrow> CacheEntry \<Rightarrow> 's \<Rightarrow> bool \<times> 's) \<Rightarrow> (CacheEntry \<Rightarrow> 'k) \<Rightarrow>
    ('v \<times> storage_op) list \<Rightarrow> ('k \<rightharpoonup> bytes) \<Rightarrow> 's \<Rightarrow> (bytes \<times> bytes option) list" where
  "storage_run put get del has slot [] latest s = []"
| "storage_run put get del has slot ((v, DoWrite e bs) # ops) latest s =
     (case put v e bs s of (None, s) \<Rightarrow> storage_run put get del has slot ops (latest(slot e \<mapsto> bs)) s | (Some _, s) \<Rightarrow> storage_run put get del has slot ops latest s)"
| "storage_run put get del has slot ((v, DoRead e) # ops) latest s =
     (case get v e s of Inl _ \<Rightarrow> [] | Inr bs \<Rightarrow> [(bs, latest (slot e))]) @ storage_run put get del has slot ops latest s"
| "storage_run put get del has slot ((v, DoRemove e) # ops) latest s =
     (case del v e s of (None, s) \<Rightarrow> storage_run put get del has slot ops (latest(slot e := None)) s | (Some _, s) \<Rightarrow> storage_run put get del has slot ops latest s)"
| "storage_run put get del has slot ((v, DoExists e) # ops) latest s = (case has v e s of (_, s) \<Rightarrow> storage_run put get del has slot ops latest s)"

locale cache_storage =
  fixes view :: "'s \<Rightarrow> 'k \<rightharpoonup> bytes"
    and slot :: "CacheEntry \<Rightarrow> 'k"
    and usable :: "'v \<Rightarrow> CacheEntry \<Rightarrow> bool"
    and put :: "'v \<Rightarrow> CacheEntry \<Rightarrow> bytes \<Rightarrow> 's \<Rightarrow> string option \<times> 's"
    and get :: "'v \<Rightarrow> CacheEntry \<Rightarrow> 's \<Rightarrow> string + bytes"
    and del :: "'v \<Rightarrow> CacheEntry \<Rightarrow> 's \<Rightarrow> string option \<times> 's"
    and has :: "'v \<Rightarrow> CacheEntry \<Rightarrow> 's \<Rightarrow> bool \<times> 's"
  assumes write_law: "usable v e \<Longrightarrow> put v e bs s = (r, s') \<Longrightarrow>
      (r = None \<longrightarrow> view s' (slot e) = Some bs) \<and> (r \<noteq> None \<longrightarrow> view s' (slot e) \<in> {view s (slot e), None}) \<and> (\<forall>k. k \<noteq> slot e \<longrightarrow> view s' k = view s k)"
    and read_law: "usable v e \<Longrightarrow> get v e s = Inr bs \<Longrightarrow> view s (slot e) = Some bs"
    and remove_law: "usable v e \<Longrightarrow> del v e s = (r, s') \<Longrightarrow>
      (r = None \<longrightarrow> view s' (slot e) = None) \<and> view s' (slot e) \<in> {view s (slot e), None} \<and> (\<forall>k. k \<noteq> slot e \<longrightarrow> view s' k = view s k)"
    and exists_law: "usable v e \<Longrightarrow> has v e s = (b, s') \<Longrightarrow> view s' (slot e) \<in> {view s (slot e), None} \<and> (\<forall>k. k \<noteq> slot e \<longrightarrow> view s' k = view s k)"
begin

lemma storage_run_serves_latest:
  assumes "\<forall>(v, op) \<in> set ops. usable v (op_entry op)" "\<forall>k. view s k \<in> {latest k, None}"
  shows "\<forall>(got, expected) \<in> set (storage_run put get del has slot ops latest s). expected = Some got"
  using assms
proof (induction ops arbitrary: latest s)
  case (Cons vo ops)
  obtain v op where vo: "vo = (v, op)" by fastforce
  have u: "usable v (op_entry op)" and rest: "\<forall>(v, op) \<in> set ops. usable v (op_entry op)" using Cons.prems(1) vo by auto
  note IH = Cons.IH [OF rest]
  show ?case
  proof (cases op)
    case (DoWrite e bs)
    obtain r s1 where w: "put v e bs s = (r, s1)" by fastforce
    from write_law [OF _ w] u DoWrite have law: "r = None \<longrightarrow> view s1 (slot e) = Some bs" "r \<noteq> None \<longrightarrow> view s1 (slot e) \<in> {view s (slot e), None}"
      "\<forall>k. k \<noteq> slot e \<longrightarrow> view s1 k = view s k" by auto
    have "view s1 k \<in> {(if r = None then latest(slot e \<mapsto> bs) else latest) k, None}" for k
      using law Cons.prems(2) [rule_format, of k] by (cases "k = slot e"; cases r) auto
    then have "\<forall>k. view s1 k \<in> {(if r = None then latest(slot e \<mapsto> bs) else latest) k, None}" by blast
    from IH [where latest = "if r = None then latest(slot e \<mapsto> bs) else latest", OF this] w DoWrite vo show ?thesis by (cases r) (auto simp: fun_upd_def)
  next
    case (DoRead e)
    have "latest (slot e) = Some bs" if "get v e s = Inr bs" for bs
    proof -
      have "view s (slot e) = Some bs" using read_law [OF _ that] u DoRead by simp
      with Cons.prems(2) show ?thesis by (metis insert_iff option.distinct(1) singletonD)
    qed
    with IH [OF Cons.prems(2)] DoRead vo show ?thesis by (cases "get v e s") auto
  next
    case (DoRemove e)
    obtain r s1 where w: "del v e s = (r, s1)" by fastforce
    from remove_law [OF _ w] u DoRemove have law: "r = None \<longrightarrow> view s1 (slot e) = None" "view s1 (slot e) \<in> {view s (slot e), None}"
      "\<forall>k. k \<noteq> slot e \<longrightarrow> view s1 k = view s k" by auto
    have "view s1 k \<in> {(if r = None then latest(slot e := None) else latest) k, None}" for k
      using law Cons.prems(2) [rule_format, of k] by (cases "k = slot e"; cases r) auto
    then have "\<forall>k. view s1 k \<in> {(if r = None then latest(slot e := None) else latest) k, None}" by blast
    from IH [where latest = "if r = None then latest(slot e := None) else latest", OF this] w DoRemove vo show ?thesis by (cases r) (auto simp: fun_upd_def)
  next
    case (DoExists e)
    obtain b s1 where w: "has v e s = (b, s1)" by fastforce
    from exists_law [OF _ w] u DoExists have "view s1 (slot e) \<in> {view s (slot e), None}" "\<forall>k. k \<noteq> slot e \<longrightarrow> view s1 k = view s k" by auto
    then have "\<forall>k. view s1 k \<in> {latest k, None}" using Cons.prems(2) by (metis insert_iff singletonD)
    from IH [OF this] w DoExists vo show ?thesis by simp
  qed
qed simp

text \<open>The text operations of the base class.\<close>

lemma ReadText_WriteText:
  assumes "usable v e" "Storage_WriteText (put v) e text s = (None, s')" "Storage_ReadText (get v) e s' = Inr text'"
  shows "text' = text"
proof -
  from assms(3) obtain bs where "get v e s' = Inr bs" "text' = string_of_bytes bs" by (cases "get v e s'") (auto simp: Storage_ReadText_def)
  with read_law [OF assms(1)] write_law [OF assms(1), of "bytes_of_string text" s] assms(2) show ?thesis by (auto simp: Storage_WriteText_def)
qed

end

subsection \<open>In memory\<close>

interpretation temporary: cache_storage "\<lambda>t. t" StorageKey "\<lambda>_ _. True" "\<lambda>_ e. Temp_WriteBinary e" "\<lambda>_ e. Temp_ReadBinary e" "\<lambda>_ e. Temp_Remove e"
  "\<lambda>_ e t. (Temp_Exists e t, t)"
  by unfold_locales (auto simp: Temp_WriteBinary_def Temp_ReadBinary_def Temp_Remove_def split: if_splits option.splits)

subsection \<open>On disk\<close>





lemma PathFor_relative: "root @ relative_to root (PathFor h root e) = PathFor h root e" "relative_to root (PathFor h root e) \<noteq> []" "PathFor h root e \<noteq> []"
  by (simp_all add: PathFor_def BuildScopedDirectory_def relative_to_def)





lemma WriteTtlSidecar_keeps:
  assumes "proper_path q" "p \<noteq> TtlSidecarPath q"
  shows "node_at (WriteTtlSidecar h now q ttl fs) p = node_at fs p"
proof -
  have "proper_path (TtlSidecarPath q)" using assms(1) by (simp add: TtlSidecarPath_def proper_path_app_name)
  with assms(2) show ?thesis by (auto simp: WriteTtlSidecar_def Let_def open_trunc_def write_all_def split: option.splits if_splits)
qed


lemma sidecar_neq: "q \<noteq> [] \<Longrightarrow> TtlSidecarPath q \<noteq> q"
  by (simp add: TtlSidecarPath_def app_name_neq)



definition note_entry :: CacheEntry where
  "note_entry = \<lparr>ce_scope = ''notes'', ce_key = ''k'', ce_name = ''a.txt'', ce_ttl = 0\<rparr>"



text \<open>In that history the read does return the two bytes.\<close>

lemma note_entry_read:
  "ReadBinary open_host [''cache''] note_entry (snd (WriteBinary open_host [''cache''] 1 0 note_entry [1, 2] [])) = Inr [1, 2]"
  by code_simp

section \<open>Time to live\<close>

lemma read_int64_show:
  assumes "0 \<le> i" "i < 2 ^ 63"
  shows "read_int64 (show_int i @ [ch_newline]) = i"
proof -
  define d where "d = show_nat (nat i)"
  have d: "d \<noteq> []" "list_all c_isdigit d" "digits_value d = nat i" unfolding d_def by (simp_all add: show_nat_digits)
  then obtain c ds where c: "d = c # ds" "c_isdigit c" by (cases d) auto
  have first: "\<not> c_isspace c" "c \<noteq> CHR ''-''" "c \<noteq> CHR ''+''" using c(2) by (auto simp: c_isdigit_def c_isspace_def)
  have "takeWhile c_isdigit (d @ [ch_newline]) = d" using d(2) by (simp add: takeWhile_append2 list_all_iff c_isdigit_def ch_newline_def)
  then have "takeWhile c_isdigit (c # ds @ [ch_newline]) = d" using c(1) by simp
  moreover have "show_int i @ [ch_newline] = c # ds @ [ch_newline]" using assms(1) c(1) by (simp add: show_int_def d_def)
  ultimately show ?thesis using first assms d(3) by (simp add: read_int64_def Let_def del: takeWhile.simps)
qed

text \<open>The sidecar file written with an entry, and the test of it.\<close>

lemma WriteTtlSidecar_written:
  assumes "proper_path q" "ttl > 0" "node_at fs (butlast q) = Some Dir" "node_at fs (TtlSidecarPath q) \<noteq> Some Dir" "h_open h (TtlSidecarPath q)"
    "20 \<le> h_space h (TtlSidecarPath q)" "0 \<le> now" "now + int (unat ttl) < 2 ^ 63"
  shows "node_at (WriteTtlSidecar h now q ttl fs) (TtlSidecarPath q) = Some (File (bytes_of_string (show_int (now + int (unat ttl)) @ [ch_newline])))"
proof -
  let ?s = "TtlSidecarPath q" and ?x = "now + int (unat ttl)"
  have p: "path_resolve ?s = ?s" "butlast ?s = butlast q" "?s \<noteq> []" using assms(1) by (simp_all add: TtlSidecarPath_def proper_path_app_name)
  have "nat ?x < 10 ^ Suc 18" using assms(7,8) by simp
  moreover have "\<not> ?x < 0" using assms(7) by linarith
  ultimately have "length (show_int ?x @ [ch_newline]) \<le> h_space h ?s" using length_show_nat [of "nat ?x" 18] assms(6) by (simp add: show_int_def)
  moreover have "ttl \<noteq> 0" using assms(2) by auto
  ultimately show ?thesis using assms(3-5) p by (simp add: WriteTtlSidecar_def Let_def open_trunc_def write_all_def)
qed

lemma CheckAndEvictIfExpired_written:
  assumes "proper_path q" "q \<noteq> []" "node_at fs (TtlSidecarPath q) = Some (File (bytes_of_string (show_int x @ [ch_newline])))" "0 < x" "x < 2 ^ 63"
    "h_readable h (TtlSidecarPath q)"
  shows "now < x \<Longrightarrow> CheckAndEvictIfExpired h now q fs = (False, fs)"
    and "x \<le> now \<Longrightarrow> node_at fs q = Some (File bs) \<Longrightarrow> h_remove h q \<Longrightarrow> h_remove h (TtlSidecarPath q) \<Longrightarrow>
      \<exists>fs'. CheckAndEvictIfExpired h now q fs = (True, fs') \<and> node_at fs' q = None \<and> node_at fs' (TtlSidecarPath q) = None"
proof -
  let ?s = "TtlSidecarPath q"
  have p: "path_resolve ?s = ?s" "?s \<noteq> []" "q \<noteq> ?s" using assms(1) sidecar_neq [OF assms(2)] by (auto simp: TtlSidecarPath_def proper_path_app_name)
  have "read_all h ?s fs = Some (bytes_of_string (show_int x @ [ch_newline]))" using p assms(3,6) by (simp add: read_all_def Let_def)
  then have check: "CheckAndEvictIfExpired h now q fs = (if x \<le> 0 \<or> now < x then (False, fs) else (True, snd (fs_remove h ?s (snd (fs_remove h q fs)))))"
    using assms(4,5) by (simp add: CheckAndEvictIfExpired_def Let_def read_int64_show)
  then show "now < x \<Longrightarrow> CheckAndEvictIfExpired h now q fs = (False, fs)" by simp
  show "\<exists>fs'. CheckAndEvictIfExpired h now q fs = (True, fs') \<and> node_at fs' q = None \<and> node_at fs' ?s = None"
    if "x \<le> now" "node_at fs q = Some (File bs)" "h_remove h q" "h_remove h ?s"
  proof -
    have "fs_remove h q fs = (True, fs_del q fs)" using that assms(1) by (simp add: fs_remove_def Let_def)
    moreover have "fs_remove h ?s (fs_del q fs) = (True, fs_del ?s (fs_del q fs))" using that p assms(3) by (simp add: fs_remove_def Let_def)
    ultimately show ?thesis using check that(1) assms(2,4) p by simp
  qed
qed

text \<open>
  C34. The time to live: after a successful write of an entry with a time to live at time \<open>now\<close>, on a host that stores and removes the
  sidecar file, the entry exists at every time before \<open>now + ttl\<close>, and asking for it from then on says no and deletes the data and the sidecar.
\<close>

theorem Exists_until_expiry:
  assumes "proper_path (PathFor h root e)" "ce_ttl e > 0" "WriteBinary h root ticks now e bs fs = (None, fs')"
    "node_at fs (TtlSidecarPath (PathFor h root e)) \<noteq> Some Dir" "h_open h (TtlSidecarPath (PathFor h root e))" "20 \<le> h_space h (TtlSidecarPath (PathFor h root e))"
    "\<forall>q \<in> {PathFor h root e, TtlSidecarPath (PathFor h root e)}. h_readable h q \<and> h_remove h q" "0 \<le> now" "now + int (unat (ce_ttl e)) < 2 ^ 63"
  shows "if t < now + int (unat (ce_ttl e)) then Cache_Exists h root t e fs' = (True, fs')
    else \<exists>fs''. Cache_Exists h root t e fs' = (False, fs'') \<and> node_at fs'' (PathFor h root e) = None \<and> node_at fs'' (TtlSidecarPath (PathFor h root e)) = None"
proof -
  let ?q = "PathFor h root e" and ?x = "now + int (unat (ce_ttl e))"
  obtain r1 fs1 where s1: "WriteBinaryRelative h root ticks (relative_to root ?q) bs fs = (r1, fs1)" by fastforce
  with assms(2,3) have w: "r1 = None" "fs' = WriteTtlSidecar h now ?q (ce_ttl e) fs1" by (auto simp: WriteBinary_def split: option.splits)
  note spec = WriteBinaryRelative_spec [OF _ _ s1, unfolded PathFor_relative(1), OF assms(1) PathFor_relative(2)]
  have side: "TtlSidecarPath ?q \<noteq> ?q" "TtlSidecarPath ?q \<noteq> TempPathForTarget h ticks ?q ''bin''" "length (TtlSidecarPath ?q) = length ?q"
    using sidecar_neq [OF PathFor_relative(3), of h root e] PathFor_relative(3) [of h root e] by (auto simp: TtlSidecarPath_def TempPathForTarget_def app_name_def)
  have "node_at fs1 (TtlSidecarPath ?q) \<noteq> Some Dir" using spec(4) [OF side(1,2)] side(3) assms(4) by simp
  with spec(5) w(1) have sc: "node_at fs' (TtlSidecarPath ?q) = Some (File (bytes_of_string (show_int ?x @ [ch_newline])))"
    unfolding w(2) using assms by (intro WriteTtlSidecar_written) auto
  have data: "node_at fs' ?q = Some (File bs)" using spec(1) w WriteTtlSidecar_keeps [OF assms(1), of ?q] side(1) by simp
  have "0 < int (unat (ce_ttl e))" using assms(2) by (simp only: word_less_nat_alt unat_0 of_nat_0_less_iff)
  with assms(8) have pos: "0 < ?x" by linarith
  have ex: "fs_exists ?q fs'" using data assms(1) by (simp add: fs_exists_def)
  note c = CheckAndEvictIfExpired_written [OF assms(1) PathFor_relative(3) sc pos assms(9)]
  show ?thesis
  proof (cases "t < ?x")
    case True
    with c(1) [OF _ True] assms(7) ex show ?thesis by (simp add: Cache_Exists_def Let_def)
  next
    case False
    then have "?x \<le> t" by simp
    have host: "h_readable h (TtlSidecarPath ?q)" "h_remove h ?q" "h_remove h (TtlSidecarPath ?q)" using assms(7) by auto
    from c(2) [OF host(1) \<open>?x \<le> t\<close> data host(2,3)] obtain fs'' where "CheckAndEvictIfExpired h t ?q fs' = (True, fs'')"
      "node_at fs'' ?q = None" "node_at fs'' (TtlSidecarPath ?q) = None" by blast
    with False ex show ?thesis by (simp add: Cache_Exists_def Let_def)
  qed
qed

definition big_host :: cache_host where
  "big_host = open_host\<lparr>h_space := (\<lambda>_. 100)\<rparr>"

theorem Exists_until_expiry_witness:
  "if (5::int) < 1 + int (unat (ce_ttl (note_entry\<lparr>ce_ttl := 10\<rparr>)))
    then Cache_Exists big_host [''cache''] 5 (note_entry\<lparr>ce_ttl := 10\<rparr>) (snd (WriteBinary big_host [''cache''] 7 1 (note_entry\<lparr>ce_ttl := 10\<rparr>) [1, 2] []))
      = (True, snd (WriteBinary big_host [''cache''] 7 1 (note_entry\<lparr>ce_ttl := 10\<rparr>) [1, 2] []))
    else \<exists>fs''. Cache_Exists big_host [''cache''] 5 (note_entry\<lparr>ce_ttl := 10\<rparr>) (snd (WriteBinary big_host [''cache''] 7 1 (note_entry\<lparr>ce_ttl := 10\<rparr>) [1, 2] []))
      = (False, fs'') \<and> node_at fs'' (PathFor big_host [''cache''] (note_entry\<lparr>ce_ttl := 10\<rparr>)) = None \<and>
        node_at fs'' (TtlSidecarPath (PathFor big_host [''cache''] (note_entry\<lparr>ce_ttl := 10\<rparr>))) = None"
proof (rule Exists_until_expiry [of big_host "[''cache'']" "note_entry\<lparr>ce_ttl := 10\<rparr>" 7 1 "[1, 2]" "[]"])
  have path: "PathFor big_host [''cache''] (note_entry\<lparr>ce_ttl := 10\<rparr>) = [''cache'', ''notes'', ''ab'', ''a.txt'']" by code_simp
  then show "proper_path (PathFor big_host [''cache''] (note_entry\<lparr>ce_ttl := 10\<rparr>))" by (simp add: proper_path_def)
  show "WriteBinary big_host [''cache''] 7 1 (note_entry\<lparr>ce_ttl := 10\<rparr>) [1, 2] []
    = (None, snd (WriteBinary big_host [''cache''] 7 1 (note_entry\<lparr>ce_ttl := 10\<rparr>) [1, 2] []))" by code_simp
qed (simp_all add: note_entry_def big_host_def open_host_def node_at_def TtlSidecarPath_def)

text \<open>\<open>ReadBinary\<close> does not look at the sidecar: an entry that has expired is still read, until \<open>Exists\<close> is asked.\<close>

lemma ReadBinary_ignores_expiry:
  assumes "proper_path (PathFor h root e)" "WriteBinary h root ticks now e bs fs = (None, fs')" "h_readable h (PathFor h root e)"
  shows "ReadBinary h root e fs' = Inr bs"
proof -
  let ?q = "PathFor h root e"
  obtain r1 fs1 where s1: "WriteBinaryRelative h root ticks (relative_to root ?q) bs fs = (r1, fs1)" by fastforce
  with assms(2) have w: "r1 = None" "fs' = (if ce_ttl e > 0 then WriteTtlSidecar h now ?q (ce_ttl e) fs1 else fs1)" by (auto simp: WriteBinary_def split: option.splits)
  note spec = WriteBinaryRelative_spec [OF _ _ s1, unfolded PathFor_relative(1), OF assms(1) PathFor_relative(2)]
  have "?q \<noteq> TtlSidecarPath ?q" using sidecar_neq [OF PathFor_relative(3), of h root e] by simp
  with spec(1) w have "node_at fs' ?q = Some (File bs)" using WriteTtlSidecar_keeps [OF assms(1), of ?q] by simp
  with assms(1,3) PathFor_relative(1) [of root h e] show ?thesis
    by (simp add: ReadBinary_def ReadBinaryRelative_def ResolveRelative_def read_all_def Let_def)
qed

text \<open>
  Removing or rewriting an entry leaves its old sidecar: written with ten seconds to live and then again without limit, the entry
  is gone when the ten seconds are over.
\<close>

lemma rewrite_keeps_old_expiry:
  "let fs = snd (WriteBinary big_host [''cache''] 7 1 (note_entry\<lparr>ce_ttl := 10\<rparr>) [1] []);
       fs = snd (Cache_Remove big_host [''cache''] note_entry fs);
       fs = snd (WriteBinary big_host [''cache''] 8 5 note_entry [2] fs)
   in fst (Cache_Exists big_host [''cache''] 10 note_entry fs) \<and> \<not> fst (Cache_Exists big_host [''cache''] 11 note_entry fs)"
  by code_simp

section \<open>Where the files are\<close>

lemma file_name_char_cases: "file_name_char c \<noteq> CHR ''/''" "file_name_char c \<noteq> CHR 0x5C"
  by (auto simp: file_name_char_def c_isalnum_def c_isalpha_def c_isdigit_def c_isupper_def c_islower_def)

lemma SanitizeFileName_separators: "CHR ''/'' \<notin> set (SanitizeFileName h s)" "SanitizeFileName h s \<noteq> []"
  by (auto simp: SanitizeFileName_def Let_def) (metis file_name_char_cases(1))

text \<open>\<open>SanitizeFileName\<close> lets \<open>..\<close> through: with it as scope and name a write goes to the parent of the cache.\<close>

lemma dotdot_entry_leaves_root:
  "path_resolve (PathFor open_host [''srv'', ''cache''] (MakeEntry Some ''..'' ''k'' ''passwd'')) = [''srv'', ''ab'', ''passwd'']"
  "path_resolve (PathFor open_host [''srv'', ''cache''] (MakeEntry Some ''..'' ''k'' ''..'')) = [''srv'']"
  by code_simp+

text \<open>Different entries can share a place, in memory and on disk.\<close>

lemma colliding_entries:
  "StorageKey (MakeEntry Some ''a'' ''b::c'' ''d'') = StorageKey (MakeEntry Some ''a'' ''b'' ''c::d'')"
  "PathFor open_host [''c''] (MakeEntry Some ''a'' ''k'' ''x y'') = PathFor open_host [''c''] (MakeEntry Some ''a'' ''k'' ''x_y'')"
  by code_simp+

section \<open>Directory locks\<close>

text \<open>An acquired lock is a directory that this process made: it was not there before, so no two processes hold one lock at a time.\<close>

lemma lock_loop_acquires:
  assumes "lock_loop h p wants n env fs = (None, fs')" "proper_path p" "p \<noteq> []"
  shows "\<exists>i g. i < n \<and> node_at (env i g) p = None \<and> fs' = fs_put p Dir (env i g)"
  using assms(1)
proof (induction n arbitrary: fs)
  case (Suc n)
  obtain r g where c: "create_directory h p (env n fs) = (r, g)" by fastforce
  show ?case
  proof (cases "r = Some True")
    case True
    with c assms(2) have "node_at (env n fs) p = None" "g = fs_put p Dir (env n fs)"
      by (auto simp: create_directory_def Let_def split: option.splits node.splits if_splits)
    with True c Suc.prems show ?thesis by auto
  next
    case False
    have "lock_loop h p wants n env g = (None, fs')" using False c Suc.prems by (auto split: option.splits bool.splits if_splits)
    from Suc.IH [OF this] show ?thesis using less_Suc_eq by blast
  qed
qed simp

text \<open>\<open>CleanupDirectoryLock\<close> removes the lock of whoever holds it: afterwards a second process acquires it at once.\<close>

lemma cleanup_breaks_lock:
  "let (r1, fs) = AcquireDirectoryLock open_host [''l''] 1 True (\<lambda>_ fs. fs) [];
       fs = snd (CleanupDirectoryLock open_host [''l''] fs);
       (r2, fs) = AcquireDirectoryLock open_host [''l''] 1 True (\<lambda>_ fs. fs) fs
   in r1 = None \<and> r2 = None"
  by code_simp

end
