(* ===== verification/Spec2Isabelle.thy ===== *)
theory Spec2Isabelle
  imports XerScriptRun XerHelpers FileDiff NetworkPackets FluxTerminal SyncPrimitives TaskQueues ThreadPool Prefetch BufferPools CacheStorage
begin

text \<open>
  \<^bold>\<open>XER: a verification library for the script engine and its services.\<close>

  XER runs scripts in a small language (\<open>.xer\<close>), protects them in a binary container (\<open>.bin\<close>), and
  ships the services a script host needs: network formats, a console, asynchronous I/O with its queues,
  pools and caches, a cache on disk and helpers. This development models the program's own logic, in
  \<^verbatim>\<open>src/src/xer\<close>, \<^verbatim>\<open>src/src/content/network\<close>, \<^verbatim>\<open>src/src/flux\<close>, \<^verbatim>\<open>src/src/async_io\<close>, \<^verbatim>\<open>src/src/cache\<close> and
  \<^verbatim>\<open>src/src/helper\<close>, as executable HOL definitions, and proves what makes each part correct.

  \<^bold>\<open>How the parts interact.\<close> A script is read, normalised, tokenized, parsed and executed
  (\<open>XerScriptRun.Run\<close>). Running a source file first writes its protected container next to it: the
  outline compiler lists what the script contains (that list becomes the manifest), the codec
  compresses and masks the text, the container stores header, section table, manifest, an optional
  encryption descriptor and the payload. Running a container decodes it and executes the result.
  The network formats and the console are separate services: the console decodes key strokes into
  events, edits a line, keeps a history and parses commands; it draws frames into a cell grid and
  renders them for a terminal whose screen is emulated. The asynchronous I/O layer runs tasks on a
  thread pool; the prefetcher queues jobs there that read regions of files into a least-recently-used
  cache, with buffers from two pools. The disk cache stores entries in files with sidecars for their
  time to live.

  \<^bold>\<open>Conventions.\<close> A C++ struct or class is a record that operations return updated, an enumeration a
  datatype (or its integer code where foreign values are cast to it), a string a list of characters,
  a vector a list, a \<open>std::map\<close> a list in key order. Machine integers are words where they wrap.
  The outcome type \<open>exec\<close> of \<open>XER_Prelude\<close> has a constructor for a normal return, for an error
  (a thrown exception or a reported error text), for undefined behaviour (an access outside a
  vector, an array or a buffer) and for exhausted fuel; a statement that a routine returns \<open>Ok\<close> is
  a statement that it terminates without undefined behaviour. Code outside the repository is an
  argument: OpenSSL, the clock, the environment, the file system and allocation (record \<open>host\<close> and
  \<open>disk\<close> of \<open>XerEncode\<close>), ICU (\<open>icu\<close>, \<open>nfc\<close>), libuv, canonical paths, \<open>inet_ntop\<close>, the socket exchange, the
  WebSocket mask key and the iteration order of hash maps.

  \<^bold>\<open>Theories.\<close>

  \<^item> \<open>XER_Prelude\<close>: words, outcomes, character classes, decimal numerals, list lemmas, collections.

  \<^item> \<open>Sxer84321\<close> (\<open>xer/encode/sxer84321.c\<close>): checksum, mask, match search, encoder and decoder with
    explicit buffer capacities. Round trip, the size bound, safety of both directions on arbitrary
    input, and detection of every single changed byte by the checksum.

  \<^item> \<open>XerTokenzer\<close>, \<open>XerScriptLexer\<close> (\<open>xer_tokenzer.cc\<close>, the lexer of \<open>xer_script.cc\<close>): two tokenizers.
    Tokens cover the source with correct locations; both agree on every text both accept; printing
    lexemes and reading them back.

  \<^item> \<open>XerValues\<close> (\<open>xer_value.cc\<close>, \<open>xer_bigint.cc\<close>, \<open>xer_local.cc\<close>, \<open>xer_module.cc\<close>): dynamic values, decimal
    integers, scope frames, the module registry.

  \<^item> \<open>XerScriptParser\<close>, \<open>XerScriptGrammar\<close> (the parser of \<open>xer_script.cc\<close>): recursive descent with fuel
    for the nesting depth, length of the input plus two, which always suffices; the grammar as
    inductive relations; the parser accepts exactly the grammar; printed programs parse back.

  \<^item> \<open>XerCompiler\<close> (\<open>xer_compiler.cc\<close>, \<open>xer_ast.cc\<close>, \<open>xer_util.cc\<close>): the outline agrees with the parser.

  \<^item> \<open>XerScriptRuntime\<close> (the runtime of \<open>xer_script.cc\<close>): evaluation over scopes and a world of effects.
    Fuel is spent at function calls only. Scopes are preserved; nothing is undefined; programs
    whose calls are ranked terminate, and a function that calls itself runs out of every fuel.

  \<^item> \<open>XerBinary\<close>, \<open>JsBuffer\<close>, \<open>XerEncode\<close>, \<open>XerContainer\<close> (\<open>helper/js_buffer.cc\<close>, \<open>xer_buffer.cc\<close>,
    \<open>xer_encode.cc\<close>): struct images (interface \<open>field_codec\<close>), span operations, and the protected container:
    round trip with and without encryption, safety on hostile files, tamper detection, inspection
    and artifact files.

  \<^item> \<open>XerScriptRun\<close> (\<open>XerScript::Run\<close>): the pipeline; running the container of a script has the same
    outcome as running its source.

  \<^item> \<open>XerHelpers\<close> (\<open>xer_sandbox.cc\<close>, \<open>xer_string.cc\<close>, \<open>xer_async.cc\<close>, \<open>helper/string.cc\<close>) and \<open>FileDiff\<close>
    (\<open>helper/file_diff.cc\<close>): permissions, templates, text helpers, and the line difference, which is
    minimal.

  \<^item> \<open>NetworkFraming\<close> (\<open>websocket_frame.cc\<close>, \<open>spdy_framer.cc\<close>), \<open>NetworkText\<close> (\<open>url_util.cc\<close>, \<open>http_util.cc\<close>,
    \<open>http_request_headers.cc\<close>, \<open>http_response_headers.cc\<close>, \<open>network_util.cc\<close>; interface \<open>string_store\<close>),
    \<open>NetworkPackets\<close> (\<open>dns_client.cc\<close>, \<open>quic_packet.cc\<close>): round trips of the formats and safety of the
    parsers on arbitrary bytes.

  \<^item> \<open>FluxInput\<close> (\<open>command_history.cc\<close>, \<open>command_parser.cc\<close>, \<open>key_binding_manager.cc\<close>,
    \<open>terminal_input_handler.cc\<close>, \<open>input_manager.cc\<close>; interface \<open>line_history\<close>): sessions keep the history
    well formed, lines are dispatched and recalled, command lines are read back as written.

  \<^item> \<open>FluxRender\<close> (\<open>terminal_ansi_parser.cc\<close>, \<open>terminal_colors.h\<close>, \<open>terminal_styles.h\<close>, \<open>frame_buffer.cc\<close>,
    \<open>renderer.cc\<close>, \<open>render_pipeline.cc\<close>) and \<open>FluxTerminal\<close> (\<open>terminal_emulator.cc\<close>, \<open>terminal_buffer.cc\<close>,
    \<open>terminal_window.cc\<close>): the interface \<open>cell_grid\<close> for the frame buffer and \<open>styled_output\<close> for a consumer of
    styled text, instantiated by the escape-sequence stripper and by the emulator; both show the
    coloured rendering of a frame as its plain rendering.

  \<^item> \<open>Monitor\<close>: what the standard library guarantees of a mutex with a condition variable, as a step relation
    over any number of threads: a call enters, waits until its condition holds, runs its critical section and
    notifies; sleepers wake on notification, spuriously or at a time limit. The interfaces \<open>monitor_trace\<close>,
    \<open>monitor_invariant\<close>, \<open>monitor_account\<close> and \<open>monitor_supply\<close> give invariants over all interleavings, balances
    between calls and state, and the absence of lost wake-ups.

  \<^item> \<open>SyncPrimitives\<close> (\<open>async_io/sync_primitives\<close>): barriers, semaphore, event, mutex wrapper, read-write lock and spin lock
    as monitors. A barrier releases in groups; permits are never exceeded; a reset can strand a waiter.

  \<^item> \<open>TaskQueues\<close> (\<open>async_task_queue.cc\<close>, \<open>io_priority_queue.cc\<close>): the queues over the binary heap of
    \<open>std::priority_queue\<close>; tasks are handed out at most once, best priority first.

  \<^item> \<open>ThreadPool\<close> (\<open>io_thread_pool.cc\<close>): workers and the phases of a stop as a step relation; what was enqueued before a
    stop has run when the workers are joined.

  \<^item> \<open>IoCache\<close> (\<open>io_cache_manager.cc\<close>) and \<open>Prefetch\<close> (\<open>io_file_map.cc\<close>, \<open>io_prefetch_manager.cc\<close>): the cache refines an
    abstract least-recently-used list; the prefetcher serves only what a file held since it was last invalidated,
    when each call runs to its end; interleaved jobs can break that.

  \<^item> \<open>BufferPools\<close> (\<open>async_buffer_pool.cc\<close>, \<open>io_buffer_pool.cc\<close>; interface \<open>buffer_pool\<close>): no buffer is lent twice, and
    capacities suffice.

  \<^item> \<open>CacheStorage\<close> (\<open>src/cache\<close>; interface \<open>cache_storage\<close>, instantiated by the storage in memory and on disk): reads
    return the last successful write, writes are all or nothing whatever the host refuses, time to live, locks.

  \<^bold>\<open>Bounds.\<close> Sizes that the code keeps in \<open>size_t\<close> are natural numbers, except where its 64-bit
  arithmetic can wrap: section descriptors, frame lengths, cell counts, file regions and bucket sizes. The lemmas
  \<open>XerContainer.Decode_wraparound_undefined\<close>, \<open>NetworkFraming.DecodeFrame_length_wraps\<close>,
  \<open>FluxRender.Resize_wraps\<close> and \<open>Prefetch.GetRegion_wraps\<close> show that they do.

  \<^bold>\<open>Not modelled.\<close> The bindings to V8, FFmpeg, Skia and the operating system (modules, wrappers, audio,
  video, image, device and AI services, plugin host), whose behaviour is that of those libraries;
  sockets, TLS, timers and file handles; crash handling, file watching and the application entry; the
  performance counters and wall-clock reports of the script engine; detection of the real terminal.
\<close>

end
